(* ===== verification/Shuru_Prelude.thy ===== *)
theory Shuru_Prelude
  imports Main "HOL-Library.Word"
begin

text \<open>
  What every component of the development shares: the machine integers of the Rust code, its
  slices and checked arithmetic, the little- and big-endian byte codecs of the integers, the
  readers and writers of \<^verbatim>\<open>std::io\<close>, and the locale of fixed-width codecs that the wire
  formats interpret.
\<close>

unbundle bit_operations_syntax

named_theorems codec_simps \<open>lengths and round trips of byte codecs\<close>
named_theorems io_simps \<open>outcomes of reads and writes\<close>

section \<open>Machine integers\<close>

type_synonym u8 = "8 word"
type_synonym u16 = "16 word"
type_synonym u32 = "32 word"
type_synonym u64 = "64 word"
type_synonym byte = u8
type_synonym bytes = "byte list"

text \<open>
  \<^verbatim>\<open>checked_add\<close>, \<^verbatim>\<open>checked_mul\<close> and \<^verbatim>\<open>saturating_sub\<close> of the unsigned integers.
  \<^verbatim>\<open>wrapping_add\<close> and \<^verbatim>\<open>wrapping_sub\<close> are \<open>+\<close> and \<open>-\<close> on words.
\<close>

definition checked_add :: "'a::len word \<Rightarrow> 'a word \<Rightarrow> 'a word option" where
  "checked_add a b = (if unat a + unat b < 2 ^ LENGTH('a) then Some (a + b) else None)"

definition checked_mul :: "'a::len word \<Rightarrow> 'a word \<Rightarrow> 'a word option" where
  "checked_mul a b = (if unat a * unat b < 2 ^ LENGTH('a) then Some (a * b) else None)"

definition saturating_sub :: "'a::len word \<Rightarrow> 'a word \<Rightarrow> 'a word" where
  "saturating_sub a b = (if b \<le> a then a - b else 0)"

lemma unat_word_bound: "unat (w :: 'a :: len word) < 2 ^ LENGTH('a)"
  by (rule unsigned_less)

lemma checked_add_Some_iff:
  "checked_add a b = Some c \<longleftrightarrow> unat c = unat a + unat b"
  for a b c :: "'a::len word"
proof
  assume "checked_add a b = Some c"
  then show "unat c = unat a + unat b"
    by (auto simp: checked_add_def unat_word_ariths split: if_splits)
next
  assume eq: "unat c = unat a + unat b"
  then have "unat a + unat b < 2 ^ LENGTH('a)"
    by (metis unsigned_less)
  moreover from eq have "c = a + b"
    by (metis of_nat_add of_nat_unat ucast_id)
  ultimately show "checked_add a b = Some c"
    by (simp add: checked_add_def)
qed

lemma checked_mul_SomeD:
  "checked_mul a b = Some c \<Longrightarrow> unat c = unat a * unat b"
  for a b c :: "'a::len word"
  by (auto simp: checked_mul_def unat_word_ariths split: if_splits)

lemma unat_saturating_sub: "unat (saturating_sub a b) = unat a - unat b"
  for a b :: "'a::len word"
  by (auto simp: saturating_sub_def unat_sub word_le_nat_alt)

lemma unat_sub_wrap:
  "unat (a - b) = (if b \<le> a then unat a - unat b else 2 ^ LENGTH('a) + unat a - unat b)"
  for a b :: "'a::len word"
proof (cases "b \<le> a")
  case True
  then show ?thesis by (simp add: unat_sub)
next
  case False
  then show ?thesis by (simp add: unat_sub_if' word_le_nat_alt)
qed

section \<open>Slices\<close>

text \<open>
  \<^verbatim>\<open>&xs[i..j]\<close>: out of range, or with its ends out of order, indexing panics. \<open>None\<close> is the
  panic.
\<close>

definition subslice :: "nat \<Rightarrow> nat \<Rightarrow> 'a list \<Rightarrow> 'a list option" where
  "subslice i j xs = (if i \<le> j \<and> j \<le> length xs then Some (take (j - i) (drop i xs)) else None)"

text \<open>\<^verbatim>\<open>xs.iter().position(p)\<close>.\<close>

fun position :: "('a \<Rightarrow> bool) \<Rightarrow> 'a list \<Rightarrow> nat option" where
  "position p [] = None"
| "position p (x # xs) = (if p x then Some 0 else map_option Suc (position p xs))"

lemma position_None_iff: "position p xs = None \<longleftrightarrow> (\<forall>x\<in>set xs. \<not> p x)"
  by (induction xs) auto

lemma position_SomeD:
  "position p xs = Some i \<Longrightarrow> i < length xs \<and> p (xs ! i) \<and> (\<forall>x\<in>set (take i xs). \<not> p x)"
  by (induction xs arbitrary: i) (auto split: if_splits)

lemma position_append:
  "position p (xs @ ys) =
     (case position p xs of Some i \<Rightarrow> Some i
      | None \<Rightarrow> map_option (\<lambda>i. length xs + i) (position p ys))"
  by (induction xs; cases "position p ys") (auto split: option.splits)

lemma subslice_Some_iff:
  "subslice i j xs = Some ys \<longleftrightarrow> i \<le> j \<and> j \<le> length xs \<and> ys = take (j - i) (drop i xs)"
  by (auto simp: subslice_def)

lemma length_subslice: "subslice i j xs = Some ys \<Longrightarrow> length ys = j - i"
  by (auto simp: subslice_Some_iff)

section \<open>Bytes of an integer\<close>

text \<open>
  \<^verbatim>\<open>to_le_bytes\<close>, \<^verbatim>\<open>to_be_bytes\<close> and their inverses on the unsigned integers: the bytes are
  the digits to base 256, least or most significant first.
\<close>

fun le_digits :: "nat \<Rightarrow> nat \<Rightarrow> bytes" where
  "le_digits 0 x = []"
| "le_digits (Suc n) x = word_of_nat x # le_digits n (x div 256)"

fun le_value :: "bytes \<Rightarrow> nat" where
  "le_value [] = 0"
| "le_value (b # bs) = unat b + 256 * le_value bs"

definition to_le_bytes :: "'a::len word \<Rightarrow> bytes" where
  "to_le_bytes w = le_digits (LENGTH('a) div 8) (unat w)"

definition to_be_bytes :: "'a::len word \<Rightarrow> bytes" where
  "to_be_bytes w = rev (to_le_bytes w)"

definition from_le_bytes :: "bytes \<Rightarrow> 'a::len word" where
  "from_le_bytes bs = word_of_nat (le_value bs)"

definition from_be_bytes :: "bytes \<Rightarrow> 'a::len word" where
  "from_be_bytes bs = from_le_bytes (rev bs)"

lemma length_le_digits [simp]: "length (le_digits n x) = n"
  by (induction n arbitrary: x) auto

lemma le_value_digits: "le_value (le_digits n x) = x mod 256 ^ n"
proof (induction n arbitrary: x)
  case 0
  then show ?case by simp
next
  case (Suc n)
  have "x mod 256 + 256 * (x div 256 mod 256 ^ n) = x mod (256 * 256 ^ n)"
    by (simp add: mod_mult2_eq)
  then show ?case by (simp add: Suc.IH unat_of_nat)
qed

lemma le_value_less: "le_value bs < 256 ^ length bs"
proof (induction bs)
  case Nil
  then show ?case by simp
next
  case (Cons b bs)
  have "unat b < 256" using unsigned_less [of b] by simp
  with Cons.IH show ?case by simp
qed

lemma le_digits_value: "length bs = n \<Longrightarrow> le_digits n (le_value bs) = bs"
proof (induction bs arbitrary: n)
  case Nil
  then show ?case by simp
next
  case (Cons b bs)
  have b: "unat b < 256" using unsigned_less [of b] by simp
  have "word_of_nat (unat b + 256 * le_value bs) = b"
    using b by (simp only: word_unat_eq_iff unat_of_nat) simp
  moreover have "(unat b + 256 * le_value bs) div 256 = le_value bs"
    using b by simp
  moreover obtain m where "n = Suc m" "length bs = m" using Cons.prems by auto
  ultimately show ?case using Cons.IH [of m] by simp
qed

lemma length_to_le_bytes [simp, codec_simps]:
  "length (to_le_bytes (w :: 'a::len word)) = LENGTH('a) div 8"
  by (simp add: to_le_bytes_def)

lemma length_to_be_bytes [simp, codec_simps]:
  "length (to_be_bytes (w :: 'a::len word)) = LENGTH('a) div 8"
  by (simp add: to_be_bytes_def)

lemma from_to_le_bytes [codec_simps]:
  assumes "8 dvd LENGTH('a)"
  shows "from_le_bytes (to_le_bytes w) = (w :: 'a::len word)"
proof -
  have "(256::nat) ^ (LENGTH('a) div 8) = 2 ^ (8 * (LENGTH('a) div 8))"
    by (simp add: power_mult)
  with assms have "(256::nat) ^ (LENGTH('a) div 8) = 2 ^ LENGTH('a)" by simp
  then show ?thesis
    by (simp add: from_le_bytes_def to_le_bytes_def le_value_digits unsigned_less)
qed

lemma to_from_le_bytes [codec_simps]:
  assumes "8 dvd LENGTH('a)" "length bs = LENGTH('a) div 8"
  shows "to_le_bytes (from_le_bytes bs :: 'a::len word) = bs"
proof -
  have "(256::nat) ^ length bs = 2 ^ (8 * (LENGTH('a) div 8))"
    by (simp add: power_mult assms(2))
  with assms(1) have "le_value bs < 2 ^ LENGTH('a)" using le_value_less [of bs] by simp
  then show ?thesis
    by (simp add: from_le_bytes_def to_le_bytes_def unat_of_nat assms(2) [symmetric] le_digits_value)
qed

lemma from_to_be_bytes [codec_simps]:
  assumes "8 dvd LENGTH('a)"
  shows "from_be_bytes (to_be_bytes w) = (w :: 'a::len word)"
  using assms by (simp add: from_be_bytes_def to_be_bytes_def from_to_le_bytes)

lemma to_from_be_bytes [codec_simps]:
  assumes "8 dvd LENGTH('a)" "length bs = LENGTH('a) div 8"
  shows "to_be_bytes (from_be_bytes bs :: 'a::len word) = bs"
  using assms by (simp add: from_be_bytes_def to_be_bytes_def to_from_le_bytes)

section \<open>Fixed-width codecs\<close>

text \<open>
  The contract the wire formats rely on: every value takes the same number of bytes, and a
  decoder that is given at least that many reads the value back off their front.
\<close>

locale fixed_codec =
  fixes encode :: "'v \<Rightarrow> bytes"
    and decode :: "bytes \<Rightarrow> 'v option"
    and width :: nat
  assumes encode_width: "length (encode v) = width"
    and decode_encode: "decode (encode v) = Some v"
begin

lemma encode_inject: "encode v = encode w \<longleftrightarrow> v = w"
  by (metis decode_encode option.inject)

lemma encode_prefix_inject: "encode v @ xs = encode w @ ys \<longleftrightarrow> v = w \<and> xs = ys"
  using encode_inject encode_width by (metis append_eq_append_conv)

end

interpretation u16_le: fixed_codec "to_le_bytes :: u16 \<Rightarrow> bytes"
  "\<lambda>bs. if length bs = 2 then Some (from_le_bytes bs) else None" 2
  by unfold_locales (simp_all add: codec_simps)

interpretation u32_le: fixed_codec "to_le_bytes :: u32 \<Rightarrow> bytes"
  "\<lambda>bs. if length bs = 4 then Some (from_le_bytes bs) else None" 4
  by unfold_locales (simp_all add: codec_simps)

interpretation u64_le: fixed_codec "to_le_bytes :: u64 \<Rightarrow> bytes"
  "\<lambda>bs. if length bs = 8 then Some (from_le_bytes bs) else None" 8
  by unfold_locales (simp_all add: codec_simps)

interpretation u32_be: fixed_codec "to_be_bytes :: u32 \<Rightarrow> bytes"
  "\<lambda>bs. if length bs = 4 then Some (from_be_bytes bs) else None" 4
  by unfold_locales (simp_all add: codec_simps)

section \<open>Readers and writers\<close>

text \<open>
  The kinds of \<^verbatim>\<open>std::io::Error\<close> the code distinguishes.
\<close>

datatype io_error =
    UnexpectedEof
  | InvalidData
  | PermissionDenied
  | WouldBlock
  | Interrupted
  | WriteZero
  | OutOfMemory
  | ConnectionRefused
  | TimedOut
  | OtherError

text \<open>
  A reader holds the bytes its peer will send and what follows them: the end of the stream
  (\<open>None\<close>) or an error. \<^verbatim>\<open>read_exact\<close> either fills the buffer or fails, with
  \<open>UnexpectedEof\<close> at the end of the stream.
\<close>

record reader =
  rd_bytes :: bytes
  rd_end :: "io_error option"

definition read_exact :: "nat \<Rightarrow> reader \<Rightarrow> (io_error + bytes) \<times> reader" where
  "read_exact n r =
     (if n \<le> length (rd_bytes r)
      then (Inr (take n (rd_bytes r)), r\<lparr>rd_bytes := drop n (rd_bytes r)\<rparr>)
      else (Inl (case rd_end r of None \<Rightarrow> UnexpectedEof | Some e \<Rightarrow> e), r\<lparr>rd_bytes := []\<rparr>))"

lemma read_exact_enough [io_simps]:
  "n \<le> length (rd_bytes r) \<Longrightarrow>
     read_exact n r = (Inr (take n (rd_bytes r)), r\<lparr>rd_bytes := drop n (rd_bytes r)\<rparr>)"
  by (simp add: read_exact_def)

lemma read_exact_short [io_simps]:
  "length (rd_bytes r) < n \<Longrightarrow>
     read_exact n r = (Inl (case rd_end r of None \<Rightarrow> UnexpectedEof | Some e \<Rightarrow> e), r\<lparr>rd_bytes := []\<rparr>)"
  by (simp add: read_exact_def)

lemma read_exact_append [io_simps]:
  "length xs = n \<Longrightarrow>
     read_exact n \<lparr>rd_bytes = xs @ ys, rd_end = e\<rparr> = (Inr xs, \<lparr>rd_bytes = ys, rd_end = e\<rparr>)"
  by (simp add: read_exact_def)

text \<open>
  A writer holds what was written and, when its next write fails, the error. \<^verbatim>\<open>flush\<close> on the
  sockets the code writes to does nothing.
\<close>

record writer =
  wr_out :: bytes
  wr_fail :: "io_error option"

definition write_all :: "bytes \<Rightarrow> writer \<Rightarrow> (io_error + unit) \<times> writer" where
  "write_all bs w =
     (case wr_fail w of
        Some e \<Rightarrow> (Inl e, w)
      | None \<Rightarrow> (Inr (), w\<lparr>wr_out := wr_out w @ bs\<rparr>))"

lemma write_all_ok [io_simps]:
  "wr_fail w = None \<Longrightarrow> write_all bs w = (Inr (), w\<lparr>wr_out := wr_out w @ bs\<rparr>)"
  by (simp add: write_all_def)

section \<open>Text\<close>

text \<open>
  Text is a \<^typ>\<open>string\<close>, one \<^typ>\<open>char\<close> for each byte of its UTF-8 form. \<open>ascii\<close> gives the
  bytes of a text, \<open>decimal\<close> is the decimal form that \<^verbatim>\<open>format!\<close> writes.
\<close>

definition ascii :: "string \<Rightarrow> bytes" where
  "ascii = map (\<lambda>c. word_of_nat (of_char c))"

lemma length_ascii [simp]: "length (ascii cs) = length cs"
  by (simp add: ascii_def)

abbreviation code_of :: "char \<Rightarrow> nat" where
  "code_of c \<equiv> of_char c"

definition is_digit :: "char \<Rightarrow> bool" where
  "is_digit c \<longleftrightarrow> 48 \<le> code_of c \<and> code_of c \<le> 57"

fun decimal :: "nat \<Rightarrow> string" where
  "decimal n =
     (if n < 10 then [char_of (48 + n)] else decimal (n div 10) @ [char_of (48 + n mod 10)])"

declare decimal.simps [simp del]

definition digits_value :: "string \<Rightarrow> nat" where
  "digits_value cs = foldl (\<lambda>v c. 10 * v + (code_of c - 48)) 0 cs"

text \<open>
  \<^verbatim>\<open>str::parse\<close> for an unsigned integer below \<open>bound\<close>: digits, at least one, after an optional
  plus sign.
\<close>

definition parse_unsigned :: "nat \<Rightarrow> string \<Rightarrow> nat option" where
  "parse_unsigned bound cs =
     (let ds = (case cs of [] \<Rightarrow> [] | c # rest \<Rightarrow> if c = CHR ''+'' then rest else cs)
      in if ds = [] \<or> \<not> list_all is_digit ds then None
         else if digits_value ds < bound then Some (digits_value ds) else None)"

lemma code_of_char_of [simp]: "n < 256 \<Longrightarrow> code_of (char_of n) = n"
  by (simp add: of_char_of)

lemma is_digit_char_of [simp]: "(n :: nat) < 10 \<Longrightarrow> is_digit (char_of (48 + n))"
  by (simp add: is_digit_def)

lemma decimal_nonempty: "decimal n \<noteq> []"
  by (subst decimal.simps) simp

lemma decimal_digits: "list_all is_digit (decimal n)"
proof (induction n rule: decimal.induct)
  case (1 n)
  then show ?case by (subst decimal.simps) simp
qed

lemma digits_value_append:
  "digits_value (cs @ [c]) = 10 * digits_value cs + (code_of c - 48)"
  by (simp add: digits_value_def)

lemma digits_value_decimal: "digits_value (decimal n) = n"
proof (induction n rule: decimal.induct)
  case (1 n)
  show ?case
  proof (cases "n < 10")
    case True
    then show ?thesis by (subst decimal.simps) (simp add: digits_value_def)
  next
    case False
    with 1 show ?thesis by (subst decimal.simps) (simp add: digits_value_append)
  qed
qed

lemma parse_unsigned_decimal:
  assumes "n < bound"
  shows "parse_unsigned bound (decimal n) = Some n"
proof -
  obtain c cs where d: "decimal n = c # cs" using decimal_nonempty by (cases "decimal n") auto
  have "is_digit c" using decimal_digits [of n] by (simp add: d)
  then have "c \<noteq> CHR ''+''" by (auto simp: is_digit_def)
  then show ?thesis
    using assms decimal_digits [of n] digits_value_decimal [of n]
    by (simp add: parse_unsigned_def d)
qed

text \<open>
  \<^verbatim>\<open>String::from_utf8\<close>: the bytes must be the UTF-8 form of Unicode scalar values, with no overlong
  form and no surrogate.
\<close>

definition utf8_tail :: "byte \<Rightarrow> bool" where
  "utf8_tail b \<longleftrightarrow> 0x80 \<le> b \<and> b \<le> 0xBF"

fun utf8_valid :: "bytes \<Rightarrow> bool" where
  "utf8_valid [] = True"
| "utf8_valid (a # bs) =
     (if a < 0x80 then utf8_valid bs
      else
        case bs of
          b # cs \<Rightarrow>
            if 0xC2 \<le> a \<and> a \<le> 0xDF then utf8_tail b \<and> utf8_valid cs
            else
              (case cs of
                 c # ds \<Rightarrow>
                   if 0xE0 \<le> a \<and> a \<le> 0xEF then
                     utf8_tail b \<and> (a = 0xE0 \<longrightarrow> 0xA0 \<le> b) \<and> (a = 0xED \<longrightarrow> b \<le> 0x9F) \<and>
                     utf8_tail c \<and> utf8_valid ds
                   else
                     (case ds of
                        d # es \<Rightarrow>
                          0xF0 \<le> a \<and> a \<le> 0xF4 \<and> utf8_tail b \<and> (a = 0xF0 \<longrightarrow> 0x90 \<le> b) \<and>
                          (a = 0xF4 \<longrightarrow> b \<le> 0x8F) \<and> utf8_tail c \<and> utf8_tail d \<and> utf8_valid es
                      | [] \<Rightarrow> False)
               | [] \<Rightarrow> False)
        | [] \<Rightarrow> False)"

definition text_of :: "bytes \<Rightarrow> string" where
  "text_of = map (\<lambda>b. char_of (unat b))"

lemma text_of_ascii: "text_of (ascii s) = s"
  by (induction s) (simp_all add: text_of_def ascii_def unat_of_nat of_char_mod_256)

definition from_utf8 :: "bytes \<Rightarrow> string option" where
  "from_utf8 bs = (if utf8_valid bs then Some (text_of bs) else None)"

text \<open>\<^verbatim>\<open>to_ascii_lowercase\<close> and \<^verbatim>\<open>eq_ignore_ascii_case\<close>, on bytes.\<close>

definition lower :: "byte \<Rightarrow> byte" where
  "lower b = (if 65 \<le> b \<and> b \<le> 90 then b + 32 else b)"

definition eq_ignore_case :: "bytes \<Rightarrow> bytes \<Rightarrow> bool" where
  "eq_ignore_case xs ys \<longleftrightarrow> map lower xs = map lower ys"

text \<open>
  \<^verbatim>\<open>str::trim\<close> removes the Unicode white space at both ends; these are the UTF-8 forms of its
  characters.
\<close>

definition white_space :: "bytes list" where
  "white_space =
     map (\<lambda>b. [b]) [9, 10, 11, 12, 13, 32] @ [[0xC2, 0x85], [0xC2, 0xA0], [0xE1, 0x9A, 0x80]] @
     map (\<lambda>b. [0xE2, 0x80, b]) [0x80, 0x81, 0x82, 0x83, 0x84, 0x85, 0x86, 0x87, 0x88, 0x89, 0x8A, 0xA8, 0xA9, 0xAF] @
     [[0xE2, 0x81, 0x9F], [0xE3, 0x80, 0x80]]"

definition leading :: "bytes list \<Rightarrow> bytes \<Rightarrow> nat" where
  "leading ws bs = (case find (\<lambda>w. take (length w) bs = w) ws of Some w \<Rightarrow> length w | None \<Rightarrow> 0)"

function trim_front :: "bytes list \<Rightarrow> bytes \<Rightarrow> bytes" where
  "trim_front ws bs =
     (if leading ws bs = 0 \<or> bs = [] then bs else trim_front ws (drop (leading ws bs) bs))"
  by pat_completeness auto
termination
  by (relation "measure (\<lambda>(ws, bs). length bs)") auto

definition trim :: "bytes \<Rightarrow> bytes" where
  "trim bs = rev (trim_front (map rev white_space) (rev (trim_front white_space bs)))"

declare trim_front.simps [simp del]

end
