(* ===== verification/Proto_Frame.thy ===== *)
theory Proto_Frame
  imports Shuru_Prelude
begin

text \<open>
  The framed protocol between host and guest, \<^verbatim>\<open>crates/shuru-proto/src/frame.rs\<close>: the codes
  of the frame types, the writer and the two readers of a frame (from a stream and from a
  buffer), and the payloads of \<^verbatim>\<open>RESIZE\<close> and \<^verbatim>\<open>EXIT\<close>.
\<close>

section \<open>Frame types\<close>

text \<open>Every frame type constant of the file with its code.\<close>

definition frame_types :: "(string \<times> u8) list" where
  "frame_types =
     [(''HELLO'', 0x08), (''HELLO_OK'', 0x09),
      (''STDIN'', 0x01), (''STDOUT'', 0x02), (''STDERR'', 0x03),
      (''RESIZE'', 0x04), (''EXIT'', 0x05), (''ERROR'', 0x06), (''KILL'', 0x07),
      (''STDIN_EOF'', 0x0A), (''EXEC_REQ'', 0x10),
      (''MOUNT_REQ'', 0x11), (''MOUNT_RESP'', 0x12),
      (''READ_FILE_REQ'', 0x13), (''READ_FILE_RESP'', 0x14), (''WRITE_FILE_REQ'', 0x15),
      (''WRITE_FILE_DATA'', 0x16), (''WRITE_FILE_RESP'', 0x17),
      (''FWD_REQ'', 0x20), (''FWD_RESP'', 0x21),
      (''PORTS_WATCH_REQ'', 0x22), (''PORT_EVENT'', 0x23),
      (''WATCH_REQ'', 0x30), (''WATCH_EVENT'', 0x31), (''WATCH_DETAIL'', 0x32),
      (''MKDIR_REQ'', 0x40), (''FS_OK_RESP'', 0x41), (''READ_DIR_REQ'', 0x42),
      (''READ_DIR_RESP'', 0x43), (''STAT_REQ'', 0x44), (''STAT_RESP'', 0x45),
      (''REMOVE_REQ'', 0x46), (''RENAME_REQ'', 0x48), (''COPY_REQ'', 0x4A),
      (''CHMOD_REQ'', 0x4C), (''CHOWN_REQ'', 0x4D),
      (''DISCARD_REQ'', 0x4E), (''DISCARD_RESP'', 0x4F),
      (''DOWNLOAD_REQ'', 0x50), (''DOWNLOAD_PROGRESS'', 0x51),
      (''SHUTDOWN_REQ'', 0x60), (''SHUTDOWN_RESP'', 0x61)]"

text \<open>The constants declared at the end of the file.\<close>

definition late_frame_types :: "(string \<times> u8) list" where
  "late_frame_types =
     [(''SEAL_REQ'', 0x62), (''SEAL_RESP'', 0x63), (''THAW_REQ'', 0x64), (''THAW_RESP'', 0x65),
      (''TRIM_REQ'', 0x66), (''TRIM_RESP'', 0x67),
      (''KILL_REQ'', 0x18), (''KILL_RESP'', 0x19),
      (''RESTORE_REQ'', 0x68), (''RESTORE_RESP'', 0x69),
      (''SERVICE_ENV_REQ'', 0x6A), (''SERVICE_ENV_RESP'', 0x6B),
      (''SESSION_START'', 0x70), (''SESSION_ATTACH'', 0x71), (''SESSION_INFO'', 0x72),
      (''SESSION_LIST'', 0x73), (''SESSION_LIST_RESP'', 0x74),
      (''SESSION_KILL'', 0x75), (''SESSION_KILL_EVENT'', 0x76)]"

definition HELLO :: u8 where "HELLO = 0x08"
definition HELLO_OK :: u8 where "HELLO_OK = 0x09"
definition STDOUT :: u8 where "STDOUT = 0x02"
definition STDERR :: u8 where "STDERR = 0x03"

definition MAX_FRAME :: u32 where
  "MAX_FRAME = push_bit 20 1"

lemma MAX_FRAME_eq: "MAX_FRAME = 1048576"
  by (simp add: MAX_FRAME_def)

section \<open>Writing and reading\<close>

text \<open>
  The length field is a \<^verbatim>\<open>u32\<close> addition on the truncated payload length. It wraps, as it does in
  a release build. The writer holds nothing back, so the \<^verbatim>\<open>flush\<close> after \<^verbatim>\<open>write_all\<close> has
  nothing to do.
\<close>

definition write_frame :: "u8 \<Rightarrow> bytes \<Rightarrow> writer \<Rightarrow> (io_error + unit) \<times> writer" where
  "write_frame msg_type payload w =
     (let len = (1 :: u32) + word_of_nat (length payload);
          buf = to_be_bytes len @ [msg_type] @ payload
      in write_all buf w)"

definition read_frame :: "reader \<Rightarrow> (io_error + (u8 \<times> bytes) option) \<times> reader" where
  "read_frame r =
     (case read_exact 4 r of
        (Inl e, r) \<Rightarrow> (if e = UnexpectedEof then (Inr None, r) else (Inl e, r))
      | (Inr len_buf, r) \<Rightarrow>
          (let len = from_be_bytes len_buf :: u32
           in if len = 0 \<or> len > MAX_FRAME then (Inl InvalidData, r)
              else
                case read_exact 1 r of
                  (Inl e, r) \<Rightarrow> (Inl e, r)
                | (Inr type_buf, r) \<Rightarrow>
                    (let payload_len = unat (len - 1)
                     in if payload_len > 0
                        then (case read_exact payload_len r of
                                (Inl e, r) \<Rightarrow> (Inl e, r)
                              | (Inr payload, r) \<Rightarrow> (Inr (Some (hd type_buf, payload)), r))
                        else (Inr (Some (hd type_buf, [])), r))))"

text \<open>
  \<^verbatim>\<open>send_json\<close>: the serialiser is \<^verbatim>\<open>serde_json\<close>, so it is an argument.
\<close>

definition send_json ::
  "('m \<Rightarrow> io_error + bytes) \<Rightarrow> u8 \<Rightarrow> 'm \<Rightarrow> writer \<Rightarrow> (io_error + unit) \<times> writer" where
  "send_json to_vec msg_type msg w =
     (case to_vec msg of
        Inl _ \<Rightarrow> (Inl OtherError, w)
      | Inr payload \<Rightarrow> write_frame msg_type payload w)"

definition try_parse :: "bytes \<Rightarrow> (u8 \<times> nat \<times> nat) option" where
  "try_parse buf =
     (if length buf < 5 then None
      else
        let len = from_be_bytes [buf ! 0, buf ! 1, buf ! 2, buf ! 3] :: u32
        in if len = 0 \<or> len > MAX_FRAME then None
           else
             let total = 4 + unat len
             in if length buf < total then None
                else Some (buf ! 4, 5, total))"

section \<open>Payloads\<close>

definition resize_payload :: "u16 \<Rightarrow> u16 \<Rightarrow> bytes" where
  "resize_payload rows cols = to_be_bytes rows @ to_be_bytes cols"

definition parse_resize :: "bytes \<Rightarrow> (u16 \<times> u16) option" where
  "parse_resize payload =
     (if length payload < 4 then None
      else Some (from_be_bytes [payload ! 0, payload ! 1],
                 from_be_bytes [payload ! 2, payload ! 3]))"

text \<open>An \<^verbatim>\<open>i32\<close> is the 32-bit word of its two's complement; \<open>sint\<close> reads its value.\<close>

definition exit_payload :: "32 word \<Rightarrow> bytes" where
  "exit_payload code = to_be_bytes code"

definition parse_exit_code :: "bytes \<Rightarrow> 32 word option" where
  "parse_exit_code payload =
     (if length payload < 4 then None
      else Some (from_be_bytes [payload ! 0, payload ! 1, payload ! 2, payload ! 3]))"

section \<open>Lemmas\<close>

lemma take4_nth: "4 \<le> length xs \<Longrightarrow> take 4 xs = [xs ! 0, xs ! 1, xs ! 2, xs ! 3]"
  by (auto simp: numeral_eq_Suc Suc_le_length_iff)

lemma frame_len_unat:
  assumes "length payload < unat MAX_FRAME"
  shows "unat ((1 :: u32) + word_of_nat (length payload)) = Suc (length payload)"
  using assms by (simp add: MAX_FRAME_eq unat_word_ariths unat_of_nat)

lemma write_frame_ok:
  "wr_fail w = None \<Longrightarrow>
     write_frame t p w =
       (Inr (), w\<lparr>wr_out := wr_out w @ to_be_bytes ((1 :: u32) + word_of_nat (length p)) @ t # p\<rparr>)"
  by (simp add: write_frame_def io_simps)

text \<open>A well-formed frame at the front of a stream is read off it whole.\<close>

lemma read_frame_append:
  assumes "unat len = Suc (length p)" "len \<le> MAX_FRAME"
  shows "read_frame \<lparr>rd_bytes = to_be_bytes len @ t # p @ rest, rd_end = e\<rparr>
           = (Inr (Some (t, p)), \<lparr>rd_bytes = rest, rd_end = e\<rparr>)"
proof -
  have len: "len \<noteq> 0" using assms(1) by auto
  have "unat (len - 1) = length p"
    using assms(1) len by (simp add: unat_minus_one)
  moreover have "from_be_bytes (to_be_bytes len) = len"
    by (simp add: codec_simps)
  moreover have "read_exact 4 \<lparr>rd_bytes = to_be_bytes len @ t # p @ rest, rd_end = e\<rparr>
      = (Inr (to_be_bytes len), \<lparr>rd_bytes = t # p @ rest, rd_end = e\<rparr>)"
    by (rule read_exact_append) simp
  moreover have "read_exact 1 \<lparr>rd_bytes = t # p @ rest, rd_end = e\<rparr>
      = (Inr [t], \<lparr>rd_bytes = p @ rest, rd_end = e\<rparr>)"
    by (simp add: read_exact_def)
  moreover have "read_exact (length p) \<lparr>rd_bytes = p @ rest, rd_end = e\<rparr>
      = (Inr p, \<lparr>rd_bytes = rest, rd_end = e\<rparr>)"
    by (rule read_exact_append) simp
  ultimately show ?thesis
    using assms(2) len by (auto simp: read_frame_def Let_def)
qed

lemma try_parse_SomeD:
  assumes "try_parse buf = Some (t, s, n0)"
  shows "\<exists>len p rest. buf = to_be_bytes len @ t # p @ rest \<and> unat len = Suc (length p) \<and>
           len \<le> MAX_FRAME \<and> s = 5 \<and> n0 = 5 + length p"
proof -
  let ?len = "from_be_bytes [buf ! 0, buf ! 1, buf ! 2, buf ! 3] :: u32"
  from assms have len5: "5 \<le> length buf" and ok: "?len \<noteq> 0" "?len \<le> MAX_FRAME"
    and tot: "4 + unat ?len \<le> length buf" and res: "t = buf ! 4" "s = 5" "n0 = 4 + unat ?len"
    by (auto simp: try_parse_def Let_def split: if_splits)
  obtain n where n: "unat ?len = Suc n" using ok(1) by (metis not0_implies_Suc unat_eq_zero)
  define p where "p = take n (drop 5 buf)"
  define rest where "rest = drop n (drop 5 buf)"
  have "take 4 buf = to_be_bytes ?len"
    using len5 by (simp add: take4_nth codec_simps)
  moreover have "drop 4 buf = t # drop 5 buf"
    using len5 res(1) Cons_nth_drop_Suc [of 4 buf] by simp
  moreover have "drop 5 buf = p @ rest" by (simp only: p_def rest_def append_take_drop_id)
  ultimately have "buf = to_be_bytes ?len @ t # p @ rest"
    by (metis append_take_drop_id)
  moreover have "length p = n" using tot n by (simp add: p_def)
  ultimately show ?thesis using n ok(2) res by auto
qed

lemma try_parse_append:
  assumes "unat len = Suc (length p)" "len \<le> MAX_FRAME"
  shows "try_parse (to_be_bytes len @ t # p @ rest) = Some (t, 5, 5 + length p)"
proof -
  let ?buf = "to_be_bytes len @ t # p @ rest"
  have "take 4 ?buf = to_be_bytes len" by simp
  then have "[?buf ! 0, ?buf ! 1, ?buf ! 2, ?buf ! 3] = to_be_bytes len"
    using take4_nth [of ?buf] by simp
  moreover have "?buf ! 4 = t" by (simp add: nth_append)
  moreover have "len \<noteq> 0" using assms(1) by auto
  moreover have "from_be_bytes (to_be_bytes len) = len" by (simp add: codec_simps)
  ultimately show ?thesis using assms by (simp add: try_parse_def Let_def)
qed

lemma frame_codes_distinct: "distinct (map snd (frame_types @ late_frame_types))"
  by code_simp

lemma unat_pred: "x \<noteq> 0 \<Longrightarrow> unat x = Suc (unat (x - 1))" for x :: u32
  using unat_gt_0 [of x] by (simp add: unat_minus_one)

lemma read_frame_SomeD:
  assumes "read_frame r = (Inr (Some (t, p)), r')"
  shows "\<exists>len. rd_bytes r = to_be_bytes len @ t # p @ rd_bytes r' \<and> unat len = Suc (length p) \<and>
           len \<le> MAX_FRAME"
proof -
  let ?bs = "rd_bytes r" and ?len = "from_be_bytes (take 4 (rd_bytes r)) :: u32"
  let ?r1 = "r\<lparr>rd_bytes := drop 4 ?bs\<rparr>" and ?r2 = "r\<lparr>rd_bytes := drop 5 ?bs\<rparr>"
  have four: "4 \<le> length ?bs"
  proof (rule ccontr)
    assume "\<not> 4 \<le> length ?bs"
    then have "read_exact 4 r = (Inl (case rd_end r of None \<Rightarrow> UnexpectedEof | Some e \<Rightarrow> e), r\<lparr>rd_bytes := []\<rparr>)"
      by (intro read_exact_short) linarith
    then show False using assms by (simp add: read_frame_def split: if_splits)
  qed
  have r1: "read_exact 4 r = (Inr (take 4 ?bs), ?r1)" using four by (rule read_exact_enough)
  have "?len = 0 \<or> MAX_FRAME < ?len \<Longrightarrow> False"
    using assms by (simp add: read_frame_def r1 Let_def)
  then have len: "?len \<noteq> 0" "?len \<le> MAX_FRAME" by (blast, meson not_less)
  have pos: "unat ?len = Suc (unat (?len - 1))"
    using len(1) by (rule unat_pred)
  have five: "5 \<le> length ?bs"
    by (rule ccontr) (use assms len four in
      \<open>simp add: read_frame_def r1 Let_def not_less [symmetric] read_exact_short\<close>)
  have r2: "read_exact 1 ?r1 = (Inr (take 1 (drop 4 ?bs)), ?r2)"
    using five by (simp add: read_exact_def)
  have t: "t = hd (take 1 (drop 4 ?bs))" and p: "p = take (unat (?len - 1)) (drop 5 ?bs)"
    and plen: "length p = unat (?len - 1)" and r': "rd_bytes r' = drop (unat (?len - 1)) (drop 5 ?bs)"
    using assms len
    by (auto simp: read_frame_def r1 r2 [simplified] Let_def read_exact_def [of "unat _"]
        not_less [symmetric] split: if_splits)
  have "drop 4 ?bs = t # drop 5 ?bs"
    using five t Cons_nth_drop_Suc [of 4 ?bs] by (simp add: hd_drop_conv_nth)
  moreover have "drop 5 ?bs = p @ rd_bytes r'" by (simp only: p r' append_take_drop_id)
  moreover have "take 4 ?bs = to_be_bytes ?len" using four by (simp add: codec_simps)
  ultimately have "?bs = to_be_bytes ?len @ t # p @ rd_bytes r'" by (metis append_take_drop_id)
  then show ?thesis using pos plen len(2) by auto
qed

section \<open>Sequences of frames\<close>

text \<open>A writer of several frames and a reader that takes frames until there are none.\<close>

fun write_frames :: "(u8 \<times> bytes) list \<Rightarrow> writer \<Rightarrow> (io_error + unit) \<times> writer" where
  "write_frames [] w = (Inr (), w)"
| "write_frames ((t, p) # fs) w =
     (case write_frame t p w of
        (Inl e, w) \<Rightarrow> (Inl e, w)
      | (Inr _, w) \<Rightarrow> write_frames fs w)"

fun read_frames :: "nat \<Rightarrow> reader \<Rightarrow> (io_error + (u8 \<times> bytes) list) \<times> reader" where
  "read_frames 0 r = (Inr [], r)"
| "read_frames (Suc n) r =
     (case read_frame r of
        (Inl e, r) \<Rightarrow> (Inl e, r)
      | (Inr None, r) \<Rightarrow> (Inr [], r)
      | (Inr (Some f), r) \<Rightarrow>
          (case read_frames n r of
             (Inl e, r) \<Rightarrow> (Inl e, r)
           | (Inr fs, r) \<Rightarrow> (Inr (f # fs), r)))"

definition frame_bytes :: "u8 \<times> bytes \<Rightarrow> bytes" where
  "frame_bytes f = to_be_bytes ((1 :: u32) + word_of_nat (length (snd f))) @ fst f # snd f"

lemma write_frames_ok:
  "wr_fail w = None \<Longrightarrow>
     write_frames fs w = (Inr (), w\<lparr>wr_out := wr_out w @ concat (map frame_bytes fs)\<rparr>)"
proof (induction fs arbitrary: w)
  case (Cons f fs)
  then show ?case by (cases f) (simp add: write_frame_ok frame_bytes_def)
qed simp

lemma frame_bytes_fit:
  assumes "length (snd f) < unat MAX_FRAME"
  shows "read_frame \<lparr>rd_bytes = frame_bytes f @ rest, rd_end = e\<rparr>
           = (Inr (Some f), \<lparr>rd_bytes = rest, rd_end = e\<rparr>)"
proof -
  let ?len = "(1 :: u32) + word_of_nat (length (snd f))"
  have "unat ?len = Suc (length (snd f))" using assms by (rule frame_len_unat)
  moreover from this have "?len \<le> MAX_FRAME" using assms by (simp add: word_le_nat_alt)
  ultimately show ?thesis
    using read_frame_append [of ?len "snd f" "fst f" rest e] by (simp add: frame_bytes_def)
qed

lemma read_frames_ok:
  assumes "\<forall>f\<in>set fs. length (snd f) < unat MAX_FRAME" "length fs < n"
  shows "read_frames n \<lparr>rd_bytes = concat (map frame_bytes fs), rd_end = None\<rparr>
           = (Inr fs, \<lparr>rd_bytes = [], rd_end = None\<rparr>)"
  using assms
proof (induction fs arbitrary: n)
  case Nil
  then show ?case by (cases n) (auto simp: read_frame_def read_exact_def)
next
  case (Cons f fs)
  then obtain m where "n = Suc m" "length fs < m" by (cases n) auto
  then show ?case using Cons by (simp add: frame_bytes_fit)
qed

section \<open>Properties\<close>

text \<open>
  C9. Frames survive the wire: whatever frames are written one after the other, each with its
  payload shorter than \<^verbatim>\<open>MAX_FRAME\<close>, a reader of the stream gets exactly these frames, in this
  order, and then the clean end.
\<close>

theorem frames_survive_the_wire:
  assumes "\<forall>f\<in>set fs. length (snd f) < unat MAX_FRAME" "length fs < n"
  shows "fst (write_frames fs \<lparr>wr_out = [], wr_fail = None\<rparr>) = Inr () \<and>
    read_frames n
      \<lparr>rd_bytes = wr_out (snd (write_frames fs \<lparr>wr_out = [], wr_fail = None\<rparr>)), rd_end = None\<rparr>
    = (Inr fs, \<lparr>rd_bytes = [], rd_end = None\<rparr>)"
  by (simp add: write_frames_ok read_frames_ok assms)

theorem frames_survive_the_wire_witness:
  "read_frames 3
     \<lparr>rd_bytes = wr_out (snd (write_frames [(STDOUT, [104, 105]), (STDERR, [])]
        \<lparr>wr_out = [], wr_fail = None\<rparr>)), rd_end = None\<rparr>
   = (Inr [(STDOUT, [104, 105]), (STDERR, [])], \<lparr>rd_bytes = [], rd_end = None\<rparr>)"
  using frames_survive_the_wire [of "[(STDOUT, [104, 105]), (STDERR, [])]" 3]
  by (simp add: MAX_FRAME_eq)

text \<open>
  C10. The two readers agree on every input: \<^verbatim>\<open>try_parse\<close> finds a frame in a buffer exactly when
  \<^verbatim>\<open>read_frame\<close> would read one from a stream with these bytes, with the same type, the payload
  between the two offsets it returns, and the second offset where the next frame starts. So an
  incomplete frame and a length out of range are both \<open>None\<close>, although the latter never becomes a
  frame with more data.
\<close>

theorem try_parse_agrees_with_read_frame:
  "try_parse buf = Some (t, start, end) \<longleftrightarrow>
     (\<exists>p r. read_frame \<lparr>rd_bytes = buf, rd_end = e\<rparr> = (Inr (Some (t, p)), r) \<and>
            start = 5 \<and> subslice start end buf = Some p \<and> rd_bytes r = drop end buf)"
  (is "?L \<longleftrightarrow> ?R")
proof
  assume ?L
  from try_parse_SomeD [OF this] obtain len p rest where
    buf: "buf = to_be_bytes len @ t # p @ rest" "unat len = Suc (length p)" "len \<le> MAX_FRAME"
      "start = 5" "end = 5 + length p" by blast
  then have "subslice start end buf = Some p" "drop end buf = rest"
    by (simp_all add: subslice_def)
  then show ?R using read_frame_append [OF buf(2,3)] buf(1,4) by auto
next
  assume ?R
  then obtain p r where r: "read_frame \<lparr>rd_bytes = buf, rd_end = e\<rparr> = (Inr (Some (t, p)), r)"
      "start = 5" "subslice start end buf = Some p" by blast
  from read_frame_SomeD [OF r(1)] obtain len where
    buf: "buf = to_be_bytes len @ t # p @ rd_bytes r" "unat len = Suc (length p)" "len \<le> MAX_FRAME"
    by auto
  from r(2,3) have "end = 5 + length p"
    by (auto simp: subslice_def split: if_splits)
  with try_parse_append [OF buf(2,3), of t "rd_bytes r"] buf(1) r(2) show ?L by simp
qed

text \<open>
  C6. A frame that is too long is refused by its reader, not by its writer: \<^verbatim>\<open>write_frame\<close> sends
  a payload of \<^verbatim>\<open>MAX_FRAME\<close> bytes or more without an error, and then \<^verbatim>\<open>read_frame\<close> fails
  with invalid data before it reads the payload.
\<close>

theorem oversized_frame_refused_by_reader:
  assumes "unat MAX_FRAME \<le> length p" "length p < 2 ^ 32 - 1"
  shows "\<exists>out. write_frame t p \<lparr>wr_out = [], wr_fail = None\<rparr>
      = (Inr (), \<lparr>wr_out = out, wr_fail = None\<rparr>) \<and>
    read_frame \<lparr>rd_bytes = out, rd_end = e\<rparr>
      = (Inl InvalidData, \<lparr>rd_bytes = t # p, rd_end = e\<rparr>)"
proof -
  let ?len = "(1 :: u32) + word_of_nat (length p)"
  have "unat ?len = Suc (length p)" using assms(2) by (simp add: unat_word_ariths unat_of_nat)
  then have "\<not> ?len \<le> MAX_FRAME" using assms(1) by (simp add: word_le_nat_alt)
  moreover have "from_be_bytes (to_be_bytes ?len) = ?len" by (simp add: codec_simps)
  ultimately have "read_frame \<lparr>rd_bytes = to_be_bytes ?len @ t # p, rd_end = e\<rparr>
      = (Inl InvalidData, \<lparr>rd_bytes = t # p, rd_end = e\<rparr>)"
    by (simp add: read_frame_def read_exact_append not_le)
  then show ?thesis by (simp add: write_frame_ok)
qed

theorem oversized_frame_refused_by_reader_witness:
  "\<exists>out. write_frame STDOUT (replicate 1048576 0) \<lparr>wr_out = [], wr_fail = None\<rparr>
      = (Inr (), \<lparr>wr_out = out, wr_fail = None\<rparr>) \<and>
    read_frame \<lparr>rd_bytes = out, rd_end = None\<rparr>
      = (Inl InvalidData, \<lparr>rd_bytes = STDOUT # replicate 1048576 0, rd_end = None\<rparr>)"
proof -
  let ?p = "replicate 1048576 (0 :: byte)"
  have "length ?p = 1048576" by (rule length_replicate)
  then have "unat MAX_FRAME \<le> length ?p" "length ?p < 2 ^ 32 - 1"
    by (simp_all only: MAX_FRAME_eq) simp_all
  then show ?thesis by (rule oversized_frame_refused_by_reader)
qed

text \<open>
  C11. A stream that ends inside the four bytes of a length reads like a clean end: \<^verbatim>\<open>read_frame\<close>
  returns no frame and no error, whether the last frame was cut short there or the stream is over.
\<close>

theorem cut_length_reads_as_end:
  assumes "length bs < 4"
  shows "fst (read_frame \<lparr>rd_bytes = bs, rd_end = None\<rparr>) = Inr None"
  using assms by (simp add: read_frame_def read_exact_def)

theorem cut_length_reads_as_end_witness:
  "fst (read_frame \<lparr>rd_bytes = take 3 (frame_bytes (STDOUT, [104])), rd_end = None\<rparr>) = Inr None"
  by (rule cut_length_reads_as_end) simp

end
