(* ===== verification/Session_Ring.thy ===== *)
theory Session_Ring
  imports Proto_Frame
begin

text \<open>
  The output of an exec session, \<^verbatim>\<open>crates/shuru-guest/src/sessions/ring.rs\<close>: the newest bytes
  of stdout and stderr as one sequence with the stream of each run kept apart, the bounds that
  drop the oldest output, and the replay of a part of it as frames.

  Offsets and sizes are natural numbers: an offset counts the bytes of one session, which stay
  far below \<open>2 ^ 64\<close>. A subtraction that would go below zero and an index out of range are
  panics, \<open>None\<close>.
\<close>

definition BUFFER :: nat where
  "BUFFER = 2 ^ 20"

definition MAX_RUNS :: nat where
  "MAX_RUNS = 16 * 1024"

record ring =
  rg_bytes :: bytes
  rg_runs :: "(u8 \<times> nat) list"
  rg_start :: nat
  rg_end :: nat

definition ring_new :: ring where
  "ring_new = \<lparr>rg_bytes = [], rg_runs = [], rg_start = 0, rg_end = 0\<rparr>"

section \<open>Dropping and pushing\<close>

fun drop_runs :: "nat \<Rightarrow> (u8 \<times> nat) list \<Rightarrow> (u8 \<times> nat) list" where
  "drop_runs left [] = []"
| "drop_runs left ((s, len) # runs) =
     (if left = 0 then (s, len) # runs
      else if len \<le> left then drop_runs (left - len) runs
      else (s, len - left) # runs)"

definition drop_front :: "nat \<Rightarrow> ring \<Rightarrow> ring option" where
  "drop_front n r =
     (if length (rg_bytes r) < n then None
      else Some (r\<lparr>rg_bytes := drop n (rg_bytes r),
                   rg_start := rg_start r + n,
                   rg_runs := drop_runs n (rg_runs r)\<rparr>))"

definition append_run :: "u8 \<Rightarrow> nat \<Rightarrow> (u8 \<times> nat) list \<Rightarrow> (u8 \<times> nat) list" where
  "append_run stream n runs =
     (if runs \<noteq> [] \<and> fst (last runs) = stream
      then butlast runs @ [(stream, snd (last runs) + n)]
      else runs @ [(stream, n)])"

text \<open>
  The loop that bounds the number of runs. It ends because the oldest run is not empty; the
  definition does not say so, and a run of length zero would make it spin.
\<close>

partial_function (option) trim_runs :: "ring \<Rightarrow> ring option" where
  "trim_runs r =
     (if MAX_RUNS < length (rg_runs r)
      then Option.bind (drop_front (snd (rg_runs r ! 0)) r) trim_runs
      else Some r)"

text \<open>The first half of \<^verbatim>\<open>push\<close>: the bytes and their run are appended.\<close>

definition extend_ring :: "u8 \<Rightarrow> bytes \<Rightarrow> ring \<Rightarrow> ring" where
  "extend_ring stream data r =
     r\<lparr>rg_bytes := rg_bytes r @ data,
       rg_end := rg_end r + length data,
       rg_runs := append_run stream (length data) (rg_runs r)\<rparr>"

definition ring_push :: "u8 \<Rightarrow> bytes \<Rightarrow> ring \<Rightarrow> ring option" where
  "ring_push stream data r =
     (if data = [] then Some r
      else
        let r = extend_ring stream data r;
            over = (rg_end r - rg_start r) - BUFFER
        in Option.bind (drop_front over r) trim_runs)"

text \<open>How many bytes of \<open>stream\<close> fit without dropping any at or after \<open>keep\<close>.\<close>

definition room :: "u8 \<Rightarrow> nat \<Rightarrow> ring \<Rightarrow> nat" where
  "room stream keep r =
     (let room = (keep + BUFFER) - rg_end r;
          new_run = (rg_runs r = [] \<or> fst (last (rg_runs r)) \<noteq> stream)
      in if new_run \<and> MAX_RUNS \<le> length (rg_runs r) \<and>
            keep < rg_start r + snd (rg_runs r ! 0)
         then 0 else room)"

section \<open>Replaying output as frames\<close>

text \<open>
  A \<^verbatim>\<open>VecDeque\<close> keeps its bytes in two slices; where the second starts is up to the library, so the
  place is an argument.
\<close>

definition copy_slices :: "bytes \<Rightarrow> bytes \<Rightarrow> nat \<Rightarrow> nat \<Rightarrow> bytes option" where
  "copy_slices a b from len =
     (let stop = from + len
      in Option.bind
           (if from < length a then subslice from (min stop (length a)) a else Some [])
           (\<lambda>out1. Option.bind
              (if length a < stop then subslice (from - length a) (stop - length a) b else Some [])
              (\<lambda>out2. Some (out1 @ out2))))"

definition ring_copy :: "nat \<Rightarrow> bytes \<Rightarrow> nat \<Rightarrow> nat \<Rightarrow> bytes option" where
  "ring_copy wrap_at xs from len = copy_slices (take wrap_at xs) (drop wrap_at xs) from len"

definition FRAME_ROOM :: nat where
  "FRAME_ROOM = unat MAX_FRAME - 1"

text \<open>The inner loop of \<^verbatim>\<open>frames\<close>: the part of one run from \<open>at\<close> on, \<open>left\<close> bytes at most.\<close>

function run_frames ::
  "nat \<Rightarrow> ring \<Rightarrow> u8 \<Rightarrow> nat \<Rightarrow> nat \<Rightarrow> nat \<Rightarrow> nat \<Rightarrow> bytes \<Rightarrow> (nat \<times> nat \<times> bytes) option" where
  "run_frames wrap_at r stream len run_start at left out =
     (if at < run_start + len \<and> 0 < left
      then
        if at < run_start \<or> run_start < rg_start r then None
        else
          let skip = at - run_start;
              n = min (min (len - skip) left) FRAME_ROOM
          in Option.bind (ring_copy wrap_at (rg_bytes r) ((run_start - rg_start r) + skip) n)
               (\<lambda>data. run_frames wrap_at r stream len run_start (at + n) (left - n)
                  (out @ to_be_bytes (word_of_nat n + 1 :: u32) @ [stream] @ data))
      else Some (at, left, out))"
  by pat_completeness auto
termination
  by (relation "measure (\<lambda>(wrap_at, r, stream, len, run_start, at, left, out). left)")
    (auto simp: FRAME_ROOM_def MAX_FRAME_eq)

declare run_frames.simps [simp del]

fun runs_frames ::
  "nat \<Rightarrow> ring \<Rightarrow> (u8 \<times> nat) list \<Rightarrow> nat \<Rightarrow> nat \<Rightarrow> nat \<Rightarrow> bytes \<Rightarrow> (nat \<times> bytes) option" where
  "runs_frames wrap_at r [] run_start at left out = Some (at, out)"
| "runs_frames wrap_at r ((stream, len) # runs) run_start at left out =
     (if left = 0 then Some (at, out)
      else Option.bind (run_frames wrap_at r stream len run_start at left out)
             (\<lambda>(at, left, out). runs_frames wrap_at r runs (run_start + len) at left out))"

definition frames :: "nat \<Rightarrow> ring \<Rightarrow> nat \<Rightarrow> nat \<Rightarrow> bytes \<Rightarrow> (nat \<times> bytes) option" where
  "frames wrap_at r from max_bytes out =
     runs_frames wrap_at r (rg_runs r) (rg_start r) (max from (rg_start r)) max_bytes out"

section \<open>Well-formed rings and what they hold\<close>

definition run_streams :: "(u8 \<times> nat) list \<Rightarrow> u8 list" where
  "run_streams runs = concat (map (\<lambda>(s, n). replicate n s) runs)"

text \<open>The bytes of a ring, each with its stream.\<close>

definition contents :: "ring \<Rightarrow> (u8 \<times> byte) list" where
  "contents r = zip (run_streams (rg_runs r)) (rg_bytes r)"

definition runs_ok :: "ring \<Rightarrow> bool" where
  "runs_ok r \<longleftrightarrow>
     rg_start r + length (rg_bytes r) = rg_end r \<and>
     length (run_streams (rg_runs r)) = length (rg_bytes r) \<and>
     (\<forall>(s, n) \<in> set (rg_runs r). 0 < n) \<and> distinct_adj (map fst (rg_runs r))"

definition ring_inv :: "ring \<Rightarrow> bool" where
  "ring_inv r \<longleftrightarrow>
     runs_ok r \<and> length (rg_bytes r) \<le> BUFFER \<and> length (rg_runs r) \<le> MAX_RUNS"

lemma run_streams_simps [simp]:
  "run_streams [] = []"
  "run_streams ((s, n) # runs) = replicate n s @ run_streams runs"
  "run_streams (xs @ ys) = run_streams xs @ run_streams ys"
  by (auto simp: run_streams_def)

lemma run_streams_drop: "run_streams (drop_runs n runs) = drop n (run_streams runs)"
  by (induction n runs rule: drop_runs.induct) auto

lemma drop_runs_pos:
  "\<forall>(s, n) \<in> set runs. 0 < n \<Longrightarrow> \<forall>(s, n) \<in> set (drop_runs k runs). 0 < n"
  by (induction k runs rule: drop_runs.induct) auto

lemma drop_runs_adj: "distinct_adj (map fst runs) \<Longrightarrow> distinct_adj (map fst (drop_runs k runs))"
  by (induction k runs rule: drop_runs.induct) (auto simp: distinct_adj_Cons)

lemma append_run_adj: "distinct_adj (map fst runs) \<Longrightarrow> distinct_adj (map fst (append_run s n runs))"
  by (cases runs rule: rev_cases) (auto simp: append_run_def distinct_adj_append_iff last_map)

lemma length_drop_runs: "length (drop_runs k runs) \<le> length runs"
  by (induction k runs rule: drop_runs.induct) auto

lemma run_streams_append_run:
  "run_streams (append_run s n runs) = run_streams runs @ replicate n s"
proof (cases "runs \<noteq> [] \<and> fst (last runs) = s")
  case True
  then obtain runs' m where "runs = runs' @ [(s, m)]"
    by (metis append_butlast_last_id prod.collapse)
  then show ?thesis by (simp add: append_run_def replicate_add)
next
  case False
  then show ?thesis by (auto simp: append_run_def)
qed

lemma append_run_pos:
  "\<forall>(s, n) \<in> set runs. 0 < n \<Longrightarrow> 0 < k \<Longrightarrow> \<forall>(s, n) \<in> set (append_run s' k runs). 0 < n"
  by (auto simp: append_run_def dest: in_set_butlastD)

lemma length_append_run: "length (append_run s n runs) \<le> Suc (length runs)"
  by (auto simp: append_run_def)

lemma drop_front_ok:
  assumes "runs_ok r" "n \<le> length (rg_bytes r)"
  shows "\<exists>r'. drop_front n r = Some r' \<and> runs_ok r' \<and> rg_end r' = rg_end r \<and>
           rg_start r' = rg_start r + n \<and> contents r' = drop n (contents r) \<and>
           rg_runs r' = drop_runs n (rg_runs r) \<and> rg_bytes r' = drop n (rg_bytes r)"
  using assms drop_runs_pos [of "rg_runs r" n] drop_runs_adj [of "rg_runs r" n]
  by (auto simp: drop_front_def runs_ok_def contents_def run_streams_drop drop_zip)

text \<open>Dropping the oldest run of a well-formed ring leaves the other runs.\<close>

lemma drop_runs_zero [simp]: "drop_runs 0 runs = runs"
  by (cases runs) auto

lemma runs_ok_hd_le:
  "runs_ok r \<Longrightarrow> rg_runs r = (s, n) # runs \<Longrightarrow> 0 < n \<and> n \<le> length (rg_bytes r)"
  by (auto simp: runs_ok_def dest: arg_cong [where f = length])

lemma trim_runs_ok:
  assumes "runs_ok r"
  shows "\<exists>r' k. trim_runs r = Some r' \<and> runs_ok r' \<and> length (rg_runs r') \<le> MAX_RUNS \<and>
           rg_end r' = rg_end r \<and> rg_start r' = rg_start r + k \<and> contents r' = drop k (contents r)
           \<and> k = sum_list (map snd (take (length (rg_runs r) - MAX_RUNS) (rg_runs r)))"
  using assms
proof (induction "length (rg_runs r)" arbitrary: r)
  case 0
  then show ?case by (subst trim_runs.simps) simp
next
  case (Suc m)
  show ?case
  proof (cases "MAX_RUNS < length (rg_runs r)")
    case False
    then show ?thesis using Suc.prems by (subst trim_runs.simps) simp
  next
    case True
    from Suc.hyps(2) obtain s n runs where runs: "rg_runs r = (s, n) # runs"
      by (cases "rg_runs r") auto
    with Suc.prems have n: "0 < n" "n \<le> length (rg_bytes r)" by (auto dest: runs_ok_hd_le)
    obtain r1 where r1: "drop_front n r = Some r1" "runs_ok r1" "rg_end r1 = rg_end r"
      "rg_start r1 = rg_start r + n" "contents r1 = drop n (contents r)" "rg_runs r1 = runs"
      using drop_front_ok [OF Suc.prems n(2)] runs n(1) by auto
    have "m = length (rg_runs r1)" using Suc.hyps(2) runs r1(6) by simp
    from Suc.hyps(1) [OF this r1(2)] obtain r' k where r': "trim_runs r1 = Some r'" "runs_ok r'"
      "length (rg_runs r') \<le> MAX_RUNS" "rg_end r' = rg_end r1" "rg_start r' = rg_start r1 + k"
      "contents r' = drop k (contents r1)"
      "k = sum_list (map snd (take (length (rg_runs r1) - MAX_RUNS) (rg_runs r1)))"
      by blast
    have "trim_runs r = Some r'"
      using True r1(1) r'(1) runs by (subst trim_runs.simps) simp
    moreover have "n + k = sum_list (map snd (take (length (rg_runs r) - MAX_RUNS) (rg_runs r)))"
      using True runs r1(6) r'(7) by (simp add: Suc_diff_le take_Cons')
    ultimately show ?thesis using r' r1 by (intro exI [of _ r'] exI [of _ "n + k"]) (auto simp: add.commute)
  qed
qed

text \<open>
  When dropping leaves as many runs as before, it stayed inside the oldest one.
\<close>

lemma drop_runs_same_length:
  assumes "length (drop_runs k runs) = length runs" "runs \<noteq> []" "\<forall>(s, n) \<in> set runs. 0 < n"
  shows "k + snd (drop_runs k runs ! 0) = snd (runs ! 0)"
proof -
  obtain s n rest where runs: "runs = (s, n) # rest" using assms(2) by (cases runs) auto
  have "length (drop_runs (k - n) rest) \<le> length rest" by (rule length_drop_runs)
  with assms runs show ?thesis by (auto split: if_splits)
qed

lemma nth0_append_run:
  "runs \<noteq> [] \<Longrightarrow> 1 < length (append_run s n runs) \<Longrightarrow> append_run s n runs ! 0 = runs ! 0"
  by (cases runs rule: rev_cases) (auto simp: append_run_def nth_append)

lemma MAX_RUNS_pos: "0 < MAX_RUNS"
  by (simp add: MAX_RUNS_def)

lemma extend_ok:
  assumes "runs_ok r" "d \<noteq> []"
  shows "runs_ok (extend_ring s d r)" "contents (extend_ring s d r) = contents r @ map (Pair s) d"
  using assms append_run_pos [of "rg_runs r" "length d" s] append_run_adj [of "rg_runs r" s "length d"]
  by (auto simp: runs_ok_def extend_ring_def run_streams_append_run contents_def zip_replicate1)

text \<open>
  One push adds one run at most, so only the oldest can be dropped by the bound on runs, and
  together with what was over the buffer that is the whole of it.
\<close>

lemma trimmed_by_push:
  assumes "runs_ok r" "d \<noteq> []" "length (rg_runs r) \<le> MAX_RUNS"
    and runs: "runs = drop_runs over (rg_runs (extend_ring s d r))"
  defines "k \<equiv> sum_list (map snd (take (length runs - MAX_RUNS) runs))"
  shows "k = 0 \<or> over + k = snd (rg_runs r ! 0) \<and> MAX_RUNS = length (rg_runs r) \<and>
            (rg_runs r = [] \<or> fst (last (rg_runs r)) \<noteq> s)"
proof (cases "length runs \<le> MAX_RUNS")
  case True
  then show ?thesis by (simp add: k_def)
next
  case False
  let ?r1 = "extend_ring s d r"
  have "length runs \<le> length (rg_runs ?r1)" by (simp add: runs length_drop_runs)
  moreover have "length (rg_runs ?r1) \<le> Suc (length (rg_runs r))"
    by (simp add: extend_ring_def length_append_run)
  ultimately have len: "length runs = Suc MAX_RUNS" "length (rg_runs ?r1) = Suc MAX_RUNS"
    "length (rg_runs r) = MAX_RUNS" using False assms(3) by simp_all
  then have new: "rg_runs r = [] \<or> fst (last (rg_runs r)) \<noteq> s"
    using MAX_RUNS_pos by (auto simp: extend_ring_def append_run_def split: if_splits)
  have "runs \<noteq> []" "rg_runs r \<noteq> []" "rg_runs ?r1 \<noteq> []" using len MAX_RUNS_pos by auto
  moreover from this have "k = snd (runs ! 0)" using len by (cases runs) (auto simp: k_def)
  moreover have "rg_runs ?r1 ! 0 = rg_runs r ! 0"
    using len MAX_RUNS_pos calculation(2) by (simp add: extend_ring_def nth0_append_run)
  ultimately have "over + k = snd (rg_runs r ! 0)"
    using drop_runs_same_length [of over "rg_runs ?r1"] len extend_ok(1) [OF assms(1,2)] runs
    by (simp add: runs_ok_def)
  then show ?thesis using len new by simp
qed

text \<open>
  A push on a well-formed ring returns, appends its bytes with their stream, and drops \<open>k\<close> of
  the oldest ones: what is over the buffer, or the whole oldest run when the runs are full.
\<close>

lemma ring_push_ok:
  assumes inv: "ring_inv r"
  shows "\<exists>r' k. ring_push s d r = Some r' \<and> ring_inv r' \<and>
           rg_end r' = rg_end r + length d \<and> rg_start r' = rg_start r + k \<and>
           contents r' = drop k (contents r @ map (Pair s) d) \<and>
           (k = (rg_end r + length d - rg_start r) - BUFFER \<or>
            k = snd (rg_runs r ! 0) \<and> d \<noteq> [] \<and> MAX_RUNS = length (rg_runs r) \<and>
            (rg_runs r = [] \<or> fst (last (rg_runs r)) \<noteq> s))"
proof (cases "d = []")
  case True
  then show ?thesis
    using inv by (intro exI [of _ r] exI [of _ 0]) (auto simp: ring_push_def ring_inv_def runs_ok_def)
next
  case False
  let ?r1 = "extend_ring s d r"
  define over where "over = (rg_end ?r1 - rg_start ?r1) - BUFFER"
  from inv have ok: "runs_ok r" and lr: "length (rg_runs r) \<le> MAX_RUNS" by (auto simp: ring_inv_def)
  note ok1 = extend_ok [OF ok False, of s]
  have "over \<le> length (rg_bytes ?r1)" using ok1(1) by (auto simp: over_def runs_ok_def)
  from drop_front_ok [OF ok1(1) this] obtain r2 where r2: "drop_front over ?r1 = Some r2"
    "runs_ok r2" "rg_end r2 = rg_end ?r1" "rg_start r2 = rg_start ?r1 + over"
    "contents r2 = drop over (contents ?r1)" "rg_runs r2 = drop_runs over (rg_runs ?r1)" by blast
  from trim_runs_ok [OF r2(2)] obtain r' k where r': "trim_runs r2 = Some r'" "runs_ok r'"
    "length (rg_runs r') \<le> MAX_RUNS" "rg_end r' = rg_end r2" "rg_start r' = rg_start r2 + k"
    "contents r' = drop k (contents r2)"
    "k = sum_list (map snd (take (length (rg_runs r2) - MAX_RUNS) (rg_runs r2)))" by blast
  have "ring_push s d r = Some r'"
    using False r2(1) r'(1) by (simp add: ring_push_def over_def Let_def)
  moreover have "ring_inv r'"
    using r'(2,3,4,5) r2(2,3,4) ok1(1) by (auto simp: ring_inv_def runs_ok_def over_def)
  moreover have "rg_end r' = rg_end r + length d" "rg_start r' = rg_start r + (over + k)"
    "over = (rg_end r + length d - rg_start r) - BUFFER"
    using r'(4,5) r2(3,4) by (simp_all add: extend_ring_def over_def)
  moreover have "contents r' = drop (over + k) (contents r @ map (Pair s) d)"
    by (simp only: r'(6) r2(5) ok1(2) drop_drop add.commute)
  moreover note trimmed_by_push [OF ok False lr r2(6), folded r'(7)]
  ultimately show ?thesis using False by (metis add.right_neutral)
qed

text \<open>
  The bounds as a property of labelled bytes alone: no more than \<open>BUFFER\<close> of them, in no more than
  \<open>MAX_RUNS\<close> maximal stretches of one stream. A push drops no more than that takes.
\<close>

definition within_bounds :: "('s \<times> 'd) list \<Rightarrow> bool" where
  "within_bounds xs \<longleftrightarrow> length xs \<le> BUFFER \<and> length (remdups_adj (map fst xs)) \<le> MAX_RUNS"

lemma remdups_adj_replicate_append:
  "0 < n \<Longrightarrow> ys = [] \<or> hd ys \<noteq> s \<Longrightarrow> remdups_adj (replicate n s @ ys) = s # remdups_adj ys"
proof (induction n)
  case (Suc n)
  then show ?case by (cases n; cases ys) auto
qed simp

lemma remdups_adj_run_streams:
  assumes "\<forall>(s, n) \<in> set runs. 0 < n" "distinct_adj (map fst runs)"
  shows "remdups_adj (run_streams runs) = map fst runs"
  using assms
proof (induction runs)
  case (Cons run runs)
  obtain s n where run: "run = (s, n)" by (cases run)
  have "run_streams runs = [] \<or> hd (run_streams runs) \<noteq> s"
    using Cons.prems by (cases runs) (auto simp: run distinct_adj_Cons)
  then show ?case using Cons by (auto simp: run distinct_adj_Cons remdups_adj_replicate_append)
qed simp

lemma length_drop_runs_le:
  "\<forall>(s, n) \<in> set runs. 0 < n \<Longrightarrow>
   length (drop_runs i runs) \<le> m \<longleftrightarrow> sum_list (map snd (take (length runs - m) runs)) \<le> i"
proof (induction i runs rule: drop_runs.induct)
  case (2 i s n runs)
  show ?case
  proof (cases "length runs < m")
    case True
    then show ?thesis using length_drop_runs [of i "(s, n) # runs"] by simp
  next
    case False
    then have "Suc (length runs) - m = Suc (length runs - m)" by simp
    then show ?thesis using 2 False by auto
  qed
qed simp

lemma drop_runs_add: "drop_runs (i + j) runs = drop_runs j (drop_runs i runs)"
proof (induction i runs arbitrary: j rule: drop_runs.induct)
  case (2 i s n runs)
  show ?case
  proof (cases "n \<le> i")
    case True
    then have "i + j - n = i - n + j" by simp
    then show ?thesis using 2 True by simp
  qed (cases j; auto simp: add.commute)
qed simp

lemma within_bounds_drop:
  assumes "runs_ok r" "j \<le> length (contents r)"
  shows "within_bounds (drop j (contents r)) \<longleftrightarrow>
    length (contents r) - j \<le> BUFFER \<and> length (drop_runs j (rg_runs r)) \<le> MAX_RUNS"
proof -
  have "map fst (drop j (contents r)) = run_streams (drop_runs j (rg_runs r))"
    using assms(1) by (simp add: contents_def run_streams_drop runs_ok_def flip: drop_map)
  moreover have "remdups_adj (run_streams (drop_runs j (rg_runs r))) = map fst (drop_runs j (rg_runs r))"
    using assms(1) by (intro remdups_adj_run_streams drop_runs_pos drop_runs_adj) (auto simp: runs_ok_def)
  ultimately show ?thesis by (simp add: within_bounds_def)
qed

lemma ring_push_least:
  assumes inv: "ring_inv r" and push: "ring_push s d r = Some r'"
    and j: "j \<le> length (contents r @ map (Pair s) d)"
  shows "within_bounds (drop j (contents r @ map (Pair s) d)) \<longleftrightarrow> rg_start r' - rg_start r \<le> j"
proof (cases "d = []")
  case True
  then show ?thesis
    using inv push j within_bounds_drop [of r j] length_drop_runs [of j "rg_runs r"]
    by (auto simp: ring_push_def ring_inv_def contents_def runs_ok_def)
next
  case False
  let ?r1 = "extend_ring s d r"
  define over where "over = (rg_end ?r1 - rg_start ?r1) - BUFFER"
  have "runs_ok r" using inv by (simp add: ring_inv_def)
  note ok1 = extend_ok [OF this False, of s]
  have len: "length (contents ?r1) = rg_end ?r1 - rg_start ?r1" "over \<le> length (rg_bytes ?r1)"
    using ok1(1) by (auto simp: over_def runs_ok_def contents_def)
  from drop_front_ok [OF ok1(1) len(2)] obtain r2 where r2: "drop_front over ?r1 = Some r2"
    "runs_ok r2" "rg_start r2 = rg_start ?r1 + over" "rg_runs r2 = drop_runs over (rg_runs ?r1)" by blast
  define k where "k = sum_list (map snd (take (length (rg_runs r2) - MAX_RUNS) (rg_runs r2)))"
  have "trim_runs r2 = Some r'" using push False r2(1) by (simp add: ring_push_def over_def Let_def)
  then have start: "rg_start r' - rg_start r = over + k"
    using trim_runs_ok [OF r2(2)] r2(3) by (auto simp: k_def extend_ring_def)
  have "length (drop_runs j (rg_runs ?r1)) \<le> MAX_RUNS \<longleftrightarrow> over + k \<le> j" if "over \<le> j"
  proof -
    have "drop_runs j (rg_runs ?r1) = drop_runs (j - over) (rg_runs r2)"
      using that drop_runs_add [of over "j - over" "rg_runs ?r1"] r2(4) by simp
    moreover have "\<forall>(s, n) \<in> set (rg_runs r2). 0 < n" using r2(2) by (simp add: runs_ok_def)
    ultimately show ?thesis
      using length_drop_runs_le [of "rg_runs r2" "j - over" MAX_RUNS] that by (auto simp: k_def)
  qed
  moreover have "length (contents ?r1) - j \<le> BUFFER \<longleftrightarrow> over \<le> j" using len(1) by (auto simp: over_def)
  ultimately show ?thesis
    using within_bounds_drop [OF ok1(1), of j] j ok1(2) start by auto
qed

lemma length_remdups_adj_append: "length (remdups_adj xs) \<le> length (remdups_adj (xs @ ys))"
proof (induction xs rule: remdups_adj.induct)
  case (2 x)
  show ?case by (simp add: remdups_adj_Cons split: list.splits)
qed simp_all

lemma within_bounds_prefix: "within_bounds (xs @ ys) \<Longrightarrow> within_bounds xs"
  using length_remdups_adj_append [of "map fst xs" "map fst ys"] by (auto simp: within_bounds_def)

lemma ring_inv_new: "ring_inv ring_new"
  by (simp add: ring_inv_def ring_new_def runs_ok_def)

section \<open>The contract of an output log\<close>

text \<open>
  What the session loop relies on: a log of labelled bytes that can always be pushed to, numbers
  its bytes from the start of the session, and forgets only from the front, no more than it must to
  keep what it holds within its bounds.
\<close>

fun push_all :: "('s \<Rightarrow> 'd list \<Rightarrow> 'r \<Rightarrow> 'r option) \<Rightarrow> ('s \<times> 'd list) list \<Rightarrow> 'r \<Rightarrow> 'r option" where
  "push_all push [] r = Some r"
| "push_all push ((s, d) # ps) r = Option.bind (push s d r) (push_all push ps)"

definition labelled :: "('s \<times> 'd list) list \<Rightarrow> ('s \<times> 'd) list" where
  "labelled ps = concat (map (\<lambda>(s, d). map (Pair s) d) ps)"

lemma labelled_simps [simp]:
  "labelled [] = []"
  "labelled ((s, d) # ps) = map (Pair s) d @ labelled ps"
  "labelled (ps @ qs) = labelled ps @ labelled qs"
  by (auto simp: labelled_def)

locale output_log =
  fixes push :: "'s \<Rightarrow> 'd list \<Rightarrow> 'r \<Rightarrow> 'r option"
    and inv :: "'r \<Rightarrow> bool"
    and first_offset :: "'r \<Rightarrow> nat"
    and next_offset :: "'r \<Rightarrow> nat"
    and held :: "'r \<Rightarrow> ('s \<times> 'd) list"
    and fits :: "('s \<times> 'd) list \<Rightarrow> bool"
  assumes push_returns: "inv r \<Longrightarrow> \<exists>r'. push s d r = Some r' \<and> inv r'"
    and push_next: "inv r \<Longrightarrow> push s d r = Some r' \<Longrightarrow> next_offset r' = next_offset r + length d"
    and push_first: "inv r \<Longrightarrow> push s d r = Some r' \<Longrightarrow> first_offset r \<le> first_offset r'"
    and push_held: "inv r \<Longrightarrow> push s d r = Some r' \<Longrightarrow>
      held r' = drop (first_offset r' - first_offset r) (held r @ map (Pair s) d)"
    and held_extent: "inv r \<Longrightarrow> first_offset r + length (held r) = next_offset r"
    and push_least: "inv r \<Longrightarrow> push s d r = Some r' \<Longrightarrow> j \<le> length (held r @ map (Pair s) d) \<Longrightarrow>
      fits (drop j (held r @ map (Pair s) d)) \<longleftrightarrow> first_offset r' - first_offset r \<le> j"
    and fits_prefix: "fits (xs @ ys) \<Longrightarrow> fits xs"
begin

text \<open>The first byte held is the first one from which on everything pushed fits.\<close>

definition newest :: "('s \<times> 'd) list \<Rightarrow> 'r \<Rightarrow> bool" where
  "newest log r \<longleftrightarrow> first_offset r \<le> length log \<and> held r = drop (first_offset r) log \<and>
     (\<forall>j \<le> length log. fits (drop j log) \<longleftrightarrow> first_offset r \<le> j)"

lemma push_newest:
  assumes "inv r" "newest log r" "push s d r = Some r1" "inv r1"
  shows "newest (log @ map (Pair s) d) r1"
proof -
  let ?log = "log @ map (Pair s) d"
  note f = push_first [OF assms(1,3)]
  have old: "held r @ map (Pair s) d = drop (first_offset r) ?log"
    using assms(2) by (simp add: newest_def)
  have "held r1 = drop (first_offset r1 - first_offset r) (drop (first_offset r) ?log)"
    using push_held [OF assms(1,3)] old by simp
  then have held1: "held r1 = drop (first_offset r1) ?log"
    using f by (simp only: drop_drop le_add_diff_inverse2)
  have "first_offset r1 + length (held r1) = first_offset r + length (held r) + length d"
    using held_extent [OF assms(4)] push_next [OF assms(1,3)] held_extent [OF assms(1)] by simp
  with assms(2) have "first_offset r1 \<le> length ?log" by (simp add: newest_def)
  moreover have "fits (drop j ?log) \<longleftrightarrow> first_offset r1 \<le> j" if "j \<le> length ?log" for j
  proof (cases "j < first_offset r")
    case True
    then have "\<not> fits (drop j log)" "drop j ?log = drop j log @ map (Pair s) d"
      using assms(2) by (simp_all add: newest_def not_le)
    then have "\<not> fits (drop j ?log)" using fits_prefix by metis
    then show ?thesis using True f by simp
  next
    case False
    then have "drop j ?log = drop (j - first_offset r) (held r @ map (Pair s) d)"
      unfolding old drop_drop by simp
    moreover have "j - first_offset r \<le> length (held r @ map (Pair s) d)" using that unfolding old by simp
    ultimately have "fits (drop j ?log) \<longleftrightarrow> first_offset r1 - first_offset r \<le> j - first_offset r"
      using push_least [OF assms(1,3)] by presburger
    then show ?thesis using False f by linarith
  qed
  ultimately show ?thesis using held1 by (simp add: newest_def)
qed

lemma push_all_newest:
  assumes "inv r" "newest log r"
  shows "\<exists>r'. push_all push ps r = Some r' \<and> inv r' \<and> newest (log @ labelled ps) r' \<and>
           next_offset r' = length (log @ labelled ps)"
  using assms
proof (induction ps arbitrary: r log)
  case Nil
  then show ?case using held_extent [of r] by (auto simp: newest_def)
next
  case (Cons p ps)
  obtain s d where p: "p = (s, d)" by (cases p)
  obtain r1 where r1: "push s d r = Some r1" "inv r1" using push_returns [OF Cons.prems(1)] by blast
  from Cons.IH [OF r1(2) push_newest [OF Cons.prems r1]] show ?case using p r1(1) by simp
qed

end

interpretation session_log: output_log ring_push ring_inv rg_start rg_end contents within_bounds
proof
  fix r r' s d
  assume inv: "ring_inv r"
  from ring_push_ok [OF inv] show "\<exists>r'. ring_push s d r = Some r' \<and> ring_inv r'" by blast
  show "rg_start r + length (contents r) = rg_end r"
    using inv by (auto simp: ring_inv_def runs_ok_def contents_def)
  assume "ring_push s d r = Some r'"
  with ring_push_ok [OF inv, of s d] obtain k where "rg_end r' = rg_end r + length d"
    "rg_start r' = rg_start r + k" "contents r' = drop k (contents r @ map (Pair s) d)" by auto
  then show "rg_end r' = rg_end r + length d" "rg_start r \<le> rg_start r'"
    "contents r' = drop (rg_start r' - rg_start r) (contents r @ map (Pair s) d)" by auto
qed (erule (2) ring_push_least, erule within_bounds_prefix)

lemma session_output:
  obtains r where "push_all ring_push ps ring_new = Some r" "ring_inv r" "rg_end r = length (labelled ps)"
    "rg_start r \<le> rg_end r" "contents r = drop (rg_start r) (labelled ps)"
    "\<forall>j \<le> length (labelled ps). within_bounds (drop j (labelled ps)) \<longleftrightarrow> rg_start r \<le> j"
proof -
  have "session_log.newest [] ring_new"
    by (simp add: session_log.newest_def ring_new_def contents_def within_bounds_def)
  from session_log.push_all_newest [OF ring_inv_new this, of ps] show thesis
    unfolding session_log.newest_def append_Nil by (elim exE conjE) (rule that, assumption+, simp, assumption+)
qed

section \<open>Frames of a replay\<close>

text \<open>A frame of the replay, and the labelled bytes a list of frames carries.\<close>

definition out_frame :: "u8 \<times> bytes \<Rightarrow> bytes" where
  "out_frame f = to_be_bytes (word_of_nat (length (snd f)) + 1 :: u32) @ [fst f] @ snd f"

definition out_frames :: "(u8 \<times> bytes) list \<Rightarrow> bytes" where
  "out_frames fs = concat (map out_frame fs)"

definition frames_fit :: "(u8 \<times> bytes) list \<Rightarrow> bool" where
  "frames_fit fs \<longleftrightarrow> (\<forall>(s, c) \<in> set fs. c \<noteq> [] \<and> length c < unat MAX_FRAME)"

lemma copy_slices_eq:
  assumes "from + len \<le> length (a @ b)"
  shows "copy_slices a b from len = Some (take len (drop from (a @ b)))"
proof -
  consider "from + len \<le> length a" | "length a \<le> from" | "from < length a" "length a < from + len"
    by linarith
  then show ?thesis
  proof cases
    case 1
    then show ?thesis by (cases len) (auto simp: copy_slices_def subslice_def Let_def)
  next
    case 2
    then show ?thesis using assms by (auto simp: copy_slices_def subslice_def Let_def)
  next
    case 3
    then show ?thesis using assms by (auto simp: copy_slices_def subslice_def Let_def add.commute)
  qed
qed

lemma ring_copy_eq:
  "from + len \<le> length xs \<Longrightarrow> ring_copy wrap_at xs from len = Some (take len (drop from xs))"
  using copy_slices_eq [of "from" len "take wrap_at xs" "drop wrap_at xs"] by (simp add: ring_copy_def)

lemma out_frames_simps [simp]:
  "out_frames [] = []" "out_frames (f # fs) = out_frame f @ out_frames fs"
  "out_frames (fs @ gs) = out_frames fs @ out_frames gs"
  by (auto simp: out_frames_def)

lemma frames_fit_simps [simp]:
  "frames_fit []"
  "frames_fit ((s, c) # fs) \<longleftrightarrow> c \<noteq> [] \<and> length c < unat MAX_FRAME \<and> frames_fit fs"
  "frames_fit (fs @ gs) \<longleftrightarrow> frames_fit fs \<and> frames_fit gs"
  by (auto simp: frames_fit_def)

lemma frames_fit_empty: "frames_fit fs \<Longrightarrow> labelled fs = [] \<Longrightarrow> fs = []"
  by (cases fs) (auto simp: frames_fit_def)

lemma FRAME_ROOM_pos: "0 < FRAME_ROOM" "FRAME_ROOM < unat MAX_FRAME"
  by (simp_all add: FRAME_ROOM_def MAX_FRAME_eq)

text \<open>
  One run: the loop returns, at the end of the run or when nothing is left, and its frames carry
  the bytes of the run in between.
\<close>

lemma run_frames_ok:
  assumes "rg_start r \<le> run_start" "run_start \<le> at"
    and "run_start + len \<le> rg_start r + length (rg_bytes r)"
  shows "\<exists>fs n. run_frames wrap_at r stream len run_start at left out
             = Some (at + n, left - n, out @ out_frames fs) \<and>
           n = min left ((run_start + len) - at) \<and> frames_fit fs \<and>
           labelled fs = map (Pair stream) (take n (drop (at - rg_start r) (rg_bytes r)))"
  using assms
proof (induction wrap_at r stream len run_start at left out rule: run_frames.induct)
  case (1 wrap_at r stream len run_start at left out)
  show ?case
  proof (cases "at < run_start + len \<and> 0 < left")
    case False
    then show ?thesis
      by (subst run_frames.simps) (intro exI [of _ "[]"] exI [of _ 0], auto)
  next
    case True
    define m where "m = min (min (len - (at - run_start)) left) FRAME_ROOM"
    define i where "i = at - rg_start r"
    define c where "c = take m (drop i (rg_bytes r))"
    have m: "0 < m" "m \<le> left" "at + m \<le> run_start + len" "m < unat MAX_FRAME"
      using True "1.prems" FRAME_ROOM_pos by (auto simp: m_def)
    have i: "(run_start - rg_start r) + (at - run_start) = i" using "1.prems" by (simp add: i_def)
    have fit: "i + m \<le> length (rg_bytes r)" using "1.prems" m(3) by (simp add: i_def)
    have copy: "ring_copy wrap_at (rg_bytes r) (run_start - rg_start r + (at - run_start)) m = Some c"
      using fit by (simp add: i ring_copy_eq c_def)
    have c: "length c = m" "c \<noteq> []" using fit m(1) by (auto simp: c_def)
    have ok: "\<not> (at < run_start \<or> run_start < rg_start r)" using "1.prems" by simp
    from "1.IH" [OF True ok refl m_def copy] "1.prems" obtain fs n where IH:
      "run_frames wrap_at r stream len run_start (at + m) (left - m)
         (out @ to_be_bytes (word_of_nat m + 1 :: u32) @ [stream] @ c)
       = Some (at + m + n, left - m - n, (out @ out_frame (stream, c)) @ out_frames fs)"
      "n = min (left - m) ((run_start + len) - (at + m))" "frames_fit fs"
      "labelled fs = map (Pair stream) (take n (drop (at + m - rg_start r) (rg_bytes r)))"
      by (auto simp: out_frame_def c(1))
    have "run_frames wrap_at r stream len run_start at left out
        = Some (at + (m + n), left - (m + n), out @ out_frames ((stream, c) # fs))"
      using True ok copy IH(1) by (subst run_frames.simps) (simp add: m_def add.assoc Let_def)
    moreover have "m + n = min left ((run_start + len) - at)" using IH(2) m(2,3) by auto
    moreover have "frames_fit ((stream, c) # fs)" using c m(4) IH(3) by simp
    moreover have "labelled ((stream, c) # fs) = map (Pair stream) (take (m + n) (drop i (rg_bytes r)))"
      using IH(4) "1.prems" by (simp add: c_def take_add i_def add.commute)
    ultimately show ?thesis unfolding i_def by blast
  qed
qed

lemma runs_frames_done: "runs_frames wrap_at r runs run_start at 0 out = Some (at, out)"
  by (cases runs) auto

lemma contents_in_run:
  assumes "rg_runs r = pre @ (s, len) # post" "n = 0 \<or> i + n \<le> length (run_streams pre) + len"
    and "length (run_streams pre) \<le> i"
  shows "take n (drop i (contents r)) = map (Pair s) (take n (drop i (rg_bytes r)))"
proof (cases "n = 0")
  case False
  obtain j where j: "i = length (run_streams pre) + j" "j + n \<le> len"
    using assms(2,3) False by (metis add_le_imp_le_left add.assoc le_Suc_ex)
  have "take n (drop i (run_streams (rg_runs r))) = replicate n s"
    using j by (simp add: assms(1))
  then have "take n (drop i (contents r)) = zip (replicate n s) (take n (drop i (rg_bytes r)))"
    by (simp add: contents_def drop_zip take_zip)
  then show ?thesis by (simp add: zip_replicate1)
qed simp

lemma runs_frames_ok:
  assumes "runs_ok r" "rg_runs r = pre @ runs"
    and "run_start = rg_start r + length (run_streams pre)" "run_start \<le> at"
  shows "\<exists>fs n. runs_frames wrap_at r runs run_start at left out = Some (at + n, out @ out_frames fs) \<and>
           n = min left (rg_end r - at) \<and> frames_fit fs \<and>
           labelled fs = take n (drop (at - rg_start r) (contents r))"
  using assms
proof (induction runs arbitrary: pre run_start at left out)
  case Nil
  then have "rg_end r \<le> at" by (auto simp: runs_ok_def)
  then show ?case by (intro exI [of _ "[]"] exI [of _ 0]) simp
next
  case (Cons run runs)
  obtain s len where run: "run = (s, len)" by (cases run)
  have all: "run_start + len \<le> rg_start r + length (rg_bytes r)"
    using Cons.prems(1,2,3) run by (auto simp: runs_ok_def)
  obtain fs1 n1 where one: "run_frames wrap_at r s len run_start at left out
      = Some (at + n1, left - n1, out @ out_frames fs1)" "n1 = min left ((run_start + len) - at)"
    "frames_fit fs1" "labelled fs1 = map (Pair s) (take n1 (drop (at - rg_start r) (rg_bytes r)))"
    using run_frames_ok [OF _ Cons.prems(4) all] Cons.prems(3) by (metis le_add1)
  have "n1 = 0 \<or> at - rg_start r + n1 \<le> length (run_streams pre) + len"
    using one(2) Cons.prems(3,4) by linarith
  then have lab1: "labelled fs1 = take n1 (drop (at - rg_start r) (contents r))"
    using contents_in_run [of r pre s len runs n1 "at - rg_start r"] Cons.prems(2,3,4) run one(4)
    by simp
  show ?case
  proof (cases "left - n1 = 0")
    case True
    then have "n1 = min left (rg_end r - at)" using one(2) all Cons.prems(1) by (auto simp: runs_ok_def)
    then show ?thesis
      using one lab1 True run runs_frames_done [of wrap_at r runs "run_start + len" "at + n1"]
      by (intro exI [of _ fs1] exI [of _ n1]) (auto dest: frames_fit_empty)
  next
    case False
    then have at: "run_start + len \<le> at + n1" using one(2) by simp
    have pre: "rg_runs r = (pre @ [run]) @ runs"
      "run_start + len = rg_start r + length (run_streams (pre @ [run]))"
      using Cons.prems(2,3) run by simp_all
    obtain fs2 n2 where two: "runs_frames wrap_at r runs (run_start + len) (at + n1) (left - n1)
        (out @ out_frames fs1) = Some (at + n1 + n2, (out @ out_frames fs1) @ out_frames fs2)"
      "n2 = min (left - n1) (rg_end r - (at + n1))" "frames_fit fs2"
      "labelled fs2 = take n2 (drop (at + n1 - rg_start r) (contents r))"
      using Cons.IH [OF Cons.prems(1) pre at] by blast
    have "run_start + len \<le> rg_end r" using all Cons.prems(1) by (auto simp: runs_ok_def)
    then have "n1 + n2 = min left (rg_end r - at)" using two(2) one(2) False by linarith
    moreover have "labelled (fs1 @ fs2) = take (n1 + n2) (drop (at - rg_start r) (contents r))"
      using lab1 two(4) Cons.prems(3,4) by (simp add: take_add add.commute)
    moreover have "left \<noteq> 0" using False by simp
    then have "runs_frames wrap_at r (run # runs) run_start at left out
        = Some (at + (n1 + n2), out @ out_frames (fs1 @ fs2))"
      using one(1) two(1) by (simp add: run add.assoc)
    moreover have "frames_fit (fs1 @ fs2)" using one(3) two(3) by simp
    ultimately show ?thesis by blast
  qed
qed

lemma frames_ok:
  assumes "ring_inv r"
  shows "\<exists>fs n. frames wrap_at r from m out = Some (max from (rg_start r) + n, out @ out_frames fs) \<and>
           n = min m (rg_end r - max from (rg_start r)) \<and> frames_fit fs \<and>
           labelled fs = take n (drop (max from (rg_start r) - rg_start r) (contents r))"
  using assms runs_frames_ok [of r "[]" "rg_runs r" "rg_start r" "max from (rg_start r)" wrap_at m out]
  by (simp add: frames_def ring_inv_def)

section \<open>Properties\<close>

text \<open>
  C7. Whatever a session prints, the ring takes it: every push returns, the ring stays within its
  bounds, its end is the number of bytes printed, and it holds exactly the newest bytes, those
  from its start on, each with the stream it was printed on. It forgets nothing it could keep: its
  start is the smallest offset from which on the output is no more than \<open>BUFFER\<close> bytes in no more than
  \<open>MAX_RUNS\<close> stretches of one stream.
\<close>

theorem ring_holds_newest_output:
  "\<exists>r. push_all ring_push ps ring_new = Some r \<and> ring_inv r \<and>
       rg_end r = length (labelled ps) \<and> rg_start r \<le> rg_end r \<and>
       contents r = drop (rg_start r) (labelled ps) \<and>
       rg_start r = (LEAST j. length (labelled ps) - j \<le> BUFFER \<and>
         length (remdups_adj (map fst (drop j (labelled ps)))) \<le> MAX_RUNS)"
proof -
  obtain r where r: "push_all ring_push ps ring_new = Some r" "ring_inv r" "rg_end r = length (labelled ps)"
    "rg_start r \<le> rg_end r" "contents r = drop (rg_start r) (labelled ps)"
    and least: "\<forall>j \<le> length (labelled ps). within_bounds (drop j (labelled ps)) \<longleftrightarrow> rg_start r \<le> j"
    by (rule session_output)
  let ?P = "\<lambda>j. length (labelled ps) - j \<le> BUFFER \<and>
         length (remdups_adj (map fst (drop j (labelled ps)))) \<le> MAX_RUNS"
  have P: "?P j \<longleftrightarrow> within_bounds (drop j (labelled ps))" for j by (simp add: within_bounds_def)
  have eq: "(LEAST j. ?P j) = rg_start r"
  proof (rule Least_equality)
    show "?P (rg_start r)" unfolding P using least r(3,4) by simp
    fix j assume "?P j"
    then show "rg_start r \<le> j" unfolding P using least r(3,4) by (cases "j \<le> length (labelled ps)") auto
  qed
  show ?thesis by (intro exI [of _ r] conjI r eq [symmetric])
qed

text \<open>
  The session loop reads from a process only as much as \<open>room\<close> says. A push of that much
  drops nothing at or after the offset a client still has to be sent.
\<close>

theorem room_keeps_unsent_output:
  assumes "ring_inv r" "length d \<le> room s keep r" "ring_push s d r = Some r'"
  shows "rg_start r' \<le> max (rg_start r) keep"
proof (cases "d = []")
  case True
  then show ?thesis using assms(3) by (simp add: ring_push_def)
next
  case False
  with assms(2) have "0 < room s keep r" by (metis length_greater_0_conv order_less_le_trans)
  moreover obtain k where "rg_start r' = rg_start r + k"
    "k = (rg_end r + length d - rg_start r) - BUFFER \<or>
       k = snd (rg_runs r ! 0) \<and> MAX_RUNS = length (rg_runs r) \<and>
       (rg_runs r = [] \<or> fst (last (rg_runs r)) \<noteq> s)"
    using ring_push_ok [OF assms(1), of s d] assms(3) by auto
  moreover have "rg_start r \<le> rg_end r" using assms(1) by (auto simp: ring_inv_def runs_ok_def)
  ultimately show ?thesis using assms(2) by (auto simp: room_def Let_def split: if_splits)
qed

theorem room_keeps_unsent_output_witness:
  "\<exists>r r'. ring_push STDOUT [1, 2, 3] ring_new = Some r \<and> ring_inv r \<and>
     length [4 :: byte, 5] \<le> room STDERR 1 r \<and> ring_push STDERR [4, 5] r = Some r' \<and>
     rg_start r' \<le> max (rg_start r) 1"
proof -
  obtain r where r: "ring_push STDOUT [1, 2, 3] ring_new = Some r" "ring_inv r" "rg_end r = 3"
    "length (rg_runs r) \<le> 1"
    by (simp add: ring_push_def extend_ring_def drop_front_def trim_runs.simps ring_new_def
        append_run_def BUFFER_def MAX_RUNS_def ring_inv_def runs_ok_def Let_def)
  from session_log.push_returns [OF r(2), of STDERR "[4, 5]"] obtain r' where
    r': "ring_push STDERR [4, 5] r = Some r'" by blast
  have fits: "length [4 :: byte, 5] \<le> room STDERR 1 r"
    using r(3,4) by (auto simp: room_def BUFFER_def MAX_RUNS_def Let_def)
  show ?thesis using r(1,2) r' fits room_keeps_unsent_output [OF r(2) fits r'] by blast
qed

text \<open>
  C8. Replaying: whatever a session printed, for any offset and any limit \<open>frames\<close> returns,
  wherever the deque's two slices meet. It appends well-sized frames that carry exactly the
  printed bytes with their streams from that offset on (from the start of the ring when the
  offset is older), up to the limit or the end of the output, and returns the offset reached.
\<close>

theorem frames_replay_output:
  "\<exists>r fs n. push_all ring_push ps ring_new = Some r \<and>
     frames wrap_at r from m out = Some (max from (rg_start r) + n, out @ out_frames fs) \<and>
     n = min m (length (labelled ps) - max from (rg_start r)) \<and> frames_fit fs \<and>
     labelled fs = take n (drop (max from (rg_start r)) (labelled ps))"
proof -
  obtain r where r: "push_all ring_push ps ring_new = Some r" "ring_inv r"
    "rg_end r = length (labelled ps)" "contents r = drop (rg_start r) (labelled ps)"
    by (rule session_output)
  from frames_ok [OF r(2), of wrap_at "from" m out] show ?thesis
    using r(1,3,4) by (auto simp: add.commute)
qed

end
