(* ===== verification/Proto_Hello.thy ===== *)
theory Proto_Hello
  imports Proto_Frame
begin

text \<open>
  The identity handshake of \<^verbatim>\<open>crates/shuru-proto/src/hello.rs\<close>: the guest's \<^verbatim>\<open>accept\<close> and
  the host's \<^verbatim>\<open>connect\<close> over one stream, and the fixed layout of the \<^verbatim>\<open>Restore\<close> message.
\<close>

definition PROTOCOL_VERSION :: u32 where
  "PROTOCOL_VERSION = 7"

text \<open>The token and the instance are byte arrays of fixed length, so well-formedness says so.\<close>

record identity =
  id_token :: bytes
  id_instance :: bytes

definition identity_wf :: "identity \<Rightarrow> bool" where
  "identity_wf i \<longleftrightarrow> length (id_token i) = 32 \<and> length (id_instance i) = 16"

text \<open>A stream is read from and written to.\<close>

record duplex =
  dx_in :: reader
  dx_out :: writer

definition rejected :: io_error where
  "rejected = PermissionDenied"

definition read_hello :: "nat \<Rightarrow> u8 \<Rightarrow> reader \<Rightarrow> (io_error + bytes) \<times> reader" where
  "read_hello n kind r =
     (case read_exact 5 r of
        (Inl e, r) \<Rightarrow> (Inl e, r)
      | (Inr header, r) \<Rightarrow>
          if (from_be_bytes (take 4 header) :: u32) \<noteq> word_of_nat n + 1 \<or> header ! 4 \<noteq> kind
          then (Inl rejected, r)
          else read_exact n r)"

text \<open>
  \<^verbatim>\<open>ct_eq\<close> is the comparison of the \<^verbatim>\<open>subtle\<close> crate, so it is an argument. The code relies
  on it being equality.
\<close>

definition accept :: "(bytes \<Rightarrow> bytes \<Rightarrow> bool) \<Rightarrow> identity \<Rightarrow> duplex \<Rightarrow> (io_error + unit) \<times> duplex" where
  "accept ct_eq i s =
     (case read_hello 32 HELLO (dx_in s) of
        (Inl e, r) \<Rightarrow> (Inl e, s\<lparr>dx_in := r\<rparr>)
      | (Inr token, r) \<Rightarrow>
          (let s = s\<lparr>dx_in := r\<rparr>
           in if \<not> ct_eq (id_token i) token then (Inl rejected, s)
              else
                let reply = id_instance i @ to_le_bytes PROTOCOL_VERSION;
                    (res, w) = write_frame HELLO_OK reply (dx_out s)
                in (res, s\<lparr>dx_out := w\<rparr>)))"

definition connect :: "identity \<Rightarrow> duplex \<Rightarrow> (io_error + unit) \<times> duplex" where
  "connect i s =
     (case write_frame HELLO (id_token i) (dx_out s) of
        (Inl e, w) \<Rightarrow> (Inl e, s\<lparr>dx_out := w\<rparr>)
      | (Inr _, w) \<Rightarrow>
          (let s = s\<lparr>dx_out := w\<rparr>
           in case read_hello 20 HELLO_OK (dx_in s) of
                (Inl e, r) \<Rightarrow> (Inl e, s\<lparr>dx_in := r\<rparr>)
              | (Inr reply, r) \<Rightarrow>
                  if take 16 reply \<noteq> id_instance i \<or> drop 16 reply \<noteq> to_le_bytes PROTOCOL_VERSION
                  then (Inl rejected, s\<lparr>dx_in := r\<rparr>)
                  else (Inr (), s\<lparr>dx_in := r\<rparr>)))"

section \<open>The restore message\<close>

record restore =
  rs_identity :: identity
  rs_realtime_ns :: "64 word"
  rs_seed :: bytes

definition restore_LEN :: nat where
  "restore_LEN = 32 + 16 + 8 + 32"

definition restore_wf :: "restore \<Rightarrow> bool" where
  "restore_wf m \<longleftrightarrow> identity_wf (rs_identity m) \<and> length (rs_seed m) = 32"

definition restore_encode :: "restore \<Rightarrow> bytes" where
  "restore_encode m =
     id_token (rs_identity m) @ id_instance (rs_identity m) @
     to_le_bytes (rs_realtime_ns m) @ rs_seed m"

definition restore_decode :: "bytes \<Rightarrow> restore option" where
  "restore_decode payload =
     (if length payload \<noteq> restore_LEN then None
      else Some
        \<lparr>rs_identity =
           \<lparr>id_token = take 32 payload, id_instance = take 16 (drop 32 payload)\<rparr>,
         rs_realtime_ns = from_le_bytes (take 8 (drop 48 payload)),
         rs_seed = drop 56 payload\<rparr>)"

section \<open>Lemmas\<close>

lemma read_hello_append:
  assumes "length p = n" "n < 2 ^ 31"
  shows "read_hello n kind
           \<lparr>rd_bytes = to_be_bytes ((1 :: u32) + word_of_nat n) @ kind # p @ rest, rd_end = e\<rparr>
         = (Inr p, \<lparr>rd_bytes = rest, rd_end = e\<rparr>)"
proof -
  let ?h = "to_be_bytes ((1 :: u32) + word_of_nat n) @ [kind]"
  have "read_exact 5 \<lparr>rd_bytes = ?h @ (p @ rest), rd_end = e\<rparr>
      = (Inr ?h, \<lparr>rd_bytes = p @ rest, rd_end = e\<rparr>)"
    by (rule read_exact_append) simp
  moreover have "from_be_bytes (take 4 ?h) = (1 :: u32) + word_of_nat n"
    by (simp add: codec_simps)
  moreover have "?h ! 4 = kind" by (simp add: nth_append)
  moreover have "read_exact n \<lparr>rd_bytes = p @ rest, rd_end = e\<rparr>
      = (Inr p, \<lparr>rd_bytes = rest, rd_end = e\<rparr>)"
    using assms(1) by (rule read_exact_append)
  ultimately show ?thesis by (simp add: read_hello_def add.commute)
qed

lemma read_hello_length:
  "read_hello n kind r = (Inr p, r') \<Longrightarrow> length p = n"
  by (auto simp: read_hello_def read_exact_def split: if_splits sum.splits prod.splits)

lemma restore_encode_length: "restore_wf m \<Longrightarrow> length (restore_encode m) = restore_LEN"
  by (simp add: restore_wf_def identity_wf_def restore_encode_def restore_LEN_def)

lemma restore_decode_encode: "restore_wf m \<Longrightarrow> restore_decode (restore_encode m) = Some m"
  by (simp add: restore_decode_def restore_encode_length)
    (simp add: restore_wf_def identity_wf_def restore_encode_def codec_simps)

lemma restore_encode_decode:
  assumes "restore_decode p = Some m"
  shows "restore_encode m = p \<and> restore_wf m"
proof -
  from assms have len: "length p = 88" by (auto simp: restore_decode_def restore_LEN_def split: if_splits)
  have "take 16 (drop 32 p) @ take 8 (drop 48 p) @ drop 56 p = drop 32 p"
    using append_take_drop_id [of 16 "drop 32 p"] append_take_drop_id [of 8 "drop 48 p"] by simp
  then have "take 32 p @ take 16 (drop 32 p) @ take 8 (drop 48 p) @ drop 56 p = p"
    by (metis append_take_drop_id)
  moreover have "to_le_bytes (from_le_bytes (take 8 (drop 48 p)) :: u64) = take 8 (drop 48 p)"
    using len by (simp add: codec_simps)
  ultimately show ?thesis
    using assms len
    by (auto simp: restore_decode_def restore_encode_def restore_wf_def identity_wf_def
        split: if_splits)
qed

text \<open>A hello is read exactly when its five header bytes and its payload stand at the front.\<close>

lemma read_hello_SomeD:
  assumes "read_hello n kind r = (Inr p, r')"
  shows "rd_bytes r = to_be_bytes ((1 :: u32) + word_of_nat n) @ kind # p @ rd_bytes r'"
proof -
  let ?bs = "rd_bytes r"
  have five: "5 \<le> length ?bs"
    using assms by (rule_tac ccontr) (simp add: read_hello_def read_exact_def)
  have h: "(from_be_bytes (take 4 ?bs) :: u32) = word_of_nat n + 1" "?bs ! 4 = kind"
    and rest: "read_exact n (r\<lparr>rd_bytes := drop 5 ?bs\<rparr>) = (Inr p, r')"
    using assms five by (auto simp: read_hello_def read_exact_def [of 5] min_def split: if_splits)
  have "take 4 ?bs = to_be_bytes (from_be_bytes (take 4 ?bs) :: u32)"
    using five by (simp add: codec_simps)
  also have "\<dots> = to_be_bytes ((1 :: u32) + word_of_nat n)" by (simp only: h(1) add.commute)
  finally have "take 4 ?bs = to_be_bytes ((1 :: u32) + word_of_nat n)" .
  moreover have "drop 4 ?bs = kind # drop 5 ?bs"
    using five h(2) Cons_nth_drop_Suc [of 4 ?bs] by simp
  moreover have "drop 5 ?bs = p @ rd_bytes r'"
    using rest append_take_drop_id [of n "drop 5 ?bs"]
    by (auto simp: read_exact_def simp del: append_take_drop_id split: if_splits)
  ultimately show ?thesis by (metis append_take_drop_id)
qed

section \<open>Properties\<close>

text \<open>
  C12. The guest lets nobody in but the holder of its token. When \<^verbatim>\<open>accept\<close> succeeds, the peer
  sent the HELLO frame with exactly the token, and what the guest wrote is the HELLO_OK frame with
  its instance and the protocol version. When it fails before that reply, it wrote nothing.
\<close>

theorem accept_only_token:
  assumes "\<And>a b. ct_eq a b \<longleftrightarrow> a = b" "wr_fail (dx_out s) = None"
  shows "(fst (accept ct_eq i s) = Inr () \<longrightarrow>
      rd_bytes (dx_in s) = frame_bytes (HELLO, take 32 (id_token i))
        @ rd_bytes (dx_in (snd (accept ct_eq i s))) \<and>
      length (id_token i) = 32 \<and>
      wr_out (dx_out (snd (accept ct_eq i s))) = wr_out (dx_out s)
        @ frame_bytes (HELLO_OK, id_instance i @ to_le_bytes PROTOCOL_VERSION)) \<and>
    (fst (accept ct_eq i s) \<noteq> Inr () \<longrightarrow> dx_out (snd (accept ct_eq i s)) = dx_out s)"
proof -
  obtain res r where r: "read_hello 32 HELLO (dx_in s) = (res, r)" by fastforce
  show ?thesis
  proof (cases res)
    case (Inl e)
    then show ?thesis using r by (simp add: accept_def)
  next
    case (Inr token)
    then have "rd_bytes (dx_in s) = frame_bytes (HELLO, token) @ rd_bytes r" "length token = 32"
      using read_hello_SomeD [of 32 HELLO "dx_in s" token r] read_hello_length r
      by (auto simp: frame_bytes_def)
    then show ?thesis
      using r Inr assms
      by (simp add: accept_def Let_def write_frame_ok frame_bytes_def)
  qed
qed

text \<open>An identity and the streams of a guest that is sent its token.\<close>

definition sample_identity :: identity where
  "sample_identity = \<lparr>id_token = replicate 32 42, id_instance = replicate 16 7\<rparr>"

definition stream_of :: "bytes \<Rightarrow> duplex" where
  "stream_of bs = \<lparr>dx_in = \<lparr>rd_bytes = bs, rd_end = None\<rparr>, dx_out = \<lparr>wr_out = [], wr_fail = None\<rparr>\<rparr>"

theorem accept_only_token_witness:
  "fst (accept (=) sample_identity (stream_of (frame_bytes (HELLO, replicate 32 43)))) = Inl rejected \<and>
   dx_out (snd (accept (=) sample_identity (stream_of (frame_bytes (HELLO, replicate 32 43)))))
     = dx_out (stream_of (frame_bytes (HELLO, replicate 32 43)))"
proof -
  let ?s = "stream_of (frame_bytes (HELLO, replicate 32 43))"
  have "read_hello 32 HELLO (dx_in ?s) = (Inr (replicate 32 43), \<lparr>rd_bytes = [], rd_end = None\<rparr>)"
    using read_hello_append [of "replicate 32 43" 32 HELLO "[]" None]
    by (simp add: stream_of_def frame_bytes_def)
  then have "fst (accept (=) sample_identity ?s) = Inl rejected"
    by (simp add: accept_def Let_def sample_identity_def)
  then show ?thesis
    using accept_only_token [of "(=)" ?s sample_identity] by (simp add: stream_of_def)
qed

text \<open>
  C13. The handshake works between the two ends of one identity: the guest accepts what the
  host's \<^verbatim>\<open>connect\<close> writes, the host accepts what the guest answers, and each leaves the bytes
  that follow in the stream. The host accepts no guest that runs as another instance.
\<close>

theorem hello_accepted:
  assumes "identity_wf i" "identity_wf j" "id_token j = id_token i"
  shows "(let hello = frame_bytes (HELLO, id_token i);
              guest = accept (=) j (stream_of (hello @ later));
              reply = wr_out (dx_out (snd guest));
              host = connect i (stream_of (reply @ tail))
          in fst guest = Inr () \<and> rd_bytes (dx_in (snd guest)) = later \<and>
             wr_out (dx_out (snd host)) = hello \<and>
             (if id_instance j = id_instance i
              then fst host = Inr () \<and> rd_bytes (dx_in (snd host)) = tail
              else fst host = Inl rejected))"
proof -
  have len: "length (id_token i) = 32" "length (id_instance j) = 16" "length (id_instance i) = 16"
    using assms by (auto simp: identity_wf_def)
  let ?reply = "id_instance j @ to_le_bytes PROTOCOL_VERSION"
  have a: "accept (=) j (stream_of (frame_bytes (HELLO, id_token i) @ later))
      = (Inr (), \<lparr>dx_in = \<lparr>rd_bytes = later, rd_end = None\<rparr>,
                 dx_out = \<lparr>wr_out = frame_bytes (HELLO_OK, ?reply), wr_fail = None\<rparr>\<rparr>)"
    using read_hello_append [of "id_token i" 32 HELLO later None] len assms(3)
    by (simp add: accept_def stream_of_def frame_bytes_def Let_def write_frame_ok)
  have rl: "length ?reply = 20" using len by simp
  have "read_hello 20 HELLO_OK \<lparr>rd_bytes = frame_bytes (HELLO_OK, ?reply) @ tail, rd_end = None\<rparr>
      = (Inr ?reply, \<lparr>rd_bytes = tail, rd_end = None\<rparr>)"
    using read_hello_append [of ?reply 20 HELLO_OK tail None] rl by (simp add: frame_bytes_def)
  then have "connect i (stream_of (frame_bytes (HELLO_OK, ?reply) @ tail))
      = (if id_instance j = id_instance i then Inr () else Inl rejected,
         \<lparr>dx_in = \<lparr>rd_bytes = tail, rd_end = None\<rparr>,
          dx_out = \<lparr>wr_out = frame_bytes (HELLO, id_token i), wr_fail = None\<rparr>\<rparr>)"
    using len by (simp add: connect_def stream_of_def write_frame_ok frame_bytes_def)
  with a show ?thesis by (cases "id_instance j = id_instance i") (simp_all add: Let_def)
qed

theorem hello_accepted_witness:
  "(let hello = frame_bytes (HELLO, id_token sample_identity);
        guest = accept (=) sample_identity (stream_of (hello @ [1]));
        reply = wr_out (dx_out (snd guest));
        host = connect sample_identity (stream_of (reply @ [2]))
    in fst guest = Inr () \<and> rd_bytes (dx_in (snd guest)) = [1] \<and>
       wr_out (dx_out (snd host)) = hello \<and>
       (if id_instance sample_identity = id_instance sample_identity
        then fst host = Inr () \<and> rd_bytes (dx_in (snd host)) = [2]
        else fst host = Inl rejected))"
  by (rule hello_accepted) (simp_all add: identity_wf_def sample_identity_def)

text \<open>
  The restore message has one encoding per value: a payload decodes to a message exactly when
  it is the encoding of that message, and of a message with a token, an instance and a seed of the
  right length. Every other payload is refused.
\<close>

theorem restore_message_codec:
  "restore_decode payload = Some m \<longleftrightarrow> restore_wf m \<and> payload = restore_encode m"
  using restore_decode_encode restore_encode_decode by blast

end
