(* ===== verification/Vsock_Wire.thy ===== *)
theory Vsock_Wire
  imports Shuru_Prelude
begin

text \<open>
  The wire format and the flow control of the vsock device,
  \<^verbatim>\<open>crates/shuru-linux/src/kvm/vsock/connection.rs\<close>: the 44-byte packet header and the
  credit a connection has with the guest. All counters are \<^verbatim>\<open>u32\<close> and wrap.
\<close>

definition HEADER_LEN :: nat where "HEADER_LEN = 44"
definition BUFFER_SIZE :: nat where "BUFFER_SIZE = 256 * 1024"
definition MAX_PACKET :: nat where "MAX_PACKET = 64 * 1024"
definition MAX_TURN :: nat where "MAX_TURN = 128 * 1024"
definition MAX_PENDING_RESETS :: nat where "MAX_PENDING_RESETS = 256"

text \<open>Time is counted in nanoseconds.\<close>

definition HANDSHAKE_TIMEOUT :: nat where "HANDSHAKE_TIMEOUT = 2 * 10 ^ 9"

definition HOST_CID :: u64 where "HOST_CID = 2"
definition GUEST_CID :: u64 where "GUEST_CID = 3"
definition STREAM :: u16 where "STREAM = 1"
definition REQUEST :: u16 where "REQUEST = 1"
definition RESPONSE :: u16 where "RESPONSE = 2"
definition RST :: u16 where "RST = 3"
definition SHUTDOWN :: u16 where "SHUTDOWN = 4"
definition RW :: u16 where "RW = 5"
definition CREDIT_UPDATE :: u16 where "CREDIT_UPDATE = 6"
definition CREDIT_REQUEST :: u16 where "CREDIT_REQUEST = 7"
definition RECEIVE :: u32 where "RECEIVE = 1"
definition SEND :: u32 where "SEND = 2"

lemmas op_defs = REQUEST_def RESPONSE_def RST_def SHUTDOWN_def RW_def CREDIT_UPDATE_def
  CREDIT_REQUEST_def

section \<open>Header\<close>

record header =
  h_src_cid :: u64
  h_dst_cid :: u64
  h_src_port :: u32
  h_dst_port :: u32
  h_len :: u32
  h_kind :: u16
  h_op :: u16
  h_flags :: u32
  h_buf_alloc :: u32
  h_fwd_cnt :: u32

definition default_header :: header where
  "default_header =
     \<lparr>h_src_cid = 0, h_dst_cid = 0, h_src_port = 0, h_dst_port = 0, h_len = 0, h_kind = 0,
      h_op = 0, h_flags = 0, h_buf_alloc = 0, h_fwd_cnt = 0\<rparr>"

text \<open>\<^verbatim>\<open>bytes[i..i + n]\<close> of an array known to be long enough.\<close>

definition field :: "nat \<Rightarrow> nat \<Rightarrow> bytes \<Rightarrow> bytes" where
  "field i n bs = take n (drop i bs)"

definition header_decode :: "bytes \<Rightarrow> header option" where
  "header_decode bytes =
     (if length bytes < HEADER_LEN then None
      else
        let bs = take HEADER_LEN bytes
        in Some
          \<lparr>h_src_cid = from_le_bytes (field 0 8 bs),
           h_dst_cid = from_le_bytes (field 8 8 bs),
           h_src_port = from_le_bytes (field 16 4 bs),
           h_dst_port = from_le_bytes (field 20 4 bs),
           h_len = from_le_bytes (field 24 4 bs),
           h_kind = from_le_bytes (field 28 2 bs),
           h_op = from_le_bytes (field 30 2 bs),
           h_flags = from_le_bytes (field 32 4 bs),
           h_buf_alloc = from_le_bytes (field 36 4 bs),
           h_fwd_cnt = from_le_bytes (field 40 4 bs)\<rparr>)"

definition header_encode :: "header \<Rightarrow> bytes" where
  "header_encode h =
     to_le_bytes (h_src_cid h) @ to_le_bytes (h_dst_cid h) @
     to_le_bytes (h_src_port h) @ to_le_bytes (h_dst_port h) @
     to_le_bytes (h_len h) @ to_le_bytes (h_kind h) @ to_le_bytes (h_op h) @
     to_le_bytes (h_flags h) @ to_le_bytes (h_buf_alloc h) @ to_le_bytes (h_fwd_cnt h)"

lemma length_header_encode [simp]: "length (header_encode h) = HEADER_LEN"
  by (simp add: header_encode_def HEADER_LEN_def)

lemma header_decode_encode: "header_decode (header_encode h @ rest) = Some h"
proof -
  have "take HEADER_LEN (header_encode h @ rest) = header_encode h" by simp
  then show ?thesis
    by (simp add: header_decode_def header_encode_def field_def Let_def HEADER_LEN_def codec_simps)
qed

lemma field_join: "field i m bs @ field (i + m) n bs = field i (m + n) bs"
  by (simp add: field_def take_add add.commute)

lemma header_encode_decode:
  assumes "header_decode bs = Some h"
  shows "header_encode h = take HEADER_LEN bs"
proof -
  let ?bs = "take HEADER_LEN bs"
  from assms have "HEADER_LEN \<le> length bs" by (auto simp: header_decode_def split: if_splits)
  then have len: "length ?bs = 44" by (simp add: HEADER_LEN_def)
  have enc:
    "i \<le> 36 \<Longrightarrow> to_le_bytes (from_le_bytes (field i 8 ?bs) :: u64) = field i 8 ?bs"
    "i \<le> 40 \<Longrightarrow> to_le_bytes (from_le_bytes (field i 4 ?bs) :: u32) = field i 4 ?bs"
    "i \<le> 42 \<Longrightarrow> to_le_bytes (from_le_bytes (field i 2 ?bs) :: u16) = field i 2 ?bs" for i
    using len by (simp_all add: field_def codec_simps)
  have "header_encode h = field 0 8 ?bs @ field 8 8 ?bs @ field 16 4 ?bs @ field 20 4 ?bs @
      field 24 4 ?bs @ field 28 2 ?bs @ field 30 2 ?bs @ field 32 4 ?bs @ field 36 4 ?bs @
      field 40 4 ?bs"
    using assms by (auto simp: header_decode_def header_encode_def Let_def enc split: if_splits)
  also have "\<dots> = field 0 44 ?bs"
    using field_join [of 0 8 ?bs 8] field_join [of 0 16 ?bs 4] field_join [of 0 20 ?bs 4]
      field_join [of 0 24 ?bs 4] field_join [of 0 28 ?bs 2] field_join [of 0 30 ?bs 2]
      field_join [of 0 32 ?bs 4] field_join [of 0 36 ?bs 4] field_join [of 0 40 ?bs 4]
    by (simp flip: append_assoc)
  also have "\<dots> = ?bs" by (simp add: field_def HEADER_LEN_def)
  finally show ?thesis .
qed

interpretation header_codec: fixed_codec header_encode header_decode HEADER_LEN
  using header_decode_encode [where rest = "[]"] by unfold_locales simp_all

section \<open>Credit\<close>

record credit =
  cr_sent :: u32
  cr_peer_forwarded :: u32
  cr_peer_alloc :: u32

definition default_credit :: credit where
  "default_credit = \<lparr>cr_sent = 0, cr_peer_forwarded = 0, cr_peer_alloc = 0\<rparr>"

definition available :: "credit \<Rightarrow> u32" where
  "available c = saturating_sub (cr_peer_alloc c) (cr_sent c - cr_peer_forwarded c)"

definition credit_update :: "header \<Rightarrow> credit \<Rightarrow> bool \<times> credit" where
  "credit_update h c =
     (if h_fwd_cnt h - cr_peer_forwarded c > cr_sent c - cr_peer_forwarded c then (False, c)
      else (True, c\<lparr>cr_peer_forwarded := h_fwd_cnt h, cr_peer_alloc := h_buf_alloc h\<rparr>))"

text \<open>The bytes sent that the guest has not acknowledged.\<close>

definition in_flight :: "credit \<Rightarrow> nat" where
  "in_flight c = unat (cr_sent c - cr_peer_forwarded c)"

lemma unat_available: "unat (available c) = unat (cr_peer_alloc c) - in_flight c"
  by (simp add: available_def in_flight_def unat_saturating_sub)

text \<open>
  Sending within the credit makes the bytes in flight grow by what was sent: the counter does
  not wrap past the acknowledged position.
\<close>

lemma in_flight_sent:
  assumes "n \<le> unat (available c)"
  shows "in_flight (c\<lparr>cr_sent := cr_sent c + word_of_nat n\<rparr>) = in_flight c + n"
proof (cases "n = 0")
  case False
  let ?d = "cr_sent c - cr_peer_forwarded c"
  have bound: "unat ?d + n \<le> unat (cr_peer_alloc c)"
    using assms False by (simp add: unat_available in_flight_def)
  also have "\<dots> < 2 ^ 32" using unsigned_less [of "cr_peer_alloc c"] by simp
  finally have "unat (?d + word_of_nat n) = unat ?d + n"
    by (simp add: unat_word_ariths unat_of_nat)
  moreover have "cr_sent c + word_of_nat n - cr_peer_forwarded c = ?d + word_of_nat n"
    by (simp add: algebra_simps)
  moreover have "in_flight (c\<lparr>cr_sent := cr_sent c + word_of_nat n\<rparr>)
      = unat (cr_sent c + word_of_nat n - cr_peer_forwarded c)" by (simp add: in_flight_def)
  ultimately show ?thesis by (simp only: in_flight_def)
qed (simp add: in_flight_def)

lemma credit_update_in_flight:
  assumes "credit_update h c = (True, c')"
  shows "in_flight c' \<le> in_flight c \<and>
    in_flight c = in_flight c' + unat (h_fwd_cnt h - cr_peer_forwarded c)"
proof -
  let ?f = "h_fwd_cnt h" and ?p = "cr_peer_forwarded c" and ?s = "cr_sent c"
  from assms have le: "?f - ?p \<le> ?s - ?p" and c': "cr_sent c' = ?s" "cr_peer_forwarded c' = ?f"
    by (auto simp: credit_update_def split: if_splits)
  have eq: "(?s - ?p) - (?f - ?p) = ?s - ?f" by simp
  have "unat (?s - ?f) = unat (?s - ?p) - unat (?f - ?p)" using unat_sub [OF le] by (simp only: eq)
  moreover have "unat (?f - ?p) \<le> unat (?s - ?p)" using le by (simp add: word_le_nat_alt)
  ultimately show ?thesis by (simp add: in_flight_def c')
qed

section \<open>Properties\<close>

text \<open>
  A packet header has one encoding: bytes decode to a header exactly when there are 44 of them
  at least and the first 44 are that header's encoding.
\<close>

theorem header_codec_exact:
  "header_decode bs = Some h \<longleftrightarrow> HEADER_LEN \<le> length bs \<and> take HEADER_LEN bs = header_encode h"
proof
  assume "header_decode bs = Some h"
  then show "HEADER_LEN \<le> length bs \<and> take HEADER_LEN bs = header_encode h"
    using header_encode_decode by (auto simp: header_decode_def split: if_splits)
next
  assume "HEADER_LEN \<le> length bs \<and> take HEADER_LEN bs = header_encode h"
  then show "header_decode bs = Some h"
    using header_decode_encode [of h "drop HEADER_LEN bs"] by (metis append_take_drop_id)
qed

end
