(* ===== verification/Vsock_Connection.thy ===== *)
theory Vsock_Connection
  imports Vsock_Wire "HOL-Library.Monad_Syntax" "HOL-Library.Sublist"
begin

text \<open>
  One connection of the vsock device, \<^verbatim>\<open>crates/shuru-linux/src/kvm/vsock/connection.rs\<close>: what
  it does with a packet of the guest (\<open>conn_receive\<close>), with what is queued for the host socket
  (\<open>conn_pump\<close>) and with the rx buffers of the guest (\<open>conn_fill\<close>).

  The host socket is non-blocking, and what the kernel answers is not up to this code. A socket
  therefore carries the answers to come, and once they run out it would block. Every run of the
  code that ends meets finitely many answers, so the scripts lose none.
\<close>

section \<open>The host socket\<close>

datatype send_answer = Accepts nat | SendBlocks | SendInterrupted | SendFails

datatype recv_answer = Arrives bytes | EndOfStream | RecvInterrupted | RecvFails

record socket =
  sk_answers :: "send_answer list"
  sk_arrivals :: "recv_answer list"
  sk_sent :: bytes
  sk_shut_read :: bool
  sk_shut_write :: bool
  sk_shutdown_fails :: bool

definition sock_shutdown_read :: "socket \<Rightarrow> socket" where
  "sock_shutdown_read s = (if sk_shutdown_fails s then s else s\<lparr>sk_shut_read := True\<rparr>)"

text \<open>\<^verbatim>\<open>send\<close> takes a front part of what it is offered.\<close>

definition sock_send :: "bytes \<Rightarrow> socket \<Rightarrow> (io_error + nat) \<times> socket" where
  "sock_send bs s =
     (case sk_answers s of
        [] \<Rightarrow> (Inl WouldBlock, s)
      | a # as \<Rightarrow>
          let s = s\<lparr>sk_answers := as\<rparr>
          in case a of
               Accepts n \<Rightarrow> (Inr (min n (length bs)), s\<lparr>sk_sent := sk_sent s @ take n bs\<rparr>)
             | SendBlocks \<Rightarrow> (Inl WouldBlock, s)
             | SendInterrupted \<Rightarrow> (Inl Interrupted, s)
             | SendFails \<Rightarrow> (Inl OtherError, s))"

text \<open>Every answer is used once, and a socket only ever adds to what it sent.\<close>

lemma sock_send_cases:
  assumes "sock_send bs s = (r, s')"
  obtains (exhausted) "sk_answers s = []" "r = Inl WouldBlock" "s' = s"
  | (taken) n as where "sk_answers s = Accepts n # as" "r = Inr (min n (length bs))"
      "s' = s\<lparr>sk_answers := as, sk_sent := sk_sent s @ take n bs\<rparr>"
  | (refused) a as e where "sk_answers s = a # as" "r = Inl e" "s' = s\<lparr>sk_answers := as\<rparr>"
  using assms
  by (cases "sk_answers s"; auto simp: sock_send_def Let_def split: send_answer.splits)

lemma sock_send_answers:
  assumes "sock_send bs s = (r, s')"
  shows "length (sk_answers s') \<le> length (sk_answers s)"
    and "r \<noteq> Inl WouldBlock \<Longrightarrow> length (sk_answers s') < length (sk_answers s)"
  using assms by (auto elim!: sock_send_cases)

text \<open>
  \<^verbatim>\<open>readv\<close> into buffers of \<open>cap\<close> bytes: it returns a front part of what has arrived, the rest
  stays in the socket.
\<close>

definition sock_recv :: "nat \<Rightarrow> socket \<Rightarrow> (io_error + bytes) \<times> socket" where
  "sock_recv cap s =
     (case sk_arrivals s of
        [] \<Rightarrow> (Inl WouldBlock, s)
      | a # as \<Rightarrow>
          (case a of
             Arrives bs \<Rightarrow>
               (Inr (take cap bs),
                s\<lparr>sk_arrivals := (if length bs \<le> cap then as else Arrives (drop cap bs) # as)\<rparr>)
           | EndOfStream \<Rightarrow> (Inr [], s)
           | RecvInterrupted \<Rightarrow> (Inl Interrupted, s\<lparr>sk_arrivals := as\<rparr>)
           | RecvFails \<Rightarrow> (Inl OtherError, s\<lparr>sk_arrivals := as\<rparr>)))"

text \<open>The bytes that are still to arrive, up to the end of the stream.\<close>

fun arriving :: "recv_answer list \<Rightarrow> bytes" where
  "arriving [] = []"
| "arriving (Arrives bs # as) = bs @ arriving as"
| "arriving (EndOfStream # as) = []"
| "arriving (_ # as) = arriving as"

section \<open>Packets of the guest\<close>

text \<open>
  The payload of a guest packet is a list of slices of guest memory. \<open>payload_from\<close> gives the
  slices holding the bytes from an offset on; one call of \<^verbatim>\<open>sendmsg\<close> offers \<^verbatim>\<open>IOV_MAX\<close> of them
  at most.
\<close>

definition IOV_MAX :: nat where "IOV_MAX = 1024"

type_synonym payload = "bytes list"

definition payload_len :: "payload \<Rightarrow> nat" where
  "payload_len p = length (concat p)"

fun payload_from :: "nat \<Rightarrow> payload \<Rightarrow> bytes list" where
  "payload_from offset [] = []"
| "payload_from offset (sl # sls) =
     (if length sl \<le> offset then payload_from (offset - length sl) sls
      else drop offset sl # payload_from 0 sls)"

definition payload_send :: "payload \<Rightarrow> nat \<Rightarrow> socket \<Rightarrow> (io_error + nat) \<times> socket" where
  "payload_send p offset s = sock_send (concat (take IOV_MAX (payload_from offset p))) s"

definition payload_copy :: "payload \<Rightarrow> nat \<Rightarrow> bytes \<Rightarrow> bytes" where
  "payload_copy p offset out = out @ concat (payload_from offset p)"

section \<open>State\<close>

text \<open>
  Who learns that the guest accepted: a caller that waits on a channel, unless it gave up, or a
  client of the unix listener.
\<close>

datatype opener = Caller bool | Listener

record connection =
  c_socket :: socket
  c_guest_port :: u32
  c_host_port :: u32
  c_opener :: "opener option"
  c_established :: bool
  c_readable :: bool
  c_writable :: bool
  c_credit :: credit
  c_credit_requested :: bool
  c_forwarded :: u32
  c_advertised :: u32
  c_received :: u32
  c_incoming :: bytes
  c_peer_shutdown :: u32
  c_local_shutdown :: u32
  c_send_request :: bool
  c_send_shutdown :: u32
  c_send_credit_request :: bool
  c_send_credit_update :: bool
  c_deadline :: "nat option"

definition conn_header :: "connection \<Rightarrow> u16 \<Rightarrow> u32 \<Rightarrow> nat \<Rightarrow> header" where
  "conn_header c op flags len =
     \<lparr>h_src_cid = HOST_CID, h_dst_cid = GUEST_CID,
      h_src_port = c_host_port c, h_dst_port = c_guest_port c,
      h_len = word_of_nat len, h_kind = STREAM, h_op = op, h_flags = flags,
      h_buf_alloc = word_of_nat BUFFER_SIZE, h_fwd_cnt = c_forwarded c\<rparr>"

definition conn_stamp :: "connection \<Rightarrow> u16 \<Rightarrow> u32 \<Rightarrow> nat \<Rightarrow> header \<times> connection" where
  "conn_stamp c op flags len =
     (let c = c\<lparr>c_advertised := c_forwarded c, c_send_credit_update := False\<rparr>
      in (conn_header c op flags len, c))"

definition sends_data :: "connection \<Rightarrow> bool" where
  "sends_data c \<longleftrightarrow>
     c_established c \<and> c_local_shutdown c AND SEND = 0 \<and> c_peer_shutdown c AND RECEIVE = 0"

text \<open>The space the guest may still fill, as it sees it.\<close>

definition peer_window :: "connection \<Rightarrow> nat" where
  "peer_window c = BUFFER_SIZE - unat (c_received c - c_advertised c)"

section \<open>A packet from the guest\<close>

text \<open>
  The loop that hands a payload to the socket while nothing is queued ahead of it. It returns
  whether the connection stays, the connection, and the offset reached.
\<close>

function deliver :: "payload \<Rightarrow> nat \<Rightarrow> connection \<Rightarrow> bool \<times> connection \<times> nat" where
  "deliver p offset c =
     (if c_writable c \<and> c_incoming c = [] \<and> offset < payload_len p
      then
        case payload_send p offset (c_socket c) of
          (Inr n, s) \<Rightarrow>
            if n = 0 then (False, c\<lparr>c_socket := s\<rparr>, offset)
            else deliver p (offset + n)
                   (c\<lparr>c_socket := s, c_forwarded := c_forwarded c + word_of_nat n\<rparr>)
        | (Inl e, s) \<Rightarrow>
            if e = WouldBlock then deliver p offset (c\<lparr>c_socket := s, c_writable := False\<rparr>)
            else if e = Interrupted then deliver p offset (c\<lparr>c_socket := s\<rparr>)
            else (False, c\<lparr>c_socket := s\<rparr>, offset)
      else (True, c, offset))"
  by pat_completeness auto
termination
  by (relation "measure (\<lambda>(p, offset, c). 2 * length (sk_answers (c_socket c)) + of_bool (c_writable c))")
    (auto simp: payload_send_def dest!: sym [of "(_, _)"] dest: sock_send_answers)

declare deliver.simps [simp del]

text \<open>\<^verbatim>\<open>format!("OK {}\n", host_port)\<close>.\<close>

definition greeting :: "u32 \<Rightarrow> bytes" where
  "greeting port = ascii (''OK '' @ decimal (unat port) @ [CHR 0x0A])"

text \<open>
  \<^verbatim>\<open>receive\<close> returns whether the connection stays, the connection, and what was sent to the
  caller waiting for it.
\<close>

definition open_reply :: "connection \<Rightarrow> bool \<times> connection \<times> (io_error + unit) list" where
  "open_reply c =
     (let opener = c_opener c; c = c\<lparr>c_opener := None\<rparr>
      in case opener of
           Some (Caller waiting) \<Rightarrow> (waiting, c, if waiting then [Inr ()] else [])
         | Some Listener \<Rightarrow>
             (let (res, s) = sock_send (greeting (c_host_port c)) (c_socket c)
              in (res = Inr (length (greeting (c_host_port c))), c\<lparr>c_socket := s\<rparr>, []))
         | None \<Rightarrow> (False, c, []))"

definition receive_rw :: "payload \<Rightarrow> connection \<Rightarrow> bool \<times> connection" where
  "receive_rw p c =
     (if c_peer_shutdown c AND SEND \<noteq> 0 \<or> c_local_shutdown c AND RECEIVE \<noteq> 0 \<or>
         peer_window c < payload_len p
      then (False, c)
      else
        let c = c\<lparr>c_received := c_received c + word_of_nat (payload_len p)\<rparr>;
            (ok, c, offset) = deliver p 0 c
        in if \<not> ok then (False, c)
           else if offset < payload_len p
           then (True, c\<lparr>c_incoming := payload_copy p offset (c_incoming c)\<rparr>)
           else (True, c))"

definition conn_receive ::
  "header \<Rightarrow> payload \<Rightarrow> connection \<Rightarrow> bool \<times> connection \<times> (io_error + unit) list" where
  "conn_receive h p c =
     (case credit_update h (c_credit c) of
        (False, _) \<Rightarrow> (False, c, [])
      | (True, credit) \<Rightarrow>
          let c = c\<lparr>c_credit := credit\<rparr>;
              c = (if 0 < available credit then c\<lparr>c_credit_requested := False\<rparr> else c)
          in if \<not> c_established c then
               if h_op h \<noteq> RESPONSE then (False, c, [])
               else open_reply (c\<lparr>c_established := True, c_deadline := None\<rparr>)
             else if h_op h = RW then (case receive_rw p c of (ok, c) \<Rightarrow> (ok, c, []))
             else if h_op h = CREDIT_UPDATE then (True, c, [])
             else if h_op h = CREDIT_REQUEST then (True, c\<lparr>c_send_credit_update := True\<rparr>, [])
             else if h_op h = SHUTDOWN \<and> h_flags h \<noteq> 0 \<and> h_flags h AND NOT 3 = 0 then
               (let c = c\<lparr>c_peer_shutdown := c_peer_shutdown c OR h_flags h\<rparr>
                in (True,
                    if h_flags h AND RECEIVE \<noteq> 0
                    then c\<lparr>c_socket := sock_shutdown_read (c_socket c)\<rparr> else c, []))
             else (False, c, []))"

section \<open>Progress without a packet\<close>

text \<open>
  The loop that hands queued bytes to the socket. \<^verbatim>\<open>as_slices\<close> offers a front part of the
  queue; how much of what it is offered the kernel takes is open anyway, so the whole queue is
  offered.
\<close>

function flush :: "connection \<Rightarrow> (io_error + unit) \<times> connection" where
  "flush c =
     (if c_writable c \<and> c_incoming c \<noteq> []
      then
        case sock_send (c_incoming c) (c_socket c) of
          (Inr n, s) \<Rightarrow>
            if n = 0 then (Inl WriteZero, c\<lparr>c_socket := s\<rparr>)
            else flush (c\<lparr>c_socket := s, c_incoming := drop n (c_incoming c),
                          c_forwarded := c_forwarded c + word_of_nat n\<rparr>)
        | (Inl e, s) \<Rightarrow>
            if e = WouldBlock then flush (c\<lparr>c_socket := s, c_writable := False\<rparr>)
            else if e = Interrupted then flush (c\<lparr>c_socket := s\<rparr>)
            else (Inl e, c\<lparr>c_socket := s\<rparr>)
      else (Inr (), c))"
  by pat_completeness auto
termination
  by (relation "measure (\<lambda>c. 2 * length (sk_answers (c_socket c)) + of_bool (c_writable c))")
    (auto dest!: sym [of "(_, _)"] dest: sock_send_answers)

declare flush.simps [simp del]

definition half_close :: "connection \<Rightarrow> (io_error + unit) \<times> connection" where
  "half_close c =
     (if c_incoming c = [] \<and> c_peer_shutdown c AND SEND \<noteq> 0 \<and> c_local_shutdown c AND RECEIVE = 0
      then
        if sk_shutdown_fails (c_socket c) then (Inl OtherError, c)
        else (Inr (), c\<lparr>c_socket := (c_socket c)\<lparr>sk_shut_write := True\<rparr>,
                        c_local_shutdown := c_local_shutdown c OR RECEIVE\<rparr>)
      else (Inr (), c))"

text \<open>
  \<^verbatim>\<open>pump\<close> reads the clock twice, for the deadline that passed and for the one it sets; a pump
  happens at one instant \<open>now\<close> here.
\<close>

definition conn_pump :: "nat \<Rightarrow> connection \<Rightarrow> (io_error + bool) \<times> connection" where
  "conn_pump now c =
     (if (case c_deadline c of Some deadline \<Rightarrow> deadline \<le> now | None \<Rightarrow> False) then (Inr False, c)
      else if \<not> c_established c then (Inr True, c)
      else
        case flush c of
          (Inl e, c) \<Rightarrow> (Inl e, c)
        | (Inr _, c) \<Rightarrow>
            (case half_close c of
               (Inl e, c) \<Rightarrow> (Inl e, c)
             | (Inr _, c) \<Rightarrow>
                 if c_peer_shutdown c = 3 \<and> c_incoming c = [] then (Inr False, c)
                 else
                   let c = (if c_forwarded c \<noteq> c_advertised c \<and> peer_window c < MAX_PACKET
                            then c\<lparr>c_send_credit_update := True\<rparr> else c);
                       c = (if c_local_shutdown c = 3 \<and> c_deadline c = None
                            then c\<lparr>c_send_shutdown := 3,
                                   c_deadline := Some (now + HANDSHAKE_TIMEOUT)\<rparr> else c)
                   in (Inr True, c)))"

section \<open>Filling rx buffers\<close>

text \<open>
  The trait \<^verbatim>\<open>RxBuffers\<close>: the operations on the guest's rx buffers, over a state of their own.
  \<open>rx_put\<close> of a buffer that was not found is an index out of range, \<open>None\<close>.
\<close>

record 'b rx_ops =
  rx_room :: "nat \<Rightarrow> 'b \<Rightarrow> nat option \<times> 'b"
  rx_put :: "nat \<Rightarrow> header \<Rightarrow> 'b \<Rightarrow> 'b option"
  rx_recv :: "socket \<Rightarrow> nat \<Rightarrow> nat \<Rightarrow> 'b \<Rightarrow> (io_error + nat) \<times> socket \<times> 'b"

definition conn_control ::
  "'b rx_ops \<Rightarrow> nat \<Rightarrow> u16 \<Rightarrow> u32 \<Rightarrow> connection \<Rightarrow> 'b \<Rightarrow> (nat \<times> connection \<times> 'b) option" where
  "conn_control ops index op flags c b =
     (case conn_stamp c op flags 0 of
        (h, c) \<Rightarrow> do { b \<leftarrow> rx_put ops index h b; Some (1, c, b) })"

text \<open>The loop that puts a header in front of each part of what was read.\<close>

function put_headers ::
  "'b rx_ops \<Rightarrow> nat \<Rightarrow> nat \<Rightarrow> connection \<Rightarrow> 'b \<Rightarrow> (nat \<times> connection \<times> 'b) option" where
  "put_headers ops index left c b =
     (if left = 0 then Some (index, c, b)
      else
        case rx_room ops index b of
          (room, b) \<Rightarrow>
            let len = min (case room of Some k \<Rightarrow> k | None \<Rightarrow> 0) left
            in if len = 0 then Some (index, c, b)
               else
                 case conn_stamp c RW 0 len of
                   (h, c) \<Rightarrow>
                     Option.bind (rx_put ops index h b)
                       (\<lambda>b. put_headers ops (index + 1) (left - len) c b))"
  by pat_completeness auto
termination
  by (relation "measure (\<lambda>(ops, index, left, c, b). left)") auto

declare put_headers.simps [simp del]

text \<open>What follows a read: \<open>res\<close> is its result and \<open>c\<close> has the socket as the read left it.\<close>

definition fill_received ::
  "'b rx_ops \<Rightarrow> nat \<Rightarrow> io_error + nat \<Rightarrow> connection \<Rightarrow> 'b \<Rightarrow>
   ((io_error + nat) \<times> connection \<times> 'b) option" where
  "fill_received ops first res c b =
     (case res of
        Inr n \<Rightarrow>
          if n = 0 then
            do { (k, c, b) \<leftarrow> conn_control ops first SHUTDOWN SEND
                   (c\<lparr>c_readable := False, c_local_shutdown := c_local_shutdown c OR SEND\<rparr>) b;
                 Some (Inr k, c, b) }
          else
            do { (index, c, b) \<leftarrow> put_headers ops first n
                   (c\<lparr>c_credit := (c_credit c)\<lparr>cr_sent := cr_sent (c_credit c) + word_of_nat n\<rparr>\<rparr>) b;
                 Some (Inr (index - first), c, b) }
      | Inl e \<Rightarrow>
          if e = WouldBlock then Some (Inr 0, c\<lparr>c_readable := False\<rparr>, b)
          else if e = Interrupted then Some (Inr 0, c, b)
          else Some (Inl e, c, b))"

definition fill_data ::
  "'b rx_ops \<Rightarrow> nat \<Rightarrow> connection \<Rightarrow> 'b \<Rightarrow> ((io_error + nat) \<times> connection \<times> 'b) option" where
  "fill_data ops first c b =
     (if \<not> c_readable c \<or> \<not> sends_data c then Some (Inr 0, c, b)
      else
        case rx_room ops first b of
          (room, b) \<Rightarrow>
            if (case room of Some k \<Rightarrow> k | None \<Rightarrow> 0) = 0 then Some (Inr 0, c, b)
            else
              let credit = unat (available (c_credit c))
              in if credit = 0 then
                   Some (Inr 0,
                         if \<not> c_credit_requested c
                         then c\<lparr>c_credit_requested := True, c_send_credit_request := True\<rparr> else c,
                         b)
                 else
                   case rx_recv ops (c_socket c) first (min credit MAX_TURN) b of
                     (res, s, b) \<Rightarrow> fill_received ops first res (c\<lparr>c_socket := s\<rparr>) b)"

definition conn_fill ::
  "'b rx_ops \<Rightarrow> nat \<Rightarrow> connection \<Rightarrow> 'b \<Rightarrow> ((io_error + nat) \<times> connection \<times> 'b) option" where
  "conn_fill ops first c b =
     (if \<not> c_established c then
        if \<not> c_send_request c then Some (Inr 0, c, b)
        else do { (k, c, b) \<leftarrow> conn_control ops first REQUEST 0 (c\<lparr>c_send_request := False\<rparr>) b;
                  Some (Inr k, c, b) }
      else if c_send_shutdown c \<noteq> 0 then
        do { (k, c, b) \<leftarrow> conn_control ops first SHUTDOWN (c_send_shutdown c)
                            (c\<lparr>c_send_shutdown := 0\<rparr>) b;
             Some (Inr k, c, b) }
      else
        do { (res, c, b) \<leftarrow> fill_data ops first c b;
             case res of
               Inl e \<Rightarrow> Some (Inl e, c, b)
             | Inr used \<Rightarrow>
                 if 0 < used then Some (Inr used, c, b)
                 else if c_send_credit_request c then
                   do { (k, c, b) \<leftarrow> conn_control ops first CREDIT_REQUEST 0
                                       (c\<lparr>c_send_credit_request := False\<rparr>) b;
                        Some (Inr k, c, b) }
                 else if c_send_credit_update c then
                   do { (k, c, b) \<leftarrow> conn_control ops first CREDIT_UPDATE 0 c b;
                        Some (Inr k, c, b) }
                 else Some (Inr 0, c, b) })"

section \<open>Delivery to the host is lossless and in order\<close>

lemma concat_payload_from: "concat (payload_from offset p) = drop offset (concat p)"
  by (induction offset p rule: payload_from.induct) auto

lemma concat_take_prefix: "\<exists>n. concat (take k xss) = take n (concat xss)"
proof -
  have "concat xss = concat (take k xss) @ concat (drop k xss)"
    by (simp flip: concat_append)
  then show ?thesis by (metis append_eq_conv_conj)
qed

text \<open>What a socket does with an offer: nothing, or take a front part of it.\<close>

definition sends_part :: "socket \<Rightarrow> bytes \<Rightarrow> socket \<Rightarrow> bool" where
  "sends_part s bs s' \<longleftrightarrow>
     sk_sent s' = sk_sent s @ bs \<and> sk_arrivals s' = sk_arrivals s \<and>
     sk_shut_read s' = sk_shut_read s \<and> sk_shut_write s' = sk_shut_write s \<and>
     sk_shutdown_fails s' = sk_shutdown_fails s"

lemma sends_part_refl [simp]: "sends_part s [] s"
  by (simp add: sends_part_def)

lemma sends_part_trans: "sends_part s xs s' \<Longrightarrow> sends_part s' ys s'' \<Longrightarrow> sends_part s (xs @ ys) s''"
  by (simp add: sends_part_def)

lemma sock_send_part:
  assumes "sock_send bs s = (r, s')"
  shows "case r of Inr n \<Rightarrow> n \<le> length bs \<and> sends_part s (take n bs) s' | Inl _ \<Rightarrow> sends_part s [] s'"
  using assms by (elim sock_send_cases) (auto simp: sends_part_def min_def)

lemma payload_send_part:
  assumes "payload_send p offset s = (r, s')"
  shows "case r of
      Inr n \<Rightarrow> n \<le> payload_len p - offset \<and> sends_part s (take n (drop offset (concat p))) s'
    | Inl _ \<Rightarrow> sends_part s [] s'"
proof -
  obtain m where m: "concat (take IOV_MAX (payload_from offset p)) = take m (drop offset (concat p))"
    using concat_take_prefix [of IOV_MAX "payload_from offset p"] by (auto simp: concat_payload_from)
  show ?thesis
    using sock_send_part [OF assms [unfolded payload_send_def]]
    by (auto simp: m payload_len_def min_def split: sum.splits if_splits)
qed

text \<open>
  The delivery loop moves \<open>k\<close> bytes of the payload to the socket, counts exactly these as
  forwarded and touches nothing else but \<open>writable\<close>.
\<close>

definition delivered :: "bytes \<Rightarrow> nat \<Rightarrow> connection \<Rightarrow> connection \<Rightarrow> bool" where
  "delivered bs k c c' \<longleftrightarrow>
     k \<le> length bs \<and> sends_part (c_socket c) (take k bs) (c_socket c') \<and>
     c' = c\<lparr>c_socket := c_socket c', c_writable := c_writable c',
            c_forwarded := c_forwarded c + word_of_nat k\<rparr>"

lemma delivered_socket:
  "sends_part (c_socket c) [] s \<Longrightarrow> delivered bs 0 c (c\<lparr>c_socket := s\<rparr>)"
  by (simp add: delivered_def)

lemma delivered_blocked:
  "sends_part (c_socket c) [] s \<Longrightarrow> delivered bs 0 c (c\<lparr>c_socket := s, c_writable := False\<rparr>)"
  by (simp add: delivered_def)

lemma delivered_sent:
  "sends_part (c_socket c) (take n bs) s \<Longrightarrow> n \<le> length bs \<Longrightarrow>
   delivered bs n c (c\<lparr>c_socket := s, c_forwarded := c_forwarded c + word_of_nat n\<rparr>)"
  by (simp add: delivered_def)

lemma delivered_trans:
  assumes "delivered bs k c c'" "delivered (drop k bs) j c' c''"
  shows "delivered bs (k + j) c c''"
proof -
  have "sends_part (c_socket c) (take k bs @ take j (drop k bs)) (c_socket c'')"
    using assms sends_part_trans unfolding delivered_def by blast
  moreover have "c'' = c'\<lparr>c_socket := c_socket c'', c_writable := c_writable c'',
      c_forwarded := c_forwarded c' + word_of_nat j\<rparr>"
    and "c' = c\<lparr>c_socket := c_socket c', c_writable := c_writable c',
      c_forwarded := c_forwarded c + word_of_nat k\<rparr>"
    using assms by (simp_all add: delivered_def)
  then have "c'' = c\<lparr>c_socket := c_socket c'', c_writable := c_writable c'',
      c_forwarded := c_forwarded c + word_of_nat (k + j)\<rparr>"
    by (cases c; cases c'; cases c'') (simp add: algebra_simps)
  moreover have "k + j \<le> length bs"
    using assms unfolding delivered_def length_drop by linarith
  ultimately show ?thesis by (simp add: delivered_def take_add)
qed

lemma deliver_delivered:
  assumes "deliver p offset c = (ok, c', offset')" "offset \<le> payload_len p"
  shows "\<exists>k. offset' = offset + k \<and> delivered (drop offset (concat p)) k c c' \<and>
    (ok \<longrightarrow> offset' = payload_len p \<or> \<not> c_writable c' \<or> c_incoming c \<noteq> [])"
  using assms
proof (induction p offset c arbitrary: ok c' offset' rule: deliver.induct)
  case (1 p offset c)
  let ?bs = "drop offset (concat p)"
  show ?case
  proof (cases "c_writable c \<and> c_incoming c = [] \<and> offset < payload_len p")
    case False
    then show ?thesis
      using "1.prems" by (subst (asm) deliver.simps) (auto simp: delivered_def)
  next
    case go: True
    obtain r s where r: "payload_send p offset (c_socket c) = (r, s)" by fastforce
    note part = payload_send_part [OF r]
    show ?thesis
    proof (cases r)
      case (Inr n)
      show ?thesis
      proof (cases "n = 0")
        case True
        then show ?thesis
          using "1.prems" go r Inr part
          by (subst (asm) deliver.simps) (auto simp: delivered_socket)
      next
        case False
        let ?c = "c\<lparr>c_socket := s, c_forwarded := c_forwarded c + word_of_nat n\<rparr>"
        have rec: "deliver p (offset + n) ?c = (ok, c', offset')"
          using "1.prems" go r Inr False by (subst (asm) deliver.simps) simp
        have "offset + n \<le> payload_len p" using part Inr go by auto
        then obtain k where k: "offset' = offset + n + k"
            "delivered (drop (offset + n) (concat p)) k ?c c'"
            "ok \<longrightarrow> offset' = payload_len p \<or> \<not> c_writable c' \<or> c_incoming ?c \<noteq> []"
          using "1.IH"(3) [OF go r [symmetric] Inr False rec] by blast
        have "delivered ?bs n c ?c"
          using part Inr by (intro delivered_sent) (auto simp: payload_len_def)
        then have "delivered ?bs (n + k) c c'"
          by (rule delivered_trans) (use k(2) in \<open>simp add: add.commute\<close>)
        then show ?thesis using k by (auto intro!: exI [of _ "n + k"])
      qed
    next
      case (Inl e)
      then have s: "sends_part (c_socket c) [] s" using part by simp
      consider "e = WouldBlock" | "e = Interrupted" | "e \<noteq> WouldBlock" "e \<noteq> Interrupted" by blast
      then show ?thesis
      proof cases
        case 1
        let ?c = "c\<lparr>c_socket := s, c_writable := False\<rparr>"
        have "deliver p offset ?c = (ok, c', offset')"
          using "1.prems" go r Inl 1 by (subst (asm) deliver.simps) simp
        then have "ok" "c' = ?c" "offset' = offset" by (simp_all add: deliver.simps [of p offset ?c])
        then show ?thesis using delivered_blocked [OF s] by auto
      next
        case 2
        let ?c = "c\<lparr>c_socket := s\<rparr>"
        have rec: "deliver p offset ?c = (ok, c', offset')"
          using "1.prems" go r Inl 2 by (subst (asm) deliver.simps) simp
        have "e \<noteq> WouldBlock" using 2 by simp
        from "1.IH"(2) [OF go r [symmetric] Inl this 2 rec "1.prems"(2)]
        obtain k where "offset' = offset + k" "delivered ?bs k ?c c'"
            "ok \<longrightarrow> offset' = payload_len p \<or> \<not> c_writable c' \<or> c_incoming c \<noteq> []" by auto
        then show ?thesis
          using delivered_trans [OF delivered_socket [OF s], of ?bs k c'] by auto
      next
        case 3
        then have "c' = c\<lparr>c_socket := s\<rparr>" "offset' = offset" "\<not> ok"
          using "1.prems" go r Inl by (subst (asm) deliver.simps, simp)+
        then show ?thesis using delivered_socket [OF s] by auto
      qed
    qed
  qed
qed

text \<open>The same of the loop over the queue: what it sends leaves the queue.\<close>

definition flushed :: "nat \<Rightarrow> connection \<Rightarrow> connection \<Rightarrow> bool" where
  "flushed k c c' \<longleftrightarrow>
     k \<le> length (c_incoming c) \<and>
     sends_part (c_socket c) (take k (c_incoming c)) (c_socket c') \<and>
     c' = c\<lparr>c_socket := c_socket c', c_writable := c_writable c',
            c_forwarded := c_forwarded c + word_of_nat k,
            c_incoming := drop k (c_incoming c)\<rparr>"

lemma flushed_socket:
  "sends_part (c_socket c) [] s \<Longrightarrow> flushed 0 c (c\<lparr>c_socket := s\<rparr>)"
  by (simp add: flushed_def)

lemma flushed_trans:
  assumes "flushed k c c'" "flushed j c' c''"
  shows "flushed (k + j) c c''"
proof -
  have c': "c' = c\<lparr>c_socket := c_socket c', c_writable := c_writable c',
      c_forwarded := c_forwarded c + word_of_nat k, c_incoming := drop k (c_incoming c)\<rparr>"
    and c'': "c'' = c'\<lparr>c_socket := c_socket c'', c_writable := c_writable c'',
      c_forwarded := c_forwarded c' + word_of_nat j, c_incoming := drop j (c_incoming c')\<rparr>"
    using assms by (simp_all add: flushed_def)
  have inc: "c_incoming c' = drop k (c_incoming c)" by (subst c') simp
  have "sends_part (c_socket c) (take k (c_incoming c) @ take j (c_incoming c')) (c_socket c'')"
    using assms sends_part_trans unfolding flushed_def by blast
  moreover have "k + j \<le> length (c_incoming c)"
    using assms inc unfolding flushed_def by (metis diff_le_mono le_diff_conv2 add.commute length_drop)
  moreover have "c'' = c\<lparr>c_socket := c_socket c'', c_writable := c_writable c'',
      c_forwarded := c_forwarded c + word_of_nat (k + j),
      c_incoming := drop (k + j) (c_incoming c)\<rparr>"
    using c' c'' by (cases c; cases c'; cases c'') (simp add: algebra_simps)
  ultimately show ?thesis by (simp add: flushed_def take_add inc)
qed

lemma flush_flushed:
  assumes "flush c = (r, c')"
  shows "\<exists>k. flushed k c c' \<and> (r = Inr () \<longrightarrow> c_incoming c' = [] \<or> \<not> c_writable c')"
  using assms
proof (induction c arbitrary: r c' rule: flush.induct)
  case (1 c)
  show ?case
  proof (cases "c_writable c \<and> c_incoming c \<noteq> []")
    case False
    then show ?thesis
      using "1.prems" flushed_socket [of c "c_socket c"]
      by (subst (asm) flush.simps) (auto intro!: exI [of _ 0])
  next
    case go: True
    obtain a s where a: "sock_send (c_incoming c) (c_socket c) = (a, s)" by fastforce
    note part = sock_send_part [OF a]
    show ?thesis
    proof (cases a)
      case (Inr n)
      let ?c = "c\<lparr>c_socket := s, c_incoming := drop n (c_incoming c),
                  c_forwarded := c_forwarded c + word_of_nat n\<rparr>"
      have step: "flushed n c ?c" using part Inr by (auto simp: flushed_def)
      show ?thesis
      proof (cases "n = 0")
        case True
        then have "sends_part (c_socket c) [] s" using part Inr by simp
        moreover have "r = Inl WriteZero" "c' = c\<lparr>c_socket := s\<rparr>"
          using "1.prems" go a Inr True by (subst (asm) flush.simps, simp)+
        ultimately show ?thesis using flushed_socket by blast
      next
        case False
        have "flush ?c = (r, c')"
          using "1.prems" go a Inr False by (subst (asm) flush.simps) simp
        from "1.IH"(3) [OF go a [symmetric] Inr False this] flushed_trans [OF step]
        show ?thesis by blast
      qed
    next
      case (Inl e)
      then have s: "sends_part (c_socket c) [] s" using part by simp
      consider "e = WouldBlock" | "e = Interrupted" | "e \<noteq> WouldBlock" "e \<noteq> Interrupted" by blast
      then show ?thesis
      proof cases
        case 1
        let ?c = "c\<lparr>c_socket := s, c_writable := False\<rparr>"
        have "flush ?c = (r, c')"
          using "1.prems" go a Inl 1 by (subst (asm) flush.simps) simp
        then have "c' = ?c" by (simp add: flush.simps [of ?c])
        then show ?thesis using s by (auto simp: flushed_def intro!: exI [of _ 0])
      next
        case 2
        then have "e \<noteq> WouldBlock" by simp
        moreover have "flush (c\<lparr>c_socket := s\<rparr>) = (r, c')"
          using "1.prems" go a Inl 2 by (subst (asm) flush.simps) simp
        ultimately show ?thesis
          using "1.IH"(2) [OF go a [symmetric] Inl _ 2] flushed_trans [OF flushed_socket [OF s]]
          by blast
      next
        case 3
        then have "c' = c\<lparr>c_socket := s\<rparr>" "r = Inl e"
          using "1.prems" go a Inl by (subst (asm) flush.simps, simp)+
        then show ?thesis using flushed_socket [OF s] by blast
      qed
    qed
  qed
qed

section \<open>The invariant of a connection\<close>

text \<open>
  The bytes queued for the host socket are exactly those received and not forwarded, and together
  with those forwarded but not yet advertised they fit the buffer the guest was promised.
\<close>

definition unadvertised :: "connection \<Rightarrow> nat" where
  "unadvertised c = unat (c_forwarded c - c_advertised c)"

definition conn_inv :: "connection \<Rightarrow> bool" where
  "conn_inv c \<longleftrightarrow>
     c_received c = c_forwarded c + word_of_nat (length (c_incoming c)) \<and>
     length (c_incoming c) + unadvertised c \<le> BUFFER_SIZE \<and>
     (\<not> c_established c \<longrightarrow> c_incoming c = [])"

text \<open>The bytes of the guest this connection has taken, in order: sent, then queued.\<close>

definition taken :: "connection \<Rightarrow> bytes" where
  "taken c = sk_sent (c_socket c) @ c_incoming c"

lemma unat_add_small:
  "unat (a :: u32) + n \<le> BUFFER_SIZE \<Longrightarrow> unat (a + word_of_nat n) = unat a + n"
  by (simp add: unat_word_ariths unat_of_nat BUFFER_SIZE_def)

lemma peer_window_eq:
  assumes "conn_inv c"
  shows "peer_window c = BUFFER_SIZE - (length (c_incoming c) + unadvertised c)"
proof -
  let ?k = "length (c_incoming c)"
  have "c_received c - c_advertised c = (c_forwarded c - c_advertised c) + word_of_nat ?k"
    using assms by (simp add: conn_inv_def)
  moreover have "unat (c_forwarded c - c_advertised c) + ?k \<le> BUFFER_SIZE"
    using assms by (simp add: conn_inv_def unadvertised_def)
  ultimately show ?thesis
    using unat_add_small [of "c_forwarded c - c_advertised c" ?k]
    by (simp only: peer_window_def unadvertised_def add.commute)
qed

lemma unadvertised_forward:
  assumes "unadvertised c + k \<le> BUFFER_SIZE"
  shows "unat (c_forwarded c + word_of_nat k - c_advertised c) = unadvertised c + k"
proof -
  have "c_forwarded c + word_of_nat k - c_advertised c
      = (c_forwarded c - c_advertised c) + word_of_nat k" by simp
  then show ?thesis
    using unat_add_small [of "c_forwarded c - c_advertised c" k] assms
    by (simp only: unadvertised_def)
qed

lemma flushed_inv:
  assumes "flushed k c c'" "conn_inv c"
  shows "conn_inv c' \<and> taken c' = taken c"
proof -
  let ?q = "c_incoming c"
  have c': "c' = c\<lparr>c_socket := c_socket c', c_writable := c_writable c',
      c_forwarded := c_forwarded c + word_of_nat k, c_incoming := drop k ?q\<rparr>"
    and sent: "sk_sent (c_socket c') = sk_sent (c_socket c) @ take k ?q" and k: "k \<le> length ?q"
    using assms(1) by (simp_all add: flushed_def sends_part_def)
  have f: "c_incoming c' = drop k ?q" "c_forwarded c' = c_forwarded c + word_of_nat k"
    "c_received c' = c_received c" "c_advertised c' = c_advertised c"
    "c_established c' = c_established c"
    by (subst c', simp)+
  have "(word_of_nat (length ?q) :: u32) = word_of_nat k + word_of_nat (length ?q - k)"
    using k by (simp flip: of_nat_add)
  moreover have "unadvertised c + k \<le> BUFFER_SIZE" using assms(2) k by (simp add: conn_inv_def)
  then have "unadvertised c' = unadvertised c + k"
    using unadvertised_forward [of c k] by (simp add: unadvertised_def f)
  ultimately have "conn_inv c'" using assms(2) k by (auto simp: conn_inv_def f)
  then show ?thesis by (simp add: taken_def f sent)
qed

lemma receive_rw_ok:
  assumes "receive_rw p c = (True, c')" "conn_inv c" "c_established c"
  shows "conn_inv c' \<and> taken c' = taken c @ concat p"
proof -
  let ?n = "payload_len p" and ?q = "c_incoming c"
  define c1 where "c1 = c\<lparr>c_received := c_received c + word_of_nat ?n\<rparr>"
  have win: "length ?q + unadvertised c + ?n \<le> BUFFER_SIZE"
    using assms(1) peer_window_eq [OF assms(2)] assms(2)
    by (auto simp: receive_rw_def conn_inv_def Let_def split: if_splits)
  obtain ok c2 offset where d: "deliver p 0 c1 = (ok, c2, offset)" by (metis prod_cases3)
  have ok: "ok" and c': "c' = (if offset < ?n
      then c2\<lparr>c_incoming := c_incoming c2 @ drop offset (concat p)\<rparr> else c2)"
    using assms(1) d
    by (auto simp: receive_rw_def c1_def payload_copy_def concat_payload_from split: if_splits)
  from deliver_delivered [OF d] obtain k where k: "offset = k" "delivered (concat p) k c1 c2" by auto
  have kn: "k \<le> ?n" and sent: "sk_sent (c_socket c2) = sk_sent (c_socket c) @ take k (concat p)"
    and c2: "c2 = c1\<lparr>c_socket := c_socket c2, c_writable := c_writable c2,
            c_forwarded := c_forwarded c1 + word_of_nat k\<rparr>"
    using k(2) by (simp_all add: delivered_def payload_len_def sends_part_def c1_def)
  have zero: "?q \<noteq> [] \<Longrightarrow> k = 0"
    using d k(1) by (subst (asm) deliver.simps) (simp add: c1_def)
  have f2: "c_incoming c2 = ?q" "c_forwarded c2 = c_forwarded c + word_of_nat k"
    "c_received c2 = c_received c + word_of_nat ?n" "c_advertised c2 = c_advertised c"
    "c_established c2 = c_established c"
    by (subst c2, simp add: c1_def)+
  have f: "c_incoming c' = ?q @ drop k (concat p)" "c_forwarded c' = c_forwarded c2"
    "c_received c' = c_received c2" "c_advertised c' = c_advertised c2" "c_socket c' = c_socket c2"
    "c_established c' = c_established c2"
    using kn by (simp_all add: c' k(1) f2 payload_len_def)
  have "(word_of_nat (length ?q) :: u32) + word_of_nat ?n
      = word_of_nat k + word_of_nat (length ?q + (?n - k))"
    using kn by (simp flip: of_nat_add)
  then have "c_received c' = c_forwarded c' + word_of_nat (length (c_incoming c'))"
    using assms(2) by (simp add: f f2 conn_inv_def payload_len_def algebra_simps)
  moreover have "unadvertised c' = unadvertised c + k"
    using unadvertised_forward [of c k] win kn by (simp add: unadvertised_def f f2)
  then have "length (c_incoming c') + unadvertised c' \<le> BUFFER_SIZE"
    using win kn by (simp add: f payload_len_def)
  moreover have "sk_sent (c_socket c') @ c_incoming c' = sk_sent (c_socket c) @ ?q @ concat p"
    using zero by (cases "?q = []") (simp_all add: f sent)
  ultimately show ?thesis using assms(3) by (simp add: conn_inv_def taken_def f f2)
qed

lemma conn_inv_cong:
  "c_received c' = c_received c \<Longrightarrow> c_forwarded c' = c_forwarded c \<Longrightarrow>
   c_advertised c' = c_advertised c \<Longrightarrow> c_incoming c' = c_incoming c \<Longrightarrow>
   c_established c' = c_established c \<Longrightarrow> conn_inv c' = conn_inv c"
  by (simp add: conn_inv_def unadvertised_def)

lemma conn_inv_advertise:
  "conn_inv c \<Longrightarrow> conn_inv (c\<lparr>c_advertised := c_forwarded c, c_send_credit_update := False\<rparr>)"
  by (auto simp: conn_inv_def unadvertised_def)

text \<open>
  What a packet of the guest adds to the bytes taken from it; the answer to a client of the unix
  listener goes ahead of them all.
\<close>

definition added :: "header \<Rightarrow> payload \<Rightarrow> connection \<Rightarrow> bytes" where
  "added h p c =
     (if c_established c then if h_op h = RW then concat p else []
      else if c_opener c = Some Listener then greeting (c_host_port c) else [])"

lemma open_reply_ok:
  assumes "open_reply c = (True, c', replies)" "conn_inv c" "c_incoming c = []"
  shows "conn_inv c' \<and>
    taken c' = taken c @ (if c_opener c = Some Listener then greeting (c_host_port c) else [])"
proof (cases "c_opener c = Some Listener")
  case True
  let ?g = "greeting (c_host_port c)"
  obtain r s where r: "sock_send ?g (c_socket c) = (r, s)" by fastforce
  have "r = Inr (length ?g)" "c' = c\<lparr>c_opener := None, c_socket := s\<rparr>"
    using assms(1) True r by (auto simp: open_reply_def Let_def)
  moreover from this have "sk_sent s = sk_sent (c_socket c) @ ?g"
    using sock_send_part [OF r] by (simp add: sends_part_def)
  ultimately show ?thesis
    using assms(2,3) True by (auto simp: conn_inv_def unadvertised_def taken_def)
next
  case False
  then have "c' = c\<lparr>c_opener := None\<rparr>"
    using assms(1) by (auto simp: open_reply_def Let_def split: option.splits opener.splits)
  then show ?thesis using assms(2) False by (auto simp: conn_inv_def unadvertised_def taken_def)
qed

lemma conn_receive_ok:
  assumes "conn_receive h p c = (True, c', replies)" "conn_inv c"
  shows "conn_inv c' \<and> taken c' = taken c @ added h p c"
proof -
  obtain credit where credit: "credit_update h (c_credit c) = (True, credit)"
    using assms(1) by (cases "credit_update h (c_credit c)") (auto simp: conn_receive_def split: bool.splits)
  define c1 where "c1 = (let c = c\<lparr>c_credit := credit\<rparr>
    in if 0 < available credit then c\<lparr>c_credit_requested := False\<rparr> else c)"
  have c1: "conn_inv c1" "taken c1 = taken c" "c_established c1 = c_established c"
      "c_opener c1 = c_opener c" "c_host_port c1 = c_host_port c" "c_incoming c1 = c_incoming c"
    using assms(2) by (auto simp: c1_def Let_def conn_inv_def unadvertised_def taken_def)
  note unfold = conn_receive_def credit prod.case bool.case Let_def c1_def [unfolded Let_def, symmetric]
  show ?thesis
  proof (cases "c_established c1")
    case False
    let ?c = "c1\<lparr>c_established := True, c_deadline := None\<rparr>"
    have "open_reply ?c = (True, c', replies)"
      using assms(1) False by (simp add: unfold split: if_splits)
    moreover have "conn_inv ?c" "taken ?c = taken c1" "c_incoming ?c = []"
      using c1 False assms(2) by (auto simp: conn_inv_def unadvertised_def taken_def)
    ultimately show ?thesis using open_reply_ok [of ?c c' replies] c1 False by (simp add: added_def)
  next
    case est: True
    show ?thesis
    proof (cases "h_op h = RW")
      case True
      then have "receive_rw p c1 = (True, c')"
        using assms(1) est by (simp add: unfold split: prod.splits)
      then show ?thesis using receive_rw_ok [of p c1 c'] c1 est True by (simp add: added_def)
    next
      case False
      then have "conn_inv c' \<and> taken c' = taken c1"
        using assms(1) est c1(1)
        by (auto simp: unfold conn_inv_def unadvertised_def taken_def sock_shutdown_read_def
            split: if_splits)
      then show ?thesis using False c1 est by (simp add: added_def)
    qed
  qed
qed

text \<open>A connection keeps its ports.\<close>

definition same_ports :: "connection \<Rightarrow> connection \<Rightarrow> bool" where
  "same_ports c c' \<longleftrightarrow> c_host_port c' = c_host_port c \<and> c_guest_port c' = c_guest_port c"

lemma delivered_ports: "delivered bs k c c' \<Longrightarrow> same_ports c c' \<and> c_opener c' = c_opener c"
  unfolding delivered_def same_ports_def
  by (elim conjE, drule arg_cong [where f = "\<lambda>c. (c_host_port c, c_guest_port c, c_opener c)"]) simp

lemma flushed_ports: "flushed k c c' \<Longrightarrow> same_ports c c' \<and> c_opener c' = c_opener c"
  unfolding flushed_def same_ports_def
  by (elim conjE, drule arg_cong [where f = "\<lambda>c. (c_host_port c, c_guest_port c, c_opener c)"]) simp

lemma receive_rw_ports:
  assumes "receive_rw p c = (ok, c')"
  shows "same_ports c c' \<and> c_opener c' = c_opener c"
proof -
  let ?c = "c\<lparr>c_received := c_received c + word_of_nat (payload_len p)\<rparr>"
  obtain ok1 c1 k where d: "deliver p 0 ?c = (ok1, c1, k)" by (metis prod_cases3)
  have "same_ports ?c c1 \<and> c_opener c1 = c_opener ?c"
    using deliver_delivered [OF d] delivered_ports by blast
  then show ?thesis using assms d by (auto simp: receive_rw_def same_ports_def split: if_splits)
qed

lemma open_reply_ports:
  assumes "open_reply c = (ok, c', replies)"
  shows "same_ports c c'"
  using assms
  by (auto simp: open_reply_def Let_def same_ports_def split: option.splits opener.splits prod.splits)

lemma conn_receive_ports:
  assumes "conn_receive h p c = (ok, c', replies)"
  shows "same_ports c c'"
proof (cases "credit_update h (c_credit c)")
  case (Pair good credit)
  define c1 where "c1 = (let c = c\<lparr>c_credit := credit\<rparr>
    in if 0 < available credit then c\<lparr>c_credit_requested := False\<rparr> else c)"
  have c1: "same_ports c c1" by (auto simp: c1_def Let_def same_ports_def)
  show ?thesis
  proof (cases good)
    case False
    then show ?thesis using assms Pair by (simp add: conn_receive_def same_ports_def)
  next
    case True
    note unfold = conn_receive_def Pair True prod.case bool.case Let_def
      c1_def [unfolded Let_def, symmetric]
    have tr: "same_ports c1 c2 \<Longrightarrow> same_ports c c2" for c2 using c1 by (simp add: same_ports_def)
    have opened: "same_ports c c2"
      if "open_reply (c1\<lparr>c_established := True, c_deadline := None\<rparr>) = (o2, c2, r2)" for o2 c2 r2
      using open_reply_ports [OF that] by (intro tr) (simp add: same_ports_def)
    have rw: "same_ports c c2" if "receive_rw p c1 = (o2, c2)" for o2 c2
      using receive_rw_ports [OF that] by (intro tr) simp
    show ?thesis
    proof (cases "c_established c1")
      case False
      then show ?thesis using assms opened c1 by (simp add: unfold split: if_splits)
    next
      case est: True
      show ?thesis
      proof (cases "h_op h = RW")
        case True
        then show ?thesis using assms est by (auto simp: unfold rw split: prod.splits)
      next
        case False
        have "same_ports c1 c'"
          using assms est False by (simp add: unfold same_ports_def split: if_splits) auto
        then show ?thesis by (rule tr)
      qed
    qed
  qed
qed

text \<open>Who opened a connection is told once, by the first packet of the guest.\<close>

lemma open_reply_opener:
  assumes "open_reply c = (ok, c', replies)"
  shows "c_opener c' = None \<and> replies = (if c_opener c = Some (Caller True) then [Inr ()] else [])"
  using assms by (auto simp: open_reply_def Let_def split: option.splits opener.splits prod.splits)

lemma conn_receive_opener:
  assumes "conn_receive h p c = (ok, c', replies)"
  shows "c_opener c' = c_opener c \<and> replies = [] \<or>
    c_opener c' = None \<and> replies = (if c_opener c = Some (Caller True) then [Inr ()] else [])"
proof (cases "credit_update h (c_credit c)")
  case (Pair good credit)
  define c1 where "c1 = (let c = c\<lparr>c_credit := credit\<rparr>
    in if 0 < available credit then c\<lparr>c_credit_requested := False\<rparr> else c)"
  have c1: "c_opener c1 = c_opener c" by (auto simp: c1_def Let_def)
  note unfold = conn_receive_def Pair prod.case bool.case Let_def c1_def [unfolded Let_def, symmetric]
  consider (bad) "\<not> good" | (handshake) "good" "\<not> c_established c1" | (rw) "good" "c_established c1" "h_op h = RW"
    | (other) "good" "c_established c1" "h_op h \<noteq> RW" by blast
  then show ?thesis
  proof cases
    case bad
    then show ?thesis using assms by (simp add: unfold)
  next
    case handshake
    then show ?thesis
      using assms c1 open_reply_opener [of "c1\<lparr>c_established := True, c_deadline := None\<rparr>"]
      by (simp add: unfold split: if_splits)
  next
    case rw
    then show ?thesis using assms c1 receive_rw_ports by (auto simp: unfold split: prod.splits)
  next
    case other
    then show ?thesis using assms c1 by (simp add: unfold split: if_splits) auto
  qed
qed

text \<open>Pumping keeps it too, whether the connection stays or not.\<close>

lemma conn_pump_ok:
  assumes "conn_pump now c = (r, c')" "conn_inv c"
  shows "conn_inv c' \<and> taken c' = taken c \<and> same_ports c c' \<and> c_opener c' = c_opener c"
proof (cases "(case c_deadline c of Some deadline \<Rightarrow> deadline \<le> now | None \<Rightarrow> False) \<or> \<not> c_established c")
  case True
  then have "c' = c" using assms(1) by (auto simp: conn_pump_def split: if_splits)
  then show ?thesis using assms(2) by (simp add: same_ports_def)
next
  case False
  obtain r1 c1 where f: "flush c = (r1, c1)" by fastforce
  obtain r2 c2 where h: "half_close c1 = (r2, c2)" by fastforce
  obtain k where "flushed k c c1" using flush_flushed [OF f] by blast
  then have c1: "conn_inv c1" "taken c1 = taken c" "same_ports c c1" "c_opener c1 = c_opener c"
    using flushed_inv flushed_ports assms(2) by auto
  have c2: "conn_inv c2" "taken c2 = taken c" "same_ports c c2" "c_opener c2 = c_opener c"
    using h c1
    by (auto simp: half_close_def conn_inv_def unadvertised_def taken_def same_ports_def split: if_splits)
  define c3 where "c3 = (if c_forwarded c2 \<noteq> c_advertised c2 \<and> peer_window c2 < MAX_PACKET
    then c2\<lparr>c_send_credit_update := True\<rparr> else c2)"
  define c4 where "c4 = (if c_local_shutdown c3 = 3 \<and> c_deadline c3 = None
    then c3\<lparr>c_send_shutdown := 3, c_deadline := Some (now + HANDSHAKE_TIMEOUT)\<rparr> else c3)"
  have c3: "conn_inv c3" "taken c3 = taken c" "same_ports c c3" "c_opener c3 = c_opener c"
    using c2 by (auto simp: c3_def conn_inv_def unadvertised_def taken_def same_ports_def)
  then have c4: "conn_inv c4" "taken c4 = taken c" "same_ports c c4" "c_opener c4 = c_opener c"
    by (auto simp: c4_def conn_inv_def unadvertised_def taken_def same_ports_def)
  have "c' = c1 \<or> c' = c2 \<or> c' = c4"
  proof (cases r1)
    case r1: (Inr a)
    show ?thesis
    proof (cases r2)
      case (Inr b)
      have "snd (conn_pump now c) = (if c_peer_shutdown c2 = 3 \<and> c_incoming c2 = [] then c2 else c4)"
        using False by (simp add: conn_pump_def f h r1 Inr Let_def c4_def c3_def)
      then show ?thesis using assms(1) by (simp split: if_splits)
    next
      case (Inl e)
      have "snd (conn_pump now c) = c2" using False by (simp add: conn_pump_def f h r1 Inl)
      then show ?thesis using assms(1) by simp
    qed
  next
    case (Inl e)
    have "snd (conn_pump now c) = c1" using False by (simp add: conn_pump_def f Inl)
    then show ?thesis using assms(1) by simp
  qed
  then show ?thesis using c1 c2 c4 by auto
qed

end
