(* ===== verification/Vsock_Fill.thy ===== *)
theory Vsock_Fill
  imports Vsock_Connection
begin

text \<open>
  What a connection does with the rx buffers of the guest. The buffers are an interface, the
  trait \<^verbatim>\<open>RxBuffers\<close> of \<^verbatim>\<open>crates/shuru-linux/src/kvm/vsock/connection.rs\<close>: the locale
  \<open>rx_buffers\<close> states its contract, and the lemmas on \<open>conn_fill\<close> rest on it alone.
\<close>

section \<open>The contract of the rx buffers\<close>

text \<open>
  \<open>rooms\<close> are the payload rooms of the buffers found so far and \<open>lens\<close> how many bytes of each
  hold a packet. Asking for the room of a buffer may find more of them, up to a limit, and never
  changes one found before. \<open>rx_recv\<close> reads from the socket once, into no more than \<open>max\<close> bytes
  and no more than the buffers from \<open>first\<close> on hold up to the first one with no room, and into
  at least one byte when there is one, since a read of nothing would look like the end of the
  stream. \<open>holds b i ls bs\<close> says that the buffers from \<open>i\<close> on hold the bytes \<open>bs\<close> in parts of \<open>ls\<close>
  bytes, and \<open>stamped b i h\<close> that buffer \<open>i\<close> has the header \<open>h\<close>: a read fills the buffers in order,
  and putting a header disturbs neither payloads nor the headers of other buffers.
\<close>

definition usable :: "nat list \<Rightarrow> nat" where
  "usable rs = sum_list (takeWhile (\<lambda>r. 0 < r) rs)"

text \<open>How many bytes each of the buffers of the given rooms gets when \<open>n\<close> bytes fill them in order.\<close>

fun spread :: "nat \<Rightarrow> nat list \<Rightarrow> nat list" where
  "spread n [] = []"
| "spread n (r # rs) = (if n = 0 \<or> r = 0 then [] else min r n # spread (n - min r n) rs)"

lemma spread_0 [simp]: "spread 0 rs = []"
  by (cases rs) simp_all

text \<open>
  The bytes \<open>bs\<close> are in packets of the connection: payloads of \<open>ls\<close> bytes in the buffers from \<open>first\<close>
  on, each with a data header of its length.
\<close>

definition data_header :: "connection \<Rightarrow> nat \<Rightarrow> (header \<Rightarrow> bool) \<Rightarrow> bool" where
  "data_header c n stamped_as \<longleftrightarrow>
     (\<exists>h. stamped_as h \<and> h_op h = RW \<and> unat (h_len h) = n \<and>
        h_src_port h = c_host_port c \<and> h_dst_port h = c_guest_port c)"

definition packed ::
  "('b \<Rightarrow> nat \<Rightarrow> nat list \<Rightarrow> bytes \<Rightarrow> bool) \<Rightarrow> ('b \<Rightarrow> nat \<Rightarrow> header \<Rightarrow> bool) \<Rightarrow>
   nat \<Rightarrow> connection \<Rightarrow> 'b \<Rightarrow> nat list \<Rightarrow> bytes \<Rightarrow> bool" where
  "packed holds stamped first c b ls bs \<longleftrightarrow>
     holds b first ls bs \<and>
     (\<forall>j < length ls. data_header c (ls ! j) (stamped b (first + j)))"

text \<open>
  What filling buffers from \<open>first\<close> on has to achieve, with \<open>ls\<close> the payload lengths of the packets
  put there: the packets carry exactly the bytes that left the host socket (\<open>held\<close>), these are within the
  credit of the guest and counted as in flight, and buffers before \<open>first\<close> stay as they are.
\<close>

definition filled ::
  "nat list \<Rightarrow> nat list \<Rightarrow> (nat list \<Rightarrow> bytes \<Rightarrow> bool) \<Rightarrow> nat \<Rightarrow> connection \<Rightarrow> connection \<Rightarrow> nat list \<Rightarrow> bool" where
  "filled before after held first c c' ls \<longleftrightarrow>
     take first after = take first before \<and>
     take (length ls) (drop first after) = map ((+) HEADER_LEN) ls \<and>
     (\<exists>bs. arriving (sk_arrivals (c_socket c)) = bs @ arriving (sk_arrivals (c_socket c')) \<and>
           length bs = sum_list ls \<and> (bs \<noteq> [] \<longrightarrow> held ls bs)) \<and>
     sum_list ls \<le> unat (available (c_credit c)) \<and>
     in_flight (c_credit c') = in_flight (c_credit c) + sum_list ls \<and>
     cr_peer_alloc (c_credit c') = cr_peer_alloc (c_credit c) \<and>
     (conn_inv c \<longrightarrow> conn_inv c') \<and> taken c' = taken c \<and>
     same_ports c c' \<and> c_opener c' = c_opener c"

lemma filled_before:
  assumes "filled (lens1 :: nat list) lens2 held first c c' ls" "first \<le> length lens0" "prefix lens0 lens1"
  shows "filled lens0 lens2 held first c c' ls"
  using assms by (auto simp: filled_def prefix_def)

lemma filled_nil: "filled before after held first c c' [] \<Longrightarrow> filled before after held' first c c' []"
  by (simp add: filled_def)

text \<open>Flags that say what to send next are free to change.\<close>

definition same_flow :: "connection \<Rightarrow> connection \<Rightarrow> bool" where
  "same_flow c c' \<longleftrightarrow>
     arriving (sk_arrivals (c_socket c')) = arriving (sk_arrivals (c_socket c)) \<and>
     c_credit c' = c_credit c \<and> (conn_inv c \<longrightarrow> conn_inv c') \<and> taken c' = taken c \<and>
     same_ports c c' \<and> c_opener c' = c_opener c"

lemma filled_none: "same_flow c c' \<Longrightarrow> take first after = take first before \<Longrightarrow> filled before after held first c c' []"
  by (simp add: filled_def same_flow_def same_ports_def)

lemma filled_flow:
  "same_flow c c1 \<Longrightarrow> filled before after held first c1 c' ls \<Longrightarrow> filled before after held first c c' ls"
  by (simp add: filled_def same_flow_def same_ports_def)

lemma same_flow_flags:
  "same_flow c (c\<lparr>c_credit_requested := x, c_send_credit_request := y\<rparr>)"
  "same_flow c (c\<lparr>c_send_request := x\<rparr>)" "same_flow c (c\<lparr>c_send_shutdown := f\<rparr>)"
  "same_flow c (c\<lparr>c_send_credit_request := x\<rparr>)" "same_flow c c"
  by (auto simp: same_flow_def same_ports_def conn_inv_def unadvertised_def taken_def)

lemma same_flow_socket:
  "arriving (sk_arrivals s) = arriving (sk_arrivals (c_socket c)) \<Longrightarrow> sk_sent s = sk_sent (c_socket c) \<Longrightarrow>
   same_flow c (c\<lparr>c_socket := s, c_readable := x, c_local_shutdown := f\<rparr>)"
  by (auto simp: same_flow_def same_ports_def conn_inv_def unadvertised_def taken_def)

lemma filled_trans:
  assumes "filled before mid held' first c c1 []" "filled mid after held first c1 c' ls"
  shows "filled before after held first c c' ls"
proof -
  have "unat (available (c_credit c1)) = unat (available (c_credit c))"
    using assms(1) by (simp add: filled_def unat_available)
  then show ?thesis using assms by (simp add: filled_def same_ports_def)
qed

lemma sock_recv_arriving:
  assumes "sock_recv cap s = (r, s')"
  shows "sk_sent s' = sk_sent s \<and>
    (case r of
       Inr bs \<Rightarrow> length bs \<le> cap \<and> arriving (sk_arrivals s) = bs @ arriving (sk_arrivals s')
     | Inl e \<Rightarrow> arriving (sk_arrivals s) = arriving (sk_arrivals s'))"
  using assms by (auto simp: sock_recv_def split: list.splits recv_answer.splits)

text \<open>
  The outcome of filling from a buffer on, as a client of the contract may rely on it: it does not
  panic, and the number of buffers it reports is the number of packets it put.
\<close>

definition fill_post ::
  "('b \<Rightarrow> nat list) \<Rightarrow> ('b \<Rightarrow> nat list) \<Rightarrow> ('b \<Rightarrow> nat list \<Rightarrow> bytes \<Rightarrow> bool) \<Rightarrow> ('b \<Rightarrow> bool) \<Rightarrow>
   nat \<Rightarrow> connection \<Rightarrow> 'b \<Rightarrow> ((io_error + nat) \<times> connection \<times> 'b) option \<Rightarrow> bool" where
  "fill_post rooms lens held valid first c b out \<longleftrightarrow>
     (\<exists>res c' b' ls. out = Some (res, c', b') \<and>
        valid b' \<and> prefix (rooms b) (rooms b') \<and> first + length ls \<le> length (rooms b') \<and>
        filled (lens b) (lens b') (held b') first c c' ls \<and>
        (case res of Inr used \<Rightarrow> used = length ls | Inl e \<Rightarrow> ls = []))"

lemma fill_post_used:
  "out = Some (Inr (length ls), c', b') \<Longrightarrow> valid b' \<Longrightarrow> prefix (rooms b) (rooms b') \<Longrightarrow>
   first + length ls \<le> length (rooms b') \<Longrightarrow> filled (lens b) (lens b') (held b') first c c' ls \<Longrightarrow>
   fill_post rooms lens held valid first c b out"
  by (force simp: fill_post_def)

lemma fill_post_none:
  "out = Some (res, c', b') \<Longrightarrow> (case res of Inr n \<Rightarrow> n = 0 | Inl _ \<Rightarrow> True) \<Longrightarrow> valid b' \<Longrightarrow> prefix (rooms b) (rooms b') \<Longrightarrow>
   first \<le> length (rooms b') \<Longrightarrow> filled (lens b) (lens b') (held b') first c c' [] \<Longrightarrow>
   fill_post rooms lens held valid first c b out"
  unfolding fill_post_def
  by (rule exI [of _ res], rule exI [of _ c'], rule exI [of _ b'], rule exI [of _ "[]"])
    (auto split: sum.splits)

lemma fill_post_one:
  "out = Some (Inr 1, c', b') \<Longrightarrow> valid b' \<Longrightarrow> prefix (rooms b) (rooms b') \<Longrightarrow>
   first < length (rooms b') \<Longrightarrow> filled (lens b) (lens b') (held b') first c c' [0] \<Longrightarrow>
   fill_post rooms lens held valid first c b out"
  by (rule fill_post_used [where ls = "[0]"]) auto

lemma fill_post_earlier:
  assumes "fill_post rooms lens held valid first c b1 out" "prefix (rooms b) (rooms b1)"
    and "prefix (lens b) (lens b1)" "first \<le> length (lens b)"
  shows "fill_post rooms lens held valid first c b out"
proof -
  obtain res c' b' ls where r: "out = Some (res, c', b')" "valid b'" "prefix (rooms b1) (rooms b')"
      "first + length ls \<le> length (rooms b')" "filled (lens b1) (lens b') (held b') first c c' ls"
      "case res of Inr used \<Rightarrow> used = length ls | Inl e \<Rightarrow> ls = []"
    using assms(1) unfolding fill_post_def by blast
  have "prefix (rooms b) (rooms b')" using assms(2) r(3) by (rule prefix_order.trans)
  moreover have "filled (lens b) (lens b') (held b') first c c' ls" using r(5) assms(4,3) by (rule filled_before)
  ultimately show ?thesis using r unfolding fill_post_def by blast
qed

locale rx_buffers =
  fixes ops :: "'b rx_ops"
    and rooms :: "'b \<Rightarrow> nat list"
    and lens :: "'b \<Rightarrow> nat list"
    and holds :: "'b \<Rightarrow> nat \<Rightarrow> nat list \<Rightarrow> bytes \<Rightarrow> bool"
    and stamped :: "'b \<Rightarrow> nat \<Rightarrow> header \<Rightarrow> bool"
    and valid :: "'b \<Rightarrow> bool"
    and limit :: nat
  assumes inv_bounds:
      "valid b \<Longrightarrow> length (lens b) = length (rooms b) \<and> length (rooms b) \<le> limit \<and>
         (\<forall>r \<in> set (rooms b). r \<le> MAX_PACKET)"
    and room_law:
      "valid b \<Longrightarrow> rx_room ops i b = (room, b') \<Longrightarrow>
         valid b' \<and> prefix (rooms b) (rooms b') \<and> prefix (lens b) (lens b') \<and>
         room = (if i < length (rooms b') then Some (rooms b' ! i) else None)"
    and room_known: "valid b \<Longrightarrow> i < length (rooms b) \<Longrightarrow> snd (rx_room ops i b) = b"
    and put_law:
      "valid b \<Longrightarrow> i < length (rooms b) \<Longrightarrow>
         \<exists>b'. rx_put ops i h b = Some b' \<and> valid b' \<and> rooms b' = rooms b \<and>
           stamped b' i h \<and> (\<forall>j h'. j \<noteq> i \<longrightarrow> stamped b j h' \<longrightarrow> stamped b' j h') \<and>
           (\<forall>j ls bs. holds b j ls bs \<longrightarrow> holds b' j ls bs) \<and>
           (unat (h_len h) \<le> MAX_PACKET \<longrightarrow> lens b' = (lens b)[i := HEADER_LEN + unat (h_len h)])"
    and recv_law:
      "valid b \<Longrightarrow> rx_recv ops s first n b = (r, s', b') \<Longrightarrow>
         valid b' \<and> prefix (rooms b) (rooms b') \<and> prefix (lens b) (lens b') \<and>
         (\<exists>cap. cap \<le> n \<and> cap \<le> usable (drop first (rooms b')) \<and>
           (0 < n \<and> first < length (rooms b) \<and> 0 < rooms b ! first \<longrightarrow> 0 < cap) \<and>
           (case sock_recv cap s of
              (Inl e, s'') \<Rightarrow> r = Inl e \<and> s' = s''
            | (Inr bs, s'') \<Rightarrow> r = Inr (length bs) \<and> s' = s'' \<and>
                holds b' first (spread (length bs) (drop first (rooms b'))) bs))"
begin

lemmas post_none = fill_post_none [where rooms = rooms and lens = lens and valid = valid]
lemmas post_used = fill_post_used [where rooms = rooms and lens = lens and valid = valid]
lemmas post_one = fill_post_one [where rooms = rooms and lens = lens and valid = valid]

lemma room_known_eq:
  "valid b \<Longrightarrow> i < length (rooms b) \<Longrightarrow> rx_room ops i b = (Some (rooms b ! i), b)"
  using room_law [of b i] room_known [of b i] by (cases "rx_room ops i b") auto

lemma room_le_max: "valid b \<Longrightarrow> i < length (rooms b) \<Longrightarrow> rooms b ! i \<le> MAX_PACKET"
  using inv_bounds by simp

text \<open>A control packet takes one buffer and leaves its payload empty.\<close>

lemma control_ok:
  assumes "valid b" "i < length (rooms b)"
  shows "\<exists>b'. conn_control ops i op flags c b
      = Some (1, c\<lparr>c_advertised := c_forwarded c, c_send_credit_update := False\<rparr>, b') \<and>
    valid b' \<and> rooms b' = rooms b \<and> lens b' = (lens b)[i := HEADER_LEN]"
proof -
  let ?c = "c\<lparr>c_advertised := c_forwarded c, c_send_credit_update := False\<rparr>"
  obtain b' where "rx_put ops i (conn_header ?c op flags 0) b = Some b'" "valid b'"
      "rooms b' = rooms b" "lens b' = (lens b)[i := HEADER_LEN]"
    using put_law [OF assms, of "conn_header ?c op flags 0"] by (auto simp: conn_header_def)
  then show ?thesis by (simp add: conn_control_def conn_stamp_def Let_def)
qed

text \<open>
  Every byte that was read gets a header: the buffers from \<open>i\<close> on get packets whose lengths add
  up to \<open>n\<close>, each within the room of its buffer.
\<close>

lemma put_headers_ok:
  assumes "valid b" "n \<le> usable (drop i (rooms b))" "i \<le> length (rooms b)"
  shows "\<exists>ls c' b'. put_headers ops i n c b = Some (i + length ls, c', b') \<and>
    valid b' \<and> rooms b' = rooms b \<and> i + length ls \<le> length (rooms b) \<and>
    sum_list ls = n \<and> ls = spread n (drop i (rooms b)) \<and>
    (\<forall>j < length ls. data_header c (ls ! j) (stamped b' (i + j))) \<and>
    (\<forall>j < i. \<forall>h. stamped b j h \<longrightarrow> stamped b' j h) \<and>
    (\<forall>j ls bs. holds b j ls bs \<longrightarrow> holds b' j ls bs) \<and>
    lens b' = take i (lens b) @ map ((+) HEADER_LEN) ls @ drop (i + length ls) (lens b) \<and>
    c' = (if n = 0 then c
          else c\<lparr>c_advertised := c_forwarded c, c_send_credit_update := False\<rparr>)"
  using assms
proof (induction n arbitrary: i c b rule: less_induct)
  case (less n)
  show ?case
  proof (cases "n = 0")
    case True
    then show ?thesis using less.prems by (subst put_headers.simps) (auto intro!: exI [of _ "[]"])
  next
    case n: False
    then have i: "i < length (rooms b)"
      using less.prems by (cases "i = length (rooms b)") (auto simp: usable_def)
    then have d: "drop i (rooms b) = rooms b ! i # drop (Suc i) (rooms b)"
      by (simp add: Cons_nth_drop_Suc)
    let ?len = "min (rooms b ! i) n"
    have pos: "0 < ?len" using less.prems(2) n by (auto simp: usable_def d split: if_splits)
    let ?c = "c\<lparr>c_advertised := c_forwarded c, c_send_credit_update := False\<rparr>"
    let ?h = "conn_header ?c RW 0 ?len"
    have "?len < 2 ^ 32" using room_le_max [OF less.prems(1) i] by (simp add: MAX_PACKET_def)
    then have hl: "unat (h_len ?h) = ?len" by (simp add: conn_header_def unat_of_nat)
    have fits: "?len \<le> MAX_PACKET" using room_le_max [OF less.prems(1) i] by simp
    from put_law [OF less.prems(1) i, of ?h] obtain b1 where
      b1: "rx_put ops i ?h b = Some b1" "valid b1" "rooms b1 = rooms b"
          "lens b1 = (lens b)[i := HEADER_LEN + ?len]" "stamped b1 i ?h"
          "\<forall>j h. j \<noteq> i \<longrightarrow> stamped b j h \<longrightarrow> stamped b1 j h" "\<forall>j ls bs. holds b j ls bs \<longrightarrow> holds b1 j ls bs"
      using fits by (auto simp only: hl)
    have min_0_iff: "(?len = 0) = False" using pos by simp
    have step: "put_headers ops i n c b = put_headers ops (Suc i) (n - ?len) ?c b1"
      using n pos room_known_eq [OF less.prems(1) i] b1(1)
      by (subst put_headers.simps) (simp add: conn_stamp_def Let_def min_0_iff)
    have "n - ?len \<le> usable (drop (Suc i) (rooms b1))"
      using less.prems(2) b1(3) pos by (auto simp: usable_def d split: if_splits)
    from less.IH [OF _ b1(2) this, of ?c] pos n i b1(3) obtain ls c' b' where
      r: "put_headers ops (Suc i) (n - ?len) ?c b1 = Some (Suc i + length ls, c', b')" "valid b'"
        "rooms b' = rooms b" "Suc i + length ls \<le> length (rooms b)" "sum_list ls = n - ?len"
        "ls = spread (n - ?len) (drop (Suc i) (rooms b))"
        "\<forall>j < length ls. data_header ?c (ls ! j) (stamped b' (Suc i + j))"
        "\<forall>j < Suc i. \<forall>h. stamped b1 j h \<longrightarrow> stamped b' j h" "\<forall>j ls bs. holds b1 j ls bs \<longrightarrow> holds b' j ls bs"
        "lens b' = take (Suc i) (lens b1) @ map ((+) HEADER_LEN) ls @ drop (Suc i + length ls) (lens b1)"
        "c' = (if n - ?len = 0 then ?c
          else ?c\<lparr>c_advertised := c_forwarded ?c, c_send_credit_update := False\<rparr>)" by auto
    have len: "i < length (lens b)" using inv_bounds [OF less.prems(1)] i by simp
    show ?thesis
    proof (intro exI conjI)
      show "put_headers ops i n c b = Some (i + length (?len # ls), c', b')" using step r(1) by simp
      show "lens b' = take i (lens b) @ map ((+) HEADER_LEN) (?len # ls) @
          drop (i + length (?len # ls)) (lens b)"
        using len by (simp add: r(10) b1(4) take_Suc_conv_app_nth)
      show "\<forall>j < length (?len # ls). data_header c ((?len # ls) ! j) (stamped b' (i + j))"
      proof (intro allI impI)
        fix j assume "j < length (?len # ls)"
        moreover have "data_header c ?len (stamped b' i)"
          unfolding data_header_def using r(8) b1(5) hl by (intro exI [of _ ?h]) (simp add: conn_header_def)
        moreover have "data_header ?c k st = data_header c k st" for k st by (simp add: data_header_def)
        ultimately show "data_header c ((?len # ls) ! j) (stamped b' (i + j))"
          using r(7) by (cases j) simp_all
      qed
      show "?len # ls = spread n (drop i (rooms b))" using r(6) pos by (simp add: d)
      show "\<forall>j < i. \<forall>h. stamped b j h \<longrightarrow> stamped b' j h" using r(8) b1(6) by simp
      show "\<forall>j ls bs. holds b j ls bs \<longrightarrow> holds b' j ls bs" using r(9) b1(7) by blast
      show "c' = (if n = 0 then c else ?c)" using n r(11) by simp
    qed (use r pos in simp_all)
  qed
qed

lemma control_filled:
  assumes "valid b" "first < length (rooms b)"
  shows "\<exists>c' b'. conn_control ops first op flags c b = Some (1, c', b') \<and>
    valid b' \<and> rooms b' = rooms b \<and> (\<forall>held. filled (lens b) (lens b') held first c c' [0])"
proof -
  let ?c = "c\<lparr>c_advertised := c_forwarded c, c_send_credit_update := False\<rparr>"
  obtain b' where b': "conn_control ops first op flags c b = Some (1, ?c, b')"
      "valid b'" "rooms b' = rooms b" "lens b' = (lens b)[first := HEADER_LEN]"
    using control_ok [OF assms, of op flags c] by blast
  have "first < length (lens b)" using inv_bounds [OF assms(1)] assms(2) by simp
  then have "filled (lens b) (lens b') held first c ?c [0]" for held
    using conn_inv_advertise [of c]
    by (simp add: filled_def b'(4) taken_def same_ports_def drop_update_cancel take_Suc_conv_app_nth hd_drop_conv_nth
        take_Suc)
  then show ?thesis using b' by blast
qed

text \<open>The read that got \<open>n\<close> bytes, with the headers for them.\<close>

lemma data_filled:
  assumes "valid b" "first \<le> length (rooms b)" "n \<le> usable (drop first (rooms b))"
    and "n \<le> unat (available (c_credit c))" "n \<noteq> 0"
    and "arriving (sk_arrivals (c_socket c)) = bs @ arriving (sk_arrivals s)" "length bs = n"
    and "sk_sent s = sk_sent (c_socket c)" "holds b first (spread n (drop first (rooms b))) bs"
  defines "c1 \<equiv> c\<lparr>c_socket := s, c_credit := (c_credit c)\<lparr>cr_sent := cr_sent (c_credit c) + word_of_nat n\<rparr>\<rparr>"
  shows "\<exists>ls c' b'. put_headers ops first n c1 b = Some (first + length ls, c', b') \<and>
    valid b' \<and> rooms b' = rooms b \<and> first + length ls \<le> length (rooms b) \<and> ls \<noteq> [] \<and>
    filled (lens b) (lens b') (packed holds stamped first c b') first c c' ls"
proof -
  let ?c' = "c1\<lparr>c_advertised := c_forwarded c1, c_send_credit_update := False\<rparr>"
  obtain ls b' where r: "put_headers ops first n c1 b = Some (first + length ls, ?c', b')"
      "valid b'" "rooms b' = rooms b" "first + length ls \<le> length (rooms b)" "sum_list ls = n"
      "ls = spread n (drop first (rooms b))"
      "\<forall>j < length ls. data_header c1 (ls ! j) (stamped b' (first + j))"
      "\<forall>j ls bs. holds b j ls bs \<longrightarrow> holds b' j ls bs"
      "lens b' = take first (lens b) @ map ((+) HEADER_LEN) ls @ drop (first + length ls) (lens b)"
    using put_headers_ok [OF assms(1,3,2), of c1] assms(5) by - (elim exE conjE, rule that, simp_all)
  have ne: "ls \<noteq> []" using r(5) assms(5) by auto
  have "data_header c1 k st = data_header c k st" for k st by (simp add: data_header_def c1_def)
  then have packed: "packed holds stamped first c b' ls bs"
    using r(6,7,8) assms(9) by (simp add: packed_def)
  have len: "length (lens b) = length (rooms b)" using inv_bounds [OF assms(1)] by simp
  have "in_flight (c_credit ?c') = in_flight (c_credit c) + n"
    using in_flight_sent [OF assms(4)] by (simp add: c1_def)
  moreover have "conn_inv c \<longrightarrow> conn_inv ?c'" "taken ?c' = taken c"
    using conn_inv_advertise [of c1] assms(8)
    by (auto simp: c1_def conn_inv_def unadvertised_def taken_def)
  ultimately have "filled (lens b) (lens b') (packed holds stamped first c b') first c ?c' ls"
    using assms(2,4,6,7) r(4,5,9) packed len by (auto simp: filled_def same_ports_def c1_def)
  then show ?thesis using r ne by blast
qed

lemma received_nothing:
  assumes "valid b" "first < length (rooms b)" "same_flow c (c1\<lparr>c_readable := False\<rparr>)" "same_flow c c1"
  shows "\<exists>res c'. fill_received ops first (Inl e) c1 b = Some (res, c', b) \<and>
    filled (lens b) (lens b) held first c c' [] \<and> (case res of Inr n \<Rightarrow> n = 0 | Inl _ \<Rightarrow> True)"
  using assms by (auto simp: fill_received_def intro!: filled_none)

lemma received_end:
  assumes "valid b" "first < length (rooms b)"
    and "same_flow c (c1\<lparr>c_readable := False, c_local_shutdown := c_local_shutdown c1 OR SEND\<rparr>)"
  shows "\<exists>c' b'. fill_received ops first (Inr 0) c1 b = Some (Inr 1, c', b') \<and>
    valid b' \<and> rooms b' = rooms b \<and> filled (lens b) (lens b') (packed holds stamped first c b') first c c' [0]"
proof -
  let ?c = "c1\<lparr>c_readable := False, c_local_shutdown := c_local_shutdown c1 OR SEND\<rparr>"
  obtain c' b' where "conn_control ops first SHUTDOWN SEND ?c b = Some (1, c', b')"
      "valid b'" "rooms b' = rooms b" "filled (lens b) (lens b') (packed holds stamped first c b') first ?c c' [0]"
    using control_filled [OF assms(1,2)] by blast
  then show ?thesis using assms(3) filled_flow by (auto simp: fill_received_def)
qed

lemma received_data:
  assumes "valid b" "first \<le> length (rooms b)" "length bs \<le> usable (drop first (rooms b))"
    and "length bs \<le> unat (available (c_credit c))" "bs \<noteq> []"
    and "arriving (sk_arrivals (c_socket c)) = bs @ arriving (sk_arrivals s)"
    and "sk_sent s = sk_sent (c_socket c)" "holds b first (spread (length bs) (drop first (rooms b))) bs"
  shows "\<exists>ls c' b'. fill_received ops first (Inr (length bs)) (c\<lparr>c_socket := s\<rparr>) b
      = Some (Inr (length ls), c', b') \<and>
    valid b' \<and> rooms b' = rooms b \<and> first + length ls \<le> length (rooms b) \<and>
    filled (lens b) (lens b') (packed holds stamped first c b') first c c' ls"
proof -
  have "length bs \<noteq> 0" using assms(5) by simp
  from data_filled [OF assms(1-4) this assms(6) refl assms(7,8)] show ?thesis
    using assms(5) by (auto simp: fill_received_def)
qed

lemma fill_received_ok:
  assumes "valid b" "first < length (rooms b)" "cap \<le> unat (available (c_credit c))"
    and "cap \<le> usable (drop first (rooms b))"
    and recv: "sock_recv cap (c_socket c) = (a, s)" and r: "r = map_sum id length a"
    and got: "\<And>bs. a = Inr bs \<Longrightarrow> holds b first (spread (length bs) (drop first (rooms b))) bs"
  shows "fill_post rooms lens (packed holds stamped first c) valid first c b (fill_received ops first r (c\<lparr>c_socket := s\<rparr>) b)"
proof (cases a)
  case (Inl e)
  then have "arriving (sk_arrivals s) = arriving (sk_arrivals (c_socket c))" "sk_sent s = sk_sent (c_socket c)"
    using sock_recv_arriving [OF recv] by auto
  from same_flow_socket [OF this, where x = "c_readable c" and f = "c_local_shutdown c"]
    same_flow_socket [OF this, where x = False and f = "c_local_shutdown c"]
  have "same_flow c (c\<lparr>c_socket := s\<rparr>)" "same_flow c (c\<lparr>c_socket := s, c_readable := False\<rparr>)" by simp_all
  then obtain res c' where "fill_received ops first (Inl e) (c\<lparr>c_socket := s\<rparr>) b = Some (res, c', b)"
      "filled (lens b) (lens b) (packed holds stamped first c b) first c c' []"
      "case res of Inr n \<Rightarrow> n = 0 | Inl _ \<Rightarrow> True"
    using received_nothing [OF assms(1,2), of c "c\<lparr>c_socket := s\<rparr>" e "packed holds stamped first c b"] by auto
  then show ?thesis using assms(1,2) Inl r by (intro post_none) simp_all
next
  case (Inr bs)
  then have bs: "length bs \<le> cap" "arriving (sk_arrivals (c_socket c)) = bs @ arriving (sk_arrivals s)"
      "sk_sent s = sk_sent (c_socket c)"
    using sock_recv_arriving [OF recv] by auto
  show ?thesis
  proof (cases "bs = []")
    case True
    have "same_flow c ((c\<lparr>c_socket := s\<rparr>)\<lparr>c_readable := False,
        c_local_shutdown := c_local_shutdown (c\<lparr>c_socket := s\<rparr>) OR SEND\<rparr>)"
      using same_flow_socket [of s c, where x = False and f = "c_local_shutdown c OR SEND"] bs True by simp
    from received_end [OF assms(1,2) this] obtain c' b' where
      "fill_received ops first (Inr 0) (c\<lparr>c_socket := s\<rparr>) b = Some (Inr 1, c', b')"
      "valid b'" "rooms b' = rooms b" "filled (lens b) (lens b') (packed holds stamped first c b') first c c' [0]" by blast
    then show ?thesis using assms(2) Inr True r by (intro post_one) simp_all
  next
    case False
    have "length bs \<le> usable (drop first (rooms b))" "length bs \<le> unat (available (c_credit c))"
      using bs(1) assms(3,4) by simp_all
    from received_data [OF assms(1) _ this False bs(2,3) got [OF Inr]] assms(2) obtain ls c' b' where
      "fill_received ops first (Inr (length bs)) (c\<lparr>c_socket := s\<rparr>) b = Some (Inr (length ls), c', b')"
      "valid b'" "rooms b' = rooms b" "first + length ls \<le> length (rooms b)"
      "filled (lens b) (lens b') (packed holds stamped first c b') first c c' ls" by auto
    then show ?thesis using Inr r by (intro post_used) simp_all
  qed
qed

lemma fill_data_ok:
  assumes "valid b" "first < length (rooms b)"
  shows "fill_post rooms lens (packed holds stamped first c) valid first c b (fill_data ops first c b)"
proof -
  note room = room_known_eq [OF assms]
  let ?credit = "unat (available (c_credit c))"
  consider (idle) "\<not> c_readable c \<or> \<not> sends_data c \<or> rooms b ! first = 0"
    | (starved) "c_readable c" "sends_data c" "rooms b ! first \<noteq> 0" "?credit = 0"
    | (read) "c_readable c" "sends_data c" "rooms b ! first \<noteq> 0" "?credit \<noteq> 0" by blast
  then show ?thesis
  proof cases
    case idle
    then have "fill_data ops first c b = Some (Inr 0, c, b)" using room by (auto simp: fill_data_def)
    then show ?thesis
      by (rule post_none) (use assms in \<open>simp_all add: filled_none same_flow_flags\<close>)
  next
    case starved
    then have "fill_data ops first c b = Some (Inr 0, if \<not> c_credit_requested c
        then c\<lparr>c_credit_requested := True, c_send_credit_request := True\<rparr> else c, b)"
      using room by (simp add: fill_data_def Let_def)
    moreover have "same_flow c (if \<not> c_credit_requested c
        then c\<lparr>c_credit_requested := True, c_send_credit_request := True\<rparr> else c)"
      by (simp add: same_flow_flags)
    ultimately obtain c1 where "fill_data ops first c b = Some (Inr 0, c1, b)" "same_flow c c1" by blast
    then show ?thesis using assms by (intro post_none [of _ "Inr 0" c1 b] filled_none) simp_all
  next
    case read
    obtain r s b1 where recv: "rx_recv ops (c_socket c) first (min ?credit MAX_TURN) b = (r, s, b1)"
      by (metis prod_cases3)
    from recv_law [OF assms(1) recv] obtain cap where
      b1: "valid b1" "prefix (rooms b) (rooms b1)" "prefix (lens b) (lens b1)"
      and cap0: "cap \<le> min ?credit MAX_TURN" and cap1: "cap \<le> usable (drop first (rooms b1))"
      and res: "case sock_recv cap (c_socket c) of
              (Inl e, s'') \<Rightarrow> r = Inl e \<and> s = s''
            | (Inr bs, s'') \<Rightarrow> r = Inr (length bs) \<and> s = s'' \<and>
                holds b1 first (spread (length bs) (drop first (rooms b1))) bs" by - (elim conjE exE, rule that, assumption+)
    have cap: "cap \<le> ?credit" using cap0 by simp
    obtain a where a: "sock_recv cap (c_socket c) = (a, s)" "r = map_sum id length a"
        "\<And>bs. a = Inr bs \<Longrightarrow> holds b1 first (spread (length bs) (drop first (rooms b1))) bs"
      using res by (cases "sock_recv cap (c_socket c)") (auto split: sum.splits)
    have first: "first < length (rooms b1)"
      using assms(2) b1(2) by (meson order_less_le_trans prefix_length_le)
    have lb: "first \<le> length (lens b)" using inv_bounds [OF assms(1)] assms(2) by simp
    have "fill_data ops first c b = fill_received ops first r (c\<lparr>c_socket := s\<rparr>) b1"
      using read room by (simp add: fill_data_def recv)
    then show ?thesis
      using fill_post_earlier [OF fill_received_ok [OF b1(1) first cap cap1 a] b1(2,3) lb] by simp
  qed
qed

text \<open>A control packet from \<open>c1\<close>, when nothing flowed since \<open>c\<close> and \<open>b\<close>.\<close>

lemma control_post:
  assumes "valid b1" "prefix (rooms b) (rooms b1)" "first < length (rooms b1)"
    and "filled (lens b) (lens b1) (packed holds stamped first c b1) first c c1 []" "same_flow c1 c2"
    and "out = do { (k, c, b) \<leftarrow> conn_control ops first op flags c2 b1; Some (Inr k, c, b) }"
  shows "fill_post rooms lens (packed holds stamped first c) valid first c b out"
proof -
  obtain c' b' where c': "conn_control ops first op flags c2 b1 = Some (1, c', b')" "valid b'"
      "rooms b' = rooms b1" "filled (lens b1) (lens b') (packed holds stamped first c b') first c2 c' [0]"
    using control_filled [OF assms(1,3)] by blast
  have "filled (lens b) (lens b') (packed holds stamped first c b') first c c' [0]"
    using filled_trans [OF assms(4) filled_flow [OF assms(5) c'(4)]] .
  then show ?thesis using assms(2,3,6) c' by (intro post_one) simp_all
qed

lemma conn_fill_ok:
  assumes "valid b" "first < length (rooms b)"
  shows "fill_post rooms lens (packed holds stamped first c) valid first c b (conn_fill ops first c b)"
proof -
  have now: "filled (lens b) (lens b) (packed holds stamped first c b) first c c []" by (rule filled_none) (simp_all add: same_flow_flags)
  note control = control_post [OF assms(1) prefix_order.refl assms(2) now]
  consider (idle) "\<not> c_established c" "\<not> c_send_request c"
    | (connecting) "\<not> c_established c" "c_send_request c"
    | (closing) "c_established c" "c_send_shutdown c \<noteq> 0"
    | (connected) "c_established c" "c_send_shutdown c = 0" by blast
  then show ?thesis
  proof cases
    case idle
    then have "conn_fill ops first c b = Some (Inr 0, c, b)" by (simp add: conn_fill_def)
    then show ?thesis by (rule post_none) (use assms now in simp_all)
  next
    case connecting
    show ?thesis by (rule control [OF same_flow_flags(2)]) (simp add: conn_fill_def connecting)
  next
    case closing
    show ?thesis by (rule control [OF same_flow_flags(3)]) (simp add: conn_fill_def closing)
  next
    case connected
    obtain res c1 b1 ls where d: "fill_data ops first c b = Some (res, c1, b1)" "valid b1"
      "prefix (rooms b) (rooms b1)" "first + length ls \<le> length (rooms b1)"
      "filled (lens b) (lens b1) (packed holds stamped first c b1) first c c1 ls"
      "case res of Inr used \<Rightarrow> used = length ls | Inl e \<Rightarrow> ls = []"
      using fill_data_ok [OF assms, of c] unfolding fill_post_def by blast
    show ?thesis
    proof (cases "res = Inr 0")
      case False
      then have "conn_fill ops first c b = Some (res, c1, b1)"
        using connected d(1) by (cases res) (auto simp: conn_fill_def)
      then show ?thesis using fill_data_ok [OF assms, of c] d(1) by simp
    next
      case True
      then have nil: "filled (lens b) (lens b1) (packed holds stamped first c b1) first c c1 []" using d(5,6) by simp
      have first: "first < length (rooms b1)"
        using assms(2) d(3) by (meson order_less_le_trans prefix_length_le)
      note control1 = control_post [OF d(2,3) first nil]
      consider "c_send_credit_request c1" | "\<not> c_send_credit_request c1" "c_send_credit_update c1"
        | "\<not> c_send_credit_request c1" "\<not> c_send_credit_update c1" by blast
      then show ?thesis
      proof cases
        case 1
        show ?thesis by (rule control1 [OF same_flow_flags(4)]) (simp add: conn_fill_def connected d(1) True 1)
      next
        case 2
        show ?thesis by (rule control1 [OF same_flow_flags(5)]) (simp add: conn_fill_def connected d(1) True 2)
      next
        case 3
        then have "conn_fill ops first c b = Some (Inr 0, c1, b1)"
          by (simp add: conn_fill_def connected d(1) True)
        then show ?thesis by (rule post_none) (use d(2,3) first nil in simp_all)
      qed
    qed
  qed
qed

end

end
