(* ===== verification/Vsock_Mux.thy ===== *)
theory Vsock_Mux
  imports Vsock_Fill
begin

text \<open>
  The multiplexer of the vsock device, \<^verbatim>\<open>crates/shuru-linux/src/kvm/vsock/connection.rs\<close>: the
  connections by host port, the resets that wait for an rx buffer, and the operations the device
  thread and the callers of \<^verbatim>\<open>connect\<close> run on them.
\<close>

section \<open>Ordered maps\<close>

text \<open>A \<^verbatim>\<open>BTreeMap\<close> as its entries in the order of the keys.\<close>

type_synonym 'v btree = "(u32 \<times> 'v) list"

fun bt_insert :: "u32 \<Rightarrow> 'v \<Rightarrow> 'v btree \<Rightarrow> 'v btree" where
  "bt_insert k v [] = [(k, v)]"
| "bt_insert k v ((j, w) # t) =
     (if k < j then (k, v) # (j, w) # t
      else if j < k then (j, w) # bt_insert k v t
      else (k, v) # t)"

definition bt_remove :: "u32 \<Rightarrow> 'v btree \<Rightarrow> 'v btree" where
  "bt_remove k t = filter (\<lambda>(j, _). j \<noteq> k) t"

text \<open>\<^verbatim>\<open>range((Excluded(k), Unbounded)).next()\<close>, then \<^verbatim>\<open>first_key_value()\<close>.\<close>

definition bt_next :: "u32 \<Rightarrow> 'v btree \<Rightarrow> u32 option" where
  "bt_next k t =
     (case filter (\<lambda>(j, _). k < j) t of
        (j, _) # _ \<Rightarrow> Some j
      | [] \<Rightarrow> (case t of (j, _) # _ \<Rightarrow> Some j | [] \<Rightarrow> None))"

abbreviation bt_sorted :: "'v btree \<Rightarrow> bool" where
  "bt_sorted t \<equiv> sorted_wrt (<) (map fst t)"

section \<open>State and operations\<close>

text \<open>
  \<open>mx_replies\<close> and \<open>mx_closed\<close> record what the outside sees: the answers sent to callers of
  \<^verbatim>\<open>connect\<close>, and the host sockets that were shut down, by host port.
\<close>

record mux =
  mx_connections :: "connection btree"
  mx_max_connections :: nat
  mx_resets :: "header list"
  mx_next_port :: u32
  mx_last_port :: u32
  mx_replies :: "(u32 \<times> (io_error + unit)) list"
  mx_closed :: "(u32 \<times> socket) list"

definition mux_with_limit :: "nat \<Rightarrow> mux" where
  "mux_with_limit n =
     \<lparr>mx_connections = [], mx_max_connections = n, mx_resets = [], mx_next_port = 1024,
      mx_last_port = 0, mx_replies = [], mx_closed = []\<rparr>"

text \<open>\<^verbatim>\<open>Drop for Connection\<close>.\<close>

definition drop_connection :: "u32 \<Rightarrow> connection \<Rightarrow> mux \<Rightarrow> mux" where
  "drop_connection port c m =
     m\<lparr>mx_replies := mx_replies m @
         (if c_opener c = Some (Caller True) then [(port, Inl ConnectionRefused)] else []),
       mx_closed := mx_closed m @
         [(port, (c_socket c)\<lparr>sk_shut_read := True, sk_shut_write := True\<rparr>)]\<rparr>"

definition mux_clear :: "mux \<Rightarrow> mux" where
  "mux_clear m =
     (fold (\<lambda>(port, c). drop_connection port c) (mx_connections m) m)
       \<lparr>mx_connections := [], mx_resets := [], mx_last_port := 0\<rparr>"

definition max_resets :: "mux \<Rightarrow> nat" where
  "max_resets m = mx_max_connections m + MAX_PENDING_RESETS"

definition new_connection :: "socket \<Rightarrow> u32 \<Rightarrow> u32 \<Rightarrow> opener \<Rightarrow> nat \<Rightarrow> connection" where
  "new_connection s port guest_port opener now =
     \<lparr>c_socket = s, c_guest_port = guest_port, c_host_port = port, c_opener = Some opener,
      c_established = False, c_readable = True, c_writable = True, c_credit = default_credit,
      c_credit_requested = False, c_forwarded = 0, c_advertised = 0, c_received = 0,
      c_incoming = [], c_peer_shutdown = 0, c_local_shutdown = 0, c_send_request = True,
      c_send_shutdown = 0, c_send_credit_request = False, c_send_credit_update = False,
      c_deadline = Some (now + HANDSHAKE_TIMEOUT)\<rparr>"

text \<open>\<open>blocking\<close> says that \<^verbatim>\<open>set_nonblocking\<close> failed.\<close>

definition mux_add ::
  "socket \<Rightarrow> bool \<Rightarrow> u32 \<Rightarrow> opener \<Rightarrow> nat \<Rightarrow> mux \<Rightarrow> (io_error + u32) \<times> mux" where
  "mux_add s blocking guest_port opener now m =
     (if mx_max_connections m \<le> length (mx_connections m) \<or>
         max_resets m \<le> length (mx_connections m) + length (mx_resets m)
      then (Inl OutOfMemory, m)
      else
        case checked_add (mx_next_port m) 1 of
          None \<Rightarrow> (Inl OtherError, m)
        | Some port \<Rightarrow>
            let m = m\<lparr>mx_next_port := port\<rparr>
            in if blocking then (Inl OtherError, m)
               else (Inr port, m\<lparr>mx_connections :=
                 bt_insert port (new_connection s port guest_port opener now) (mx_connections m)\<rparr>))"

definition can_receive :: "mux \<Rightarrow> bool" where
  "can_receive m \<longleftrightarrow> length (mx_resets m) + length (mx_connections m) < max_resets m"

definition mux_reset :: "header \<Rightarrow> mux \<Rightarrow> mux" where
  "mux_reset h m =
     (if length (mx_resets m) + length (mx_connections m) < max_resets m
      then m\<lparr>mx_resets := mx_resets m @ [h]\<rparr> else m)"

definition reset_unknown :: "header \<Rightarrow> mux \<Rightarrow> mux" where
  "reset_unknown h m =
     mux_reset (default_header\<lparr>h_src_cid := HOST_CID, h_dst_cid := GUEST_CID,
       h_src_port := h_dst_port h, h_dst_port := h_src_port h, h_kind := h_kind h, h_op := RST\<rparr>) m"

definition mux_cancel :: "u32 \<Rightarrow> mux \<Rightarrow> mux" where
  "mux_cancel port m =
     (case map_of (mx_connections m) port of
        None \<Rightarrow> m
      | Some c \<Rightarrow>
          let m = m\<lparr>mx_connections := bt_remove port (mx_connections m)\<rparr>
          in drop_connection port c (mux_reset (conn_header c RST 0 0) m))"

definition conn_wake :: "bool \<Rightarrow> bool \<Rightarrow> connection \<Rightarrow> connection" where
  "conn_wake readable writable c =
     c\<lparr>c_readable := c_readable c \<or> readable, c_writable := c_writable c \<or> writable\<rparr>"

definition mux_wake :: "u32 \<Rightarrow> bool \<Rightarrow> bool \<Rightarrow> mux \<Rightarrow> mux" where
  "mux_wake port readable writable m =
     (case map_of (mx_connections m) port of
        None \<Rightarrow> m
      | Some c \<Rightarrow>
          m\<lparr>mx_connections := bt_insert port (conn_wake readable writable c) (mx_connections m)\<rparr>)"

definition packet_valid :: "header \<Rightarrow> payload \<Rightarrow> bool" where
  "packet_valid h p \<longleftrightarrow>
     h_kind h = STREAM \<and> unat (h_len h) = payload_len p \<and>
     (h_op h = RW \<or> payload_len p = 0) \<and> (h_op h = SHUTDOWN \<or> h_flags h = 0)"

definition mux_receive :: "header \<Rightarrow> payload \<Rightarrow> mux \<Rightarrow> mux" where
  "mux_receive h p m =
     (if h_src_cid h \<noteq> GUEST_CID \<or> h_dst_cid h \<noteq> HOST_CID then m
      else
        let port = h_dst_port h
        in case map_of (mx_connections m) port of
             None \<Rightarrow> if h_op h \<noteq> RST then reset_unknown h m else m
           | Some c \<Rightarrow>
               let m = m\<lparr>mx_connections := bt_remove port (mx_connections m)\<rparr>
               in if c_guest_port c \<noteq> h_src_port h then
                    let m = m\<lparr>mx_connections := bt_insert port c (mx_connections m)\<rparr>
                    in if h_op h \<noteq> RST then reset_unknown h m else m
                  else if h_op h = RST then drop_connection port c m
                  else
                    let (ok, c, replies) =
                          (if packet_valid h p then conn_receive h p c else (False, c, []));
                        m = m\<lparr>mx_replies := mx_replies m @ map (Pair port) replies\<rparr>
                    in if ok
                       then m\<lparr>mx_connections := bt_insert port c (mx_connections m)\<rparr>
                       else drop_connection port c (mux_reset (conn_header c RST 0 0) m))"

definition mux_pump :: "nat \<Rightarrow> mux \<Rightarrow> mux" where
  "mux_pump now m =
     (let pumped = map (\<lambda>(port, c). (port, conn_pump now c)) (mx_connections m);
          closed = [port. (port, r, c) \<leftarrow> pumped, r \<noteq> Inr True];
          m = m\<lparr>mx_connections := map (\<lambda>(port, r, c). (port, c)) pumped\<rparr>
      in fold mux_cancel closed m)"

definition next_deadline :: "mux \<Rightarrow> nat option" where
  "next_deadline m =
     (case List.map_filter (\<lambda>(_, c). c_deadline c) (mx_connections m) of
        [] \<Rightarrow> None
      | t # ts \<Rightarrow> Some (fold min ts t))"

section \<open>Filling rx buffers\<close>

text \<open>
  The loop of \<^verbatim>\<open>fill_turn\<close>: \<open>n\<close> turns are left, and \<open>port\<close> was the last one asked. The entry of
  a port that \<open>bt_next\<close> returns is there, so \<^verbatim>\<open>unwrap\<close> does not fail.
\<close>

fun fill_turns ::
  "'b rx_ops \<Rightarrow> nat \<Rightarrow> nat \<Rightarrow> u32 \<Rightarrow> mux \<Rightarrow> 'b \<Rightarrow> (nat \<times> mux \<times> 'b) option" where
  "fill_turns ops first 0 port m b = Some (0, m, b)"
| "fill_turns ops first (Suc n) port m b =
     (case bt_next port (mx_connections m) of
        None \<Rightarrow> Some (0, m, b)
      | Some port \<Rightarrow>
          do { c \<leftarrow> map_of (mx_connections m) port;
               (res, c, b) \<leftarrow> conn_fill ops first c b;
               let m = m\<lparr>mx_connections := bt_insert port c (mx_connections m)\<rparr>;
               case res of
                 Inr used \<Rightarrow>
                   if used = 0 then fill_turns ops first n port m b
                   else Some (used, m\<lparr>mx_last_port := port\<rparr>, b)
               | Inl _ \<Rightarrow> Some (0, mux_cancel port m, b) })"

definition fill_turn :: "'b rx_ops \<Rightarrow> nat \<Rightarrow> mux \<Rightarrow> 'b \<Rightarrow> (nat \<times> mux \<times> 'b) option" where
  "fill_turn ops first m b =
     fill_turns ops first (length (mx_connections m)) (mx_last_port m) m b"

text \<open>
  \<^verbatim>\<open>fill\<close> loops while the guest has a buffer left. That it ends is a claim about the code, so the
  definition does not presuppose it.
\<close>

partial_function (option) fill_from ::
  "'b rx_ops \<Rightarrow> nat \<Rightarrow> mux \<Rightarrow> 'b \<Rightarrow> (nat \<times> mux \<times> 'b) option" where
  "fill_from ops next m b =
     (case rx_room ops next b of
        (None, b) \<Rightarrow> Some (next, m, b)
      | (Some _, b) \<Rightarrow>
          (case mx_resets m of
             h # resets \<Rightarrow>
               Option.bind (rx_put ops next h b)
                 (\<lambda>b. fill_from ops (next + 1) (m\<lparr>mx_resets := resets\<rparr>) b)
           | [] \<Rightarrow>
               Option.bind (fill_turn ops next m b)
                 (\<lambda>(used, m, b).
                    if used = 0 \<and> mx_resets m = [] then Some (next, m, b)
                    else fill_from ops (next + used) m b)))"

definition mux_fill :: "'b rx_ops \<Rightarrow> mux \<Rightarrow> 'b \<Rightarrow> (nat \<times> mux \<times> 'b) option" where
  "mux_fill ops m b = fill_from ops 0 m b"

section \<open>Lemmas on ordered maps\<close>

lemma fst_bt_insert: "set (map fst (bt_insert k v t)) = insert k (set (map fst t))"
  by (induction k v t rule: bt_insert.induct) auto

lemma bt_sorted_insert: "bt_sorted t \<Longrightarrow> bt_sorted (bt_insert k v t)"
proof (induction k v t rule: bt_insert.induct)
  case (2 k v j w t)
  have "fst ` set (bt_insert k v t) = insert k (fst ` set t)"
    using fst_bt_insert [of k v t] by simp
  then show ?case using 2 by (auto intro: less_trans)
qed simp

lemma bt_sorted_remove: "bt_sorted t \<Longrightarrow> bt_sorted (bt_remove k t)"
  by (simp add: bt_remove_def sorted_wrt_map sorted_wrt_filter)

lemma bt_sorted_distinct: "bt_sorted t \<Longrightarrow> distinct (map fst t)"
  by (simp add: strict_sorted_iff)

lemma map_of_bt_insert: "bt_sorted t \<Longrightarrow> map_of (bt_insert k v t) = (map_of t)(k \<mapsto> v)"
  by (induction k v t rule: bt_insert.induct) (auto simp: fun_eq_iff)

lemma map_of_bt_remove: "map_of (bt_remove k t) = (map_of t)(k := None)"
  by (induction t) (auto simp: bt_remove_def fun_eq_iff)

lemma length_bt_insert:
  "bt_sorted t \<Longrightarrow> length (bt_insert k v t) = (if map_of t k = None then Suc (length t) else length t)"
proof (induction k v t rule: bt_insert.induct)
  case (2 k v j w t)
  then have "k < j \<Longrightarrow> map_of t k = None"
    by (auto simp: map_of_eq_None_iff dest: less_trans)
  then show ?case using 2 by auto
qed simp

lemma length_bt_remove:
  assumes "bt_sorted t" "map_of t k = Some v"
  shows "Suc (length (bt_remove k t)) = length t"
  using assms
proof (induction t)
  case (Cons a t)
  obtain j w where a: "a = (j, w)" by fastforce
  show ?case
  proof (cases "j = k")
    case True
    then have "bt_remove k t = t"
      using Cons.prems(1) a by (auto simp: bt_remove_def filter_id_conv)
    then show ?thesis using True a by (simp add: bt_remove_def)
  next
    case False
    then show ?thesis using Cons a by (simp add: bt_remove_def)
  qed
qed simp

lemma bt_entry: "bt_sorted t \<Longrightarrow> (k, v) \<in> set t \<longleftrightarrow> map_of t k = Some v"
  using bt_sorted_distinct map_of_eq_Some_iff by metis

lemma bt_next_entry: "bt_next k t = Some j \<Longrightarrow> \<exists>v. (j, v) \<in> set t"
  by (auto simp: bt_next_def split: list.splits dest!: filter_eq_ConsD)

section \<open>The invariant of the multiplexer\<close>

text \<open>
  The connections are in order, each under its own host port, and each keeps its invariant; ports
  were given out by \<^verbatim>\<open>add\<close>; and there are never more connections and pending resets than the two
  limits allow.
\<close>

definition entry_ok :: "mux \<Rightarrow> u32 \<Rightarrow> connection \<Rightarrow> bool" where
  "entry_ok m port c \<longleftrightarrow>
     1024 < port \<and> port \<le> mx_next_port m \<and> c_host_port c = port \<and> conn_inv c"

definition mux_inv :: "mux \<Rightarrow> bool" where
  "mux_inv m \<longleftrightarrow>
     bt_sorted (mx_connections m) \<and> 1024 \<le> mx_next_port m \<and>
     (\<forall>port c. map_of (mx_connections m) port = Some c \<longrightarrow> entry_ok m port c) \<and>
     length (mx_connections m) \<le> mx_max_connections m \<and>
     length (mx_connections m) + length (mx_resets m) \<le> max_resets m"

lemma mux_inv_start: "mux_inv (mux_with_limit n)"
  by (simp add: mux_inv_def mux_with_limit_def max_resets_def)

lemma drop_connection_fields [simp]:
  "mx_connections (drop_connection port c m) = mx_connections m"
  "mx_max_connections (drop_connection port c m) = mx_max_connections m"
  "mx_resets (drop_connection port c m) = mx_resets m"
  "mx_next_port (drop_connection port c m) = mx_next_port m"
  "mx_last_port (drop_connection port c m) = mx_last_port m"
  "max_resets (drop_connection port c m) = max_resets m"
  by (simp_all add: drop_connection_def max_resets_def)

lemma mux_reset_fields [simp]:
  "mx_connections (mux_reset h m) = mx_connections m"
  "mx_max_connections (mux_reset h m) = mx_max_connections m"
  "mx_next_port (mux_reset h m) = mx_next_port m"
  "mx_last_port (mux_reset h m) = mx_last_port m"
  "max_resets (mux_reset h m) = max_resets m"
  "mx_replies (mux_reset h m) = mx_replies m"
  "mx_closed (mux_reset h m) = mx_closed m"
  by (simp_all add: mux_reset_def max_resets_def)

lemma mux_inv_drop [simp]: "mux_inv (drop_connection port c m) = mux_inv m"
  by (simp add: mux_inv_def entry_ok_def)

lemma mux_inv_reset: "mux_inv m \<Longrightarrow> mux_inv (mux_reset h m)"
  by (auto simp: mux_inv_def mux_reset_def entry_ok_def max_resets_def)

lemma mux_inv_replies [simp]: "mux_inv (m\<lparr>mx_replies := rs\<rparr>) = mux_inv m"
  by (simp add: mux_inv_def entry_ok_def max_resets_def)

lemma mux_inv_last [simp]: "mux_inv (m\<lparr>mx_last_port := q\<rparr>) = mux_inv m"
  by (simp add: mux_inv_def entry_ok_def max_resets_def)

text \<open>Replacing the connection of a port that has one keeps the invariant.\<close>

lemma mux_inv_update:
  assumes "mux_inv m" "map_of (mx_connections m) port = Some c" "conn_inv c'" "c_host_port c' = port"
  shows "mux_inv (m\<lparr>mx_connections := bt_insert port c' (mx_connections m)\<rparr>)"
  using assms
  by (auto simp: mux_inv_def entry_ok_def max_resets_def bt_sorted_insert map_of_bt_insert
      length_bt_insert)

lemma mux_inv_remove:
  assumes "mux_inv m"
  shows "mux_inv (m\<lparr>mx_connections := bt_remove port (mx_connections m)\<rparr>)"
proof -
  have "length (bt_remove port (mx_connections m)) \<le> length (mx_connections m)"
    by (simp add: bt_remove_def)
  then show ?thesis
    using assms
    by (auto simp: mux_inv_def entry_ok_def max_resets_def bt_sorted_remove map_of_bt_remove)
qed

lemma mux_inv_cancel: "mux_inv m \<Longrightarrow> mux_inv (mux_cancel port m)"
  by (auto simp: mux_cancel_def Let_def mux_inv_remove mux_inv_reset split: option.split)

text \<open>The room a removed connection leaves is enough for its reset.\<close>

lemma reset_after_remove:
  assumes "mux_inv m" "map_of (mx_connections m) port = Some c"
  shows "mx_resets (mux_reset h (m\<lparr>mx_connections := bt_remove port (mx_connections m)\<rparr>))
    = mx_resets m @ [h]"
proof -
  have "Suc (length (bt_remove port (mx_connections m))) = length (mx_connections m)"
    using assms length_bt_remove by (auto simp: mux_inv_def)
  then show ?thesis using assms(1) by (auto simp: mux_inv_def mux_reset_def max_resets_def)
qed

section \<open>Every operation keeps the invariant\<close>

lemma bt_insert_remove:
  "bt_sorted t \<Longrightarrow> map_of t k = Some w \<Longrightarrow> bt_insert k v (bt_remove k t) = bt_insert k v t"
proof (induction t)
  case (Cons a t)
  obtain j x where a: "a = (j, x)" by fastforce
  have gt: "\<forall>e \<in> set t. j < fst e" using Cons.prems(1) a by auto
  show ?case
  proof (cases "j = k")
    case True
    then have "bt_remove k t = t" using gt by (auto simp: bt_remove_def filter_id_conv)
    moreover have "bt_insert k v t = (k, v) # t"
      using gt True by (cases t) auto
    ultimately show ?thesis using True a by (simp add: bt_remove_def)
  next
    case False
    then have "j < k" using Cons.prems(2) a gt by (auto dest!: map_of_SomeD)
    then show ?thesis using Cons a False by (simp add: bt_remove_def)
  qed
qed simp

lemma map_of_map_snd:
  "map_of (map (\<lambda>(k, v). (k, f v)) t) = (\<lambda>k. map_option f (map_of t k))"
  by (induction t) (auto simp: fun_eq_iff)

lemma fst_map_snd: "map fst (map (\<lambda>(k, v). (k, f v)) t) = map fst t"
  by (induction t) auto

lemma mux_inv_add:
  assumes "mux_inv m" "mux_add s blocking guest_port opener now m = (r, m')"
  shows "mux_inv m' \<and> mx_next_port m \<le> mx_next_port m' \<and>
    (\<forall>port. r = Inr port \<longrightarrow> port = mx_next_port m' \<and> mx_next_port m < port \<and>
       map_of (mx_connections m) port = None)"
proof (cases "mx_max_connections m \<le> length (mx_connections m) \<or>
    max_resets m \<le> length (mx_connections m) + length (mx_resets m)")
  case True
  then show ?thesis using assms by (auto simp: mux_add_def)
next
  case room: False
  show ?thesis
  proof (cases "checked_add (mx_next_port m) 1")
    case None
    then show ?thesis using assms room by (auto simp: mux_add_def)
  next
    case (Some port)
    then have "unat port = Suc (unat (mx_next_port m))" by (simp add: checked_add_Some_iff)
    then have up: "mx_next_port m < port" by (simp add: word_less_nat_alt)
    then have new: "map_of (mx_connections m) port = None"
      using assms(1) by (cases "map_of (mx_connections m) port")
        (auto simp: mux_inv_def entry_ok_def dest!: spec)
    have "1024 < port" using assms(1) up by (auto simp: mux_inv_def)
    moreover have "\<And>q. q \<le> mx_next_port m \<Longrightarrow> q \<le> port" using up by auto
    ultimately show ?thesis
      using assms room Some up new
      by (auto simp: mux_add_def Let_def mux_inv_def entry_ok_def max_resets_def bt_sorted_insert
          map_of_bt_insert length_bt_insert new_connection_def conn_inv_def unadvertised_def
          split: if_splits)
  qed
qed

lemma mux_inv_wake: 
  assumes "mux_inv m"
  shows "mux_inv (mux_wake port r w m)"
proof (cases "map_of (mx_connections m) port")
  case (Some c)
  then have "entry_ok m port c" using assms by (simp add: mux_inv_def)
  then have "conn_inv (c\<lparr>c_readable := c_readable c \<or> r, c_writable := c_writable c \<or> w\<rparr>)"
      "c_host_port c = port" by (simp_all add: entry_ok_def conn_inv_def unadvertised_def)
  then show ?thesis
    using mux_inv_update [OF assms Some] by (simp add: mux_wake_def conn_wake_def Some)
qed (use assms in \<open>simp add: mux_wake_def\<close>)

lemma mux_inv_clear: 
  assumes "mux_inv m"
  shows "mux_inv (mux_clear m)"
proof -
  let ?d = "fold (\<lambda>(port, c). drop_connection port c)"
  have "mx_next_port (?d t m) = mx_next_port m \<and> mx_max_connections (?d t m) = mx_max_connections m" for t m
    by (induction t arbitrary: m) auto
  then show ?thesis
    using assms by (simp add: mux_clear_def mux_inv_def entry_ok_def max_resets_def)
qed

text \<open>A packet for a connection: it stays, updated, or it is gone.\<close>

lemma mux_receive_known:
  assumes "mux_inv m" "map_of (mx_connections m) (h_dst_port h) = Some c"
    and "h_src_cid h = GUEST_CID" "h_dst_cid h = HOST_CID" "c_guest_port c = h_src_port h"
    and "h_op h \<noteq> RST"
  shows "mux_receive h p m =
    (let (ok, c', replies) = (if packet_valid h p then conn_receive h p c else (False, c, []));
         sent = mx_replies m @ map (Pair (h_dst_port h)) replies
     in if ok
        then m\<lparr>mx_connections := bt_insert (h_dst_port h) c' (mx_connections m), mx_replies := sent\<rparr>
        else drop_connection (h_dst_port h) c' (mux_reset (conn_header c' RST 0 0)
          (m\<lparr>mx_connections := bt_remove (h_dst_port h) (mx_connections m), mx_replies := sent\<rparr>)))"
proof -
  have sorted: "bt_sorted (mx_connections m)" using assms(1) by (simp add: mux_inv_def)
  show ?thesis
    using assms bt_insert_remove [OF sorted assms(2)]
    by (simp add: mux_receive_def Let_def split: prod.split)
qed

lemma mux_inv_receive:
  assumes "mux_inv m"
  shows "mux_inv (mux_receive h p m)"
proof (cases "map_of (mx_connections m) (h_dst_port h)")
  case None
  then show ?thesis
    using assms by (simp add: mux_receive_def Let_def reset_unknown_def mux_inv_reset)
next
  case (Some c)
  have ok: "entry_ok m (h_dst_port h) c" and sorted: "bt_sorted (mx_connections m)"
    using assms Some by (auto simp: mux_inv_def)
  consider (foreign) "h_src_cid h \<noteq> GUEST_CID \<or> h_dst_cid h \<noteq> HOST_CID"
    | (other) "h_src_cid h = GUEST_CID" "h_dst_cid h = HOST_CID" "c_guest_port c \<noteq> h_src_port h"
    | (rst) "h_src_cid h = GUEST_CID" "h_dst_cid h = HOST_CID" "c_guest_port c = h_src_port h" "h_op h = RST"
    | (packet) "h_src_cid h = GUEST_CID" "h_dst_cid h = HOST_CID" "c_guest_port c = h_src_port h" "h_op h \<noteq> RST"
    by blast
  then show ?thesis
  proof cases
    case foreign
    then show ?thesis using assms by (auto simp: mux_receive_def)
  next
    case other
    have "mux_inv (m\<lparr>mx_connections := bt_insert (h_dst_port h) c (mx_connections m)\<rparr>)"
      using mux_inv_update [OF assms Some] ok by (simp add: entry_ok_def)
    then show ?thesis
      using other Some bt_insert_remove [OF sorted Some]
      by (simp add: mux_receive_def Let_def reset_unknown_def mux_inv_reset)
  next
    case rst
    then show ?thesis using assms Some by (simp add: mux_receive_def Let_def mux_inv_remove)
  next
    case packet
    obtain good c' replies where r:
      "(if packet_valid h p then conn_receive h p c else (False, c, [])) = (good, c', replies)"
      by (metis prod_cases3)
    have "conn_inv c'" "c_host_port c' = h_dst_port h" if good
    proof -
      have "conn_receive h p c = (True, c', replies)" using r that by (simp split: if_splits)
      then show "conn_inv c'" "c_host_port c' = h_dst_port h"
        using conn_receive_ok conn_receive_ports ok by (auto simp: entry_ok_def same_ports_def)
    qed
    then show ?thesis
      using mux_inv_update [OF assms Some] mux_inv_remove [OF assms]
      by (simp add: mux_receive_known [OF assms Some packet] r mux_inv_reset Let_def)
  qed
qed

lemma mux_inv_cancels: "mux_inv m \<Longrightarrow> mux_inv (fold mux_cancel ports m)"
  by (induction ports arbitrary: m) (auto simp: mux_inv_cancel)

lemma pumped_connections:
  "map (\<lambda>(port, r, c). (port, c)) (map (\<lambda>(port, c). (port, conn_pump now c)) t)
   = map (\<lambda>(port, c). (port, snd (conn_pump now c))) t"
  by (induction t) (auto split: prod.split)

lemma mux_inv_pump:
  assumes "mux_inv m"
  shows "mux_inv (mux_pump now m)"
proof -
  let ?t = "map (\<lambda>(port, c). (port, snd (conn_pump now c))) (mx_connections m)"
  have "entry_ok m port (snd (conn_pump now c))" if "entry_ok m port c" for port c
    using that conn_pump_ok [of now c] by (cases "conn_pump now c") (auto simp: entry_ok_def same_ports_def)
  then have "mux_inv (m\<lparr>mx_connections := ?t\<rparr>)"
    using assms by (auto simp: mux_inv_def map_of_map_snd fst_map_snd max_resets_def entry_ok_def
        simp del: map_map)
  then show ?thesis
    unfolding mux_pump_def Let_def pumped_connections by (rule mux_inv_cancels)
qed

section \<open>Every caller gets one answer\<close>

text \<open>
  \<open>waiting\<close> are the host ports whose caller has not been told yet. With \<open>P\<close> the ports given to
  callers, every one of them waits or has its one answer.
\<close>

definition waiting :: "mux \<Rightarrow> u32 set" where
  "waiting m = {port. \<exists>c. map_of (mx_connections m) port = Some c \<and> c_opener c = Some (Caller True)}"

definition reply_inv :: "mux \<Rightarrow> u32 set \<Rightarrow> bool" where
  "reply_inv m P \<longleftrightarrow>
     distinct (map fst (mx_replies m)) \<and> fst ` set (mx_replies m) \<inter> waiting m = {} \<and>
     fst ` set (mx_replies m) \<union> waiting m = P \<and> (\<forall>port \<in> P. port \<le> mx_next_port m)"

lemma reply_inv_start: "reply_inv (mux_with_limit n) {}"
  by (simp add: reply_inv_def waiting_def mux_with_limit_def)

lemma reply_inv_cong:
  "mx_replies m' = mx_replies m \<Longrightarrow> mx_next_port m' = mx_next_port m \<Longrightarrow>
   map_of (mx_connections m') = map_of (mx_connections m) \<Longrightarrow> reply_inv m' P = reply_inv m P"
  by (simp add: reply_inv_def waiting_def)

text \<open>What a connection says of its opener when a packet, or nothing, told it.\<close>

definition told :: "connection \<Rightarrow> connection \<Rightarrow> (io_error + unit) list \<Rightarrow> bool" where
  "told c c' rs \<longleftrightarrow>
     c_opener c' = c_opener c \<and> rs = [] \<or>
     c_opener c' = None \<and> rs = (if c_opener c = Some (Caller True) then [Inr ()] else [])"

lemma reply_inv_keep:
  assumes "reply_inv m P" "map_of (mx_connections m) port = Some c" "told c c' rs"
    and "map_of (mx_connections m') = (map_of (mx_connections m))(port \<mapsto> c')"
    and "mx_replies m' = mx_replies m @ map (Pair port) rs" "mx_next_port m' = mx_next_port m"
  shows "reply_inv m' P"
proof -
  let ?w = "c_opener c = Some (Caller True)"
  have w: "waiting m' = (if c_opener c' = Some (Caller True) then insert port (waiting m) else waiting m - {port})"
    using assms(4) by (auto simp: waiting_def)
  have "port \<in> waiting m \<longleftrightarrow> ?w" using assms(2) by (simp add: waiting_def)
  then show ?thesis
    using assms(1,3,5,6) w by (auto simp: reply_inv_def told_def insert_absorb)
qed

lemma reply_inv_close:
  assumes "reply_inv m P" "map_of (mx_connections m) port = Some c" "told c c' rs"
    and "map_of (mx_connections m') = (map_of (mx_connections m))(port := None)"
    and "mx_replies m' = mx_replies m @ map (Pair port) rs" "mx_next_port m' = mx_next_port m"
  shows "reply_inv (drop_connection port c' m') P"
proof -
  have w: "waiting (drop_connection port c' m') = waiting m - {port}"
    using assms(4) by (auto simp: waiting_def)
  have "port \<in> waiting m \<longleftrightarrow> c_opener c = Some (Caller True)" using assms(2) by (simp add: waiting_def)
  then show ?thesis
    using assms(1,3,5,6) w by (auto simp: reply_inv_def told_def drop_connection_def)
qed

lemma reply_inv_cancel:
  assumes "reply_inv m P"
  shows "reply_inv (mux_cancel port m) P"
proof (cases "map_of (mx_connections m) port")
  case (Some c)
  have "told c c []" by (simp add: told_def)
  from reply_inv_close [OF assms Some this] show ?thesis
    by (simp add: mux_cancel_def Some Let_def map_of_bt_remove)
qed (use assms in \<open>simp add: mux_cancel_def\<close>)

lemma reply_inv_cancels: "reply_inv m P \<Longrightarrow> reply_inv (fold mux_cancel ports m) P"
  by (induction ports arbitrary: m) (auto simp: reply_inv_cancel)

lemma reply_inv_pump:
  assumes "mux_inv m" "reply_inv m P"
  shows "reply_inv (mux_pump now m) P"
proof -
  let ?m = "m\<lparr>mx_connections := map (\<lambda>(port, c). (port, snd (conn_pump now c))) (mx_connections m)\<rparr>"
  have "c_opener (snd (conn_pump now c)) = c_opener c" if "map_of (mx_connections m) port = Some c" for port c
    using that assms(1) conn_pump_ok [of now c]
    by (cases "conn_pump now c") (auto simp: mux_inv_def entry_ok_def)
  then have "waiting ?m = waiting m" by (auto simp: waiting_def map_of_map_snd)
  then have "reply_inv ?m P" using assms(2) by (simp add: reply_inv_def)
  then show ?thesis unfolding mux_pump_def Let_def pumped_connections by (rule reply_inv_cancels)
qed

lemma reply_inv_wake:
  assumes "mux_inv m" "reply_inv m P"
  shows "reply_inv (mux_wake port r w m) P"
proof (cases "map_of (mx_connections m) port")
  case (Some c)
  have "told c (c\<lparr>c_readable := c_readable c \<or> r, c_writable := c_writable c \<or> w\<rparr>) []"
    by (simp add: told_def)
  from reply_inv_keep [OF assms(2) Some this] show ?thesis
    using assms(1) by (simp add: mux_wake_def conn_wake_def Some map_of_bt_insert mux_inv_def)
qed (use assms in \<open>simp add: mux_wake_def\<close>)

lemma reply_inv_reset: "reply_inv (mux_reset h m) P = reply_inv m P"
  by (rule reply_inv_cong) simp_all

lemma reply_inv_receive:
  assumes "mux_inv m" "reply_inv m P"
  shows "reply_inv (mux_receive h p m) P"
proof (cases "map_of (mx_connections m) (h_dst_port h)")
  case None
  then show ?thesis using assms(2) by (simp add: mux_receive_def Let_def reset_unknown_def reply_inv_reset)
next
  case (Some c)
  have sorted: "bt_sorted (mx_connections m)" using assms by (simp add: mux_inv_def)
  have nil: "told c c []" by (simp add: told_def)
  consider (foreign) "h_src_cid h \<noteq> GUEST_CID \<or> h_dst_cid h \<noteq> HOST_CID"
    | (other) "h_src_cid h = GUEST_CID" "h_dst_cid h = HOST_CID" "c_guest_port c \<noteq> h_src_port h"
    | (rst) "h_src_cid h = GUEST_CID" "h_dst_cid h = HOST_CID" "c_guest_port c = h_src_port h" "h_op h = RST"
    | (packet) "h_src_cid h = GUEST_CID" "h_dst_cid h = HOST_CID" "c_guest_port c = h_src_port h" "h_op h \<noteq> RST"
    by blast
  then show ?thesis
  proof cases
    case foreign
    then show ?thesis using assms(2) by (auto simp: mux_receive_def)
  next
    case other
    have "reply_inv (m\<lparr>mx_connections := bt_insert (h_dst_port h) c (mx_connections m)\<rparr>) P"
      using reply_inv_keep [OF assms(2) Some nil] by (simp add: map_of_bt_insert [OF sorted])
    then show ?thesis
      using other Some bt_insert_remove [OF sorted Some]
      by (simp add: mux_receive_def Let_def reset_unknown_def reply_inv_reset)
  next
    case rst
    then show ?thesis
      using reply_inv_close [OF assms(2) Some nil]
      by (simp add: mux_receive_def Let_def Some map_of_bt_remove)
  next
    case packet
    obtain good c' replies where r:
      "(if packet_valid h p then conn_receive h p c else (False, c, [])) = (good, c', replies)"
      by (metis prod_cases3)
    then have told: "told c c' replies"
      using conn_receive_opener [of h p c good c' replies] by (auto simp: told_def split: if_splits)
    show ?thesis
      using reply_inv_keep [OF assms(2) Some told] reply_inv_close [OF assms(2) Some told]
      by (simp add: mux_receive_known [OF assms(1) Some packet] r Let_def map_of_bt_insert [OF sorted]
          map_of_bt_remove)
  qed
qed

lemma reply_inv_add:
  assumes "mux_inv m" "reply_inv m P" "mux_add s blocking guest_port opener now m = (r, m')"
  shows "reply_inv m' (case r of Inr port \<Rightarrow> if opener = Caller True then insert port P else P | Inl _ \<Rightarrow> P)"
proof -
  have sorted: "bt_sorted (mx_connections m)" using assms(1) by (simp add: mux_inv_def)
  note add = mux_inv_add [OF assms(1,3)]
  show ?thesis
  proof (cases r)
    case (Inl e)
    have "mx_replies m' = mx_replies m" "mx_connections m' = mx_connections m"
      using assms(3) Inl by (auto simp: mux_add_def Let_def split: if_splits option.splits)
    moreover from this have "waiting m' = waiting m" by (simp add: waiting_def)
    moreover have "\<forall>q \<in> P. q \<le> mx_next_port m'"
      using assms(2) add unfolding reply_inv_def by (meson order_trans)
    ultimately show ?thesis using assms(2) Inl by (simp add: reply_inv_def)
  next
    case (Inr port)
    then have port: "mx_next_port m < port" "port = mx_next_port m'"
        "map_of (mx_connections m) port = None" using add by auto
    have m': "mx_replies m' = mx_replies m"
        "map_of (mx_connections m') = (map_of (mx_connections m))(port \<mapsto> new_connection s port guest_port opener now)"
      using assms(3) Inr sorted
      by (auto simp: mux_add_def Let_def map_of_bt_insert split: if_splits option.splits)
    have "waiting m' = (if opener = Caller True then insert port (waiting m) else waiting m)"
      using m'(2) port(3) by (auto simp: waiting_def new_connection_def)
    moreover have "port \<notin> fst ` set (mx_replies m)" "\<forall>q \<in> P. q \<le> mx_next_port m'"
      using assms(2) port(1,2) unfolding reply_inv_def by (metis UnI1 leD, meson less_imp_le order_trans)
    ultimately show ?thesis using assms(2) Inr m'(1) port(2) by (auto simp: reply_inv_def)
  qed
qed

lemma fold_drop:
  "mx_replies (fold (\<lambda>(port, c). drop_connection port c) t m) = mx_replies m @
     map (\<lambda>(port, c). (port, Inl ConnectionRefused))
       (filter (\<lambda>(port, c). c_opener c = Some (Caller True)) t) \<and>
   mx_next_port (fold (\<lambda>(port, c). drop_connection port c) t m) = mx_next_port m"
  by (induction t arbitrary: m) (auto simp: drop_connection_def)

lemma reply_inv_clear:
  assumes "mux_inv m" "reply_inv m P"
  shows "reply_inv (mux_clear m) P"
proof -
  let ?t = "mx_connections m"
  define new where "new = map (\<lambda>(port, c). (port, Inl ConnectionRefused :: io_error + unit))
    (filter (\<lambda>(port, c). c_opener c = Some (Caller True)) ?t)"
  have sorted: "bt_sorted ?t" using assms(1) by (simp add: mux_inv_def)
  have "fst ` set new = waiting m"
    using bt_entry [OF sorted] by (force simp: waiting_def new_def)
  moreover have "map fst new = map fst (filter (\<lambda>(port, c). c_opener c = Some (Caller True)) ?t)"
    unfolding new_def by (induction ?t) auto
  then have "distinct (map fst new)"
    using bt_sorted_distinct [OF sorted] by (metis distinct_map_filter)
  moreover have "waiting (mux_clear m) = {}" "mx_replies (mux_clear m) = mx_replies m @ new"
      "mx_next_port (mux_clear m) = mx_next_port m"
    using fold_drop [of ?t m] by (simp_all add: waiting_def mux_clear_def new_def)
  ultimately show ?thesis using assms(2) unfolding reply_inv_def by (simp add: image_Un)
qed

section \<open>Filling the rx buffers\<close>

text \<open>
  What filling does to a connection: some bytes leave its host socket for the guest, no more than
  its credit allows, and nothing else flows.
\<close>

definition flows :: "connection \<Rightarrow> connection \<Rightarrow> bool" where
  "flows c c' \<longleftrightarrow>
     (\<exists>bs. arriving (sk_arrivals (c_socket c)) = bs @ arriving (sk_arrivals (c_socket c')) \<and>
           length bs \<le> unat (available (c_credit c)) \<and>
           in_flight (c_credit c') = in_flight (c_credit c) + length bs) \<and>
     cr_peer_alloc (c_credit c') = cr_peer_alloc (c_credit c) \<and>
     (conn_inv c \<longrightarrow> conn_inv c') \<and> taken c' = taken c \<and> same_ports c c' \<and>
     c_opener c' = c_opener c"

lemma flows_refl: "flows c c"
  by (auto simp: flows_def same_ports_def intro!: exI [of _ "[]"])

lemma flows_filled: "filled before after held first c c' ls \<Longrightarrow> flows c c'"
  unfolding filled_def flows_def same_ports_def by (elim conjE exE) auto

lemma flows_trans:
  assumes "flows c c1" "flows c1 c2"
  shows "flows c c2"
proof -
  obtain bs bs' where
    bs: "arriving (sk_arrivals (c_socket c)) = bs @ arriving (sk_arrivals (c_socket c1))"
      "length bs \<le> unat (available (c_credit c))" "in_flight (c_credit c1) = in_flight (c_credit c) + length bs"
    and bs': "arriving (sk_arrivals (c_socket c1)) = bs' @ arriving (sk_arrivals (c_socket c2))"
      "length bs' \<le> unat (available (c_credit c1))" "in_flight (c_credit c2) = in_flight (c_credit c1) + length bs'"
    using assms by (auto simp: flows_def)
  have "length (bs @ bs') \<le> unat (available (c_credit c))"
    using bs bs' assms(1) by (simp add: unat_available flows_def)
  then show ?thesis
    using assms bs bs' by (auto simp: flows_def same_ports_def intro!: exI [of _ "bs @ bs'"])
qed

text \<open>The same of a multiplexer: every connection that is left was there and its bytes flowed.\<close>

definition mux_flows :: "mux \<Rightarrow> mux \<Rightarrow> bool" where
  "mux_flows m m' \<longleftrightarrow>
     (\<forall>port c'. map_of (mx_connections m') port = Some c' \<longrightarrow>
        (\<exists>c. map_of (mx_connections m) port = Some c \<and> flows c c')) \<and>
     (\<forall>P. reply_inv m P \<longrightarrow> reply_inv m' P) \<and>
     mx_next_port m' = mx_next_port m \<and> mx_max_connections m' = mx_max_connections m \<and>
     length (mx_connections m') \<le> length (mx_connections m)"

lemma mux_flows_refl: "mux_flows m m"
  by (auto simp: mux_flows_def intro: flows_refl)

lemma mux_flows_trans: "mux_flows m m1 \<Longrightarrow> mux_flows m1 m2 \<Longrightarrow> mux_flows m m2"
  unfolding mux_flows_def by (auto intro: flows_trans) (meson flows_trans)

lemma mux_flows_update:
  assumes "bt_sorted (mx_connections m)" "map_of (mx_connections m) port = Some c" "flows c c'"
  shows "mux_flows m (m\<lparr>mx_connections := bt_insert port c' (mx_connections m)\<rparr>)"
proof -
  have "told c c' []" using assms(3) by (simp add: flows_def told_def)
  from reply_inv_keep [OF _ assms(2) this] show ?thesis
    using assms by (auto simp: mux_flows_def map_of_bt_insert length_bt_insert intro: flows_refl)
qed

lemma mux_flows_last: "mux_flows m m' \<Longrightarrow> mux_flows m (m'\<lparr>mx_last_port := q\<rparr>)"
  using reply_inv_cong [of "m'\<lparr>mx_last_port := q\<rparr>" m'] by (simp add: mux_flows_def)

lemma mux_cancel_shorter:
  assumes "mux_inv m" "map_of (mx_connections m) port = Some c"
  shows "length (mx_connections (mux_cancel port m)) < length (mx_connections m)"
  using assms length_bt_remove [of "mx_connections m" port c]
  by (simp add: mux_cancel_def Let_def mux_inv_def)

lemma mux_flows_cancel:
  assumes "mux_inv m"
  shows "mux_flows m (mux_cancel port m)"
proof -
  have "length (bt_remove port (mx_connections m)) \<le> length (mx_connections m)"
    by (simp add: bt_remove_def)
  then show ?thesis
    using reply_inv_cancel [of m _ port]
    by (auto simp: mux_flows_def mux_cancel_def Let_def map_of_bt_remove
        split: option.split if_splits intro: flows_refl)
qed

text \<open>
  What a turn achieves, whichever connection took it: it does not panic, it keeps the invariant,
  and resets are added only for connections it closed.
\<close>

definition turn_post ::
  "('b \<Rightarrow> nat list) \<Rightarrow> ('b \<Rightarrow> bool) \<Rightarrow> nat \<Rightarrow> mux \<Rightarrow> 'b \<Rightarrow> (nat \<times> mux \<times> 'b) option \<Rightarrow> bool" where
  "turn_post rooms valid first m b out \<longleftrightarrow>
     (\<exists>used m' b'. out = Some (used, m', b') \<and> valid b' \<and> prefix (rooms b) (rooms b') \<and>
        first + used \<le> length (rooms b') \<and> mux_inv m' \<and> mux_flows m m' \<and>
        (mx_resets m' = mx_resets m \<or> length (mx_connections m') < length (mx_connections m)))"

lemma turn_postI:
  "out = Some (used, m', b') \<Longrightarrow> valid b' \<Longrightarrow> prefix (rooms b) (rooms b') \<Longrightarrow>
   first + used \<le> length (rooms b') \<Longrightarrow> mux_inv m' \<Longrightarrow> mux_flows m m' \<Longrightarrow>
   mx_resets m' = mx_resets m \<or> length (mx_connections m') < length (mx_connections m) \<Longrightarrow>
   turn_post rooms valid first m b out"
  unfolding turn_post_def by blast

lemma turn_post_later:
  assumes "turn_post rooms valid first m1 b1 out" "prefix (rooms b) (rooms b1)" "mux_flows m m1"
    and "mx_resets m1 = mx_resets m" "length (mx_connections m1) = length (mx_connections m)"
  shows "turn_post rooms valid first m b out"
proof -
  obtain used m' b' where r: "out = Some (used, m', b')" "valid b'" "prefix (rooms b1) (rooms b')"
      "first + used \<le> length (rooms b')" "mux_inv m'" "mux_flows m1 m'"
      "mx_resets m' = mx_resets m1 \<or> length (mx_connections m') < length (mx_connections m1)"
    using assms(1) unfolding turn_post_def by blast
  have "prefix (rooms b) (rooms b')" using assms(2) r(3) by (rule prefix_order.trans)
  moreover have "mux_flows m m'" using assms(3) r(6) by (rule mux_flows_trans)
  ultimately show ?thesis using r(1,2,4,5,7) assms(4,5) unfolding turn_post_def by auto
qed

context rx_buffers
begin

lemmas turn_intro = turn_postI [where rooms = rooms and valid = valid]

lemma fill_turns_ok:
  assumes "valid b" "mux_inv m" "first < length (rooms b)"
  shows "turn_post rooms valid first m b (fill_turns ops first n port m b)"
  using assms
proof (induction n arbitrary: port m b)
  case 0
  show ?case
    by (rule turn_intro [of _ 0 m b]) (use 0 in \<open>simp_all add: mux_flows_refl\<close>)
next
  case (Suc n)
  show ?case
  proof (cases "bt_next port (mx_connections m)")
    case None
    show ?thesis
      by (rule turn_intro [of _ 0 m b]) (use Suc.prems None in \<open>simp_all add: mux_flows_refl\<close>)
  next
    case (Some q)
    have sorted: "bt_sorted (mx_connections m)" using Suc.prems(2) by (simp add: mux_inv_def)
    obtain c where c: "map_of (mx_connections m) q = Some c"
      using bt_next_entry [OF Some] bt_entry [OF sorted] by blast
    obtain res c' b1 ls where f: "conn_fill ops first c b = Some (res, c', b1)" "valid b1"
        "prefix (rooms b) (rooms b1)" "first + length ls \<le> length (rooms b1)"
        "filled (lens b) (lens b1) (packed holds stamped first c b1) first c c' ls"
        "case res of Inr used \<Rightarrow> used = length ls | Inl e \<Rightarrow> ls = []"
      using conn_fill_ok [OF Suc.prems(1,3), of c] unfolding fill_post_def by blast
    let ?m = "m\<lparr>mx_connections := bt_insert q c' (mx_connections m)\<rparr>"
    have fl: "flows c c'" using f(5) by (rule flows_filled)
    have ent: "entry_ok m q c" using Suc.prems(2) c by (simp add: mux_inv_def)
    then have inv: "mux_inv ?m"
      using fl mux_inv_update [OF Suc.prems(2) c] by (auto simp: entry_ok_def flows_def same_ports_def)
    have flm: "mux_flows m ?m" using mux_flows_update [OF sorted c fl] .
    have len: "length (mx_connections ?m) = length (mx_connections m)"
      using c by (simp add: length_bt_insert [OF sorted])
    have first: "first < length (rooms b1)"
      using Suc.prems(3) f(3) by (meson order_less_le_trans prefix_length_le)
    consider (none) "res = Inr 0" | (some) used where "res = Inr used" "used \<noteq> 0" | (err) e where "res = Inl e"
      by (cases res) auto
    then show ?thesis
    proof cases
      case none
      have "fill_turns ops first (Suc n) port m b = fill_turns ops first n q ?m b1"
        by (simp add: Some c f(1) none)
      then show ?thesis
        using turn_post_later [OF Suc.IH [OF f(2) inv first] f(3) flm _ len] by simp
    next
      case some
      then have eq: "fill_turns ops first (Suc n) port m b = Some (used, ?m\<lparr>mx_last_port := q\<rparr>, b1)"
        by (simp add: Some c f(1))
      have "first + used \<le> length (rooms b1)" using f(4,6) some by simp
      then show ?thesis
        by (rule turn_intro [OF eq f(2,3)]) (use inv mux_flows_last [OF flm] in simp_all)
    next
      case err
      then have eq: "fill_turns ops first (Suc n) port m b = Some (0, mux_cancel q ?m, b1)"
        by (simp add: Some c f(1))
      have "length (mx_connections (mux_cancel q ?m)) < length (mx_connections m)"
        using mux_cancel_shorter [OF inv, of q c'] len by (simp add: map_of_bt_insert [OF sorted])
      then show ?thesis
        by (intro turn_intro [OF eq f(2,3)] mux_inv_cancel [OF inv]
            mux_flows_trans [OF flm mux_flows_cancel [OF inv]]) (use first in simp_all)
    qed
  qed
qed

text \<open>
  The loop ends: each round uses a buffer, of which there are finitely many, or closes a
  connection.
\<close>

lemma fill_from_ok:
  assumes "valid b" "mux_inv m" "next \<le> length (rooms b)"
  shows "\<exists>k m' b'. fill_from ops next m b = Some (k, m', b') \<and> valid b' \<and>
    prefix (rooms b) (rooms b') \<and> next \<le> k \<and> k \<le> length (rooms b') \<and> mux_inv m' \<and> mux_flows m m'"
  using assms
proof (induction "(next, m, b)" arbitrary: "next" m b rule: wf_induct_rule
    [OF wf_measures [of "[\<lambda>(next, m, b). limit - next, \<lambda>(next, m, b). length (mx_connections m)]"]])
  case (1 "next" m b)
  note inv = "1.prems"
  obtain room b1 where room: "rx_room ops next b = (room, b1)" by fastforce
  have b1: "valid b1" "prefix (rooms b) (rooms b1)"
      "room = (if next < length (rooms b1) then Some (rooms b1 ! next) else None)"
    using room_law [OF inv(1) room] by simp_all
  have le: "next \<le> length (rooms b1)" using inv(3) b1(2) by (meson order_trans prefix_length_le)
  show ?case
  proof (cases "next < length (rooms b1)")
    case False
    then have "fill_from ops next m b = Some (next, m, b1)"
      using room b1(3) by (subst fill_from.simps) simp
    then show ?thesis using b1 le inv(2) mux_flows_refl by blast
  next
    case some: True
    then have lim: "next < limit" using inv_bounds [OF b1(1)] by simp
    have rec: "\<exists>k m2 b3. fill_from ops j m1 b2 = Some (k, m2, b3) \<and> valid b3 \<and>
        prefix (rooms b) (rooms b3) \<and> next \<le> k \<and> k \<le> length (rooms b3) \<and> mux_inv m2 \<and> mux_flows m m2"
      if "valid b2" "mux_inv m1" "j \<le> length (rooms b2)" "next \<le> j" "prefix (rooms b) (rooms b2)" "mux_flows m m1"
        "next < j \<or> length (mx_connections m1) < length (mx_connections m)" for j m1 b2
    proof -
      have "((j, m1, b2), next, m, b) \<in> measures
          [\<lambda>(next, m, b). limit - next, \<lambda>(next, m, b). length (mx_connections m)]"
        using that(4,7) lim by auto
      from "1.hyps" [OF this that(1-3)] that(4-6) show ?thesis
        by (meson mux_flows_trans order_trans prefix_order.trans)
    qed
    show ?thesis
    proof (cases "mx_resets m")
      case (Cons h resets)
      obtain b2 where b2: "rx_put ops next h b1 = Some b2" "valid b2" "rooms b2 = rooms b1"
        using put_law [OF b1(1) some] by blast
      let ?m = "m\<lparr>mx_resets := resets\<rparr>"
      have "mux_inv ?m" using inv(2) Cons by (auto simp: mux_inv_def entry_ok_def max_resets_def)
      moreover have "mux_flows m ?m"
        using mux_flows_refl [of m] reply_inv_cong [of ?m m] by (simp add: mux_flows_def)
      moreover have "fill_from ops next m b = fill_from ops (next + 1) ?m b2"
        using room b1(3) some Cons b2(1) by (subst fill_from.simps) simp
      ultimately show ?thesis using rec [OF b2(2), of ?m "next + 1"] b2(3) some b1(2) by simp
    next
      case Nil
      have "turn_post rooms valid next m b1 (fill_turn ops next m b1)"
        unfolding fill_turn_def by (rule fill_turns_ok [OF b1(1) inv(2) some])
      then obtain used m1 b2 where t: "fill_turn ops next m b1 = Some (used, m1, b2)" "valid b2"
          "prefix (rooms b1) (rooms b2)" "next + used \<le> length (rooms b2)" "mux_inv m1" "mux_flows m m1"
          "mx_resets m1 = mx_resets m \<or> length (mx_connections m1) < length (mx_connections m)"
        unfolding turn_post_def by blast
      have pre: "prefix (rooms b) (rooms b2)" using b1(2) t(3) by (rule prefix_order.trans)
      show ?thesis
      proof (cases "used = 0 \<and> mx_resets m1 = []")
        case True
        then have "fill_from ops next m b = Some (next, m1, b2)"
          using room b1(3) some Nil t(1) by (subst fill_from.simps) simp
        then show ?thesis using t pre by auto
      next
        case False
        then have "fill_from ops next m b = fill_from ops (next + used) m1 b2"
          using room b1(3) some Nil t(1) by (subst fill_from.simps) auto
        then show ?thesis using rec [OF t(2,5,4) _ pre t(6)] False t(7) Nil by auto
      qed
    qed
  qed
qed

end

section \<open>Runs\<close>

text \<open>
  Every state a multiplexer can get into: callers and listeners add and cancel connections, sockets
  become ready, the guest sends any packet, time passes, the guest posts rx buffers, and the device
  is reset. \<open>P\<close> are the ports given to callers so far.
\<close>

inductive mux_run :: "'b rx_ops \<Rightarrow> ('b \<Rightarrow> bool) \<Rightarrow> nat \<Rightarrow> mux \<Rightarrow> u32 set \<Rightarrow> bool"
  for ops :: "'b rx_ops" and valid :: "'b \<Rightarrow> bool" and n :: nat where
  start: "mux_run ops valid n (mux_with_limit n) {}"
| added: "mux_run ops valid n m P \<Longrightarrow> mux_add s blocking guest_port opener now m = (r, m') \<Longrightarrow>
    mux_run ops valid n m'
      (case r of Inr port \<Rightarrow> if opener = Caller True then insert port P else P | Inl _ \<Rightarrow> P)"
| cancelled: "mux_run ops valid n m P \<Longrightarrow> mux_run ops valid n (mux_cancel port m) P"
| woken: "mux_run ops valid n m P \<Longrightarrow> mux_run ops valid n (mux_wake port readable writable m) P"
| received: "mux_run ops valid n m P \<Longrightarrow> mux_run ops valid n (mux_receive h p m) P"
| pumped: "mux_run ops valid n m P \<Longrightarrow> mux_run ops valid n (mux_pump now m) P"
| posted: "mux_run ops valid n m P \<Longrightarrow> valid b \<Longrightarrow> mux_fill ops m b = Some (k, m', b') \<Longrightarrow>
    mux_run ops valid n m' P"
| cleared: "mux_run ops valid n m P \<Longrightarrow> mux_run ops valid n (mux_clear m) P"

lemma max_connections_const [simp]:
  "mx_max_connections (mux_cancel port m) = mx_max_connections m"
  "mx_max_connections (mux_wake port r w m) = mx_max_connections m"
  "mx_max_connections (mux_receive h p m) = mx_max_connections m"
  "mx_max_connections (mux_clear m) = mx_max_connections m"
proof -
  have "mx_max_connections (fold (\<lambda>(port, c). drop_connection port c) t m) = mx_max_connections m" for t
    by (induction t arbitrary: m) auto
  then show "mx_max_connections (mux_clear m) = mx_max_connections m" by (simp add: mux_clear_def)
qed (simp_all add: mux_cancel_def mux_wake_def mux_receive_def reset_unknown_def Let_def
    split: option.split prod.split)

lemma max_connections_pump [simp]: "mx_max_connections (mux_pump now m) = mx_max_connections m"
proof -
  have "mx_max_connections (fold mux_cancel ports m) = mx_max_connections m" for ports m
    by (induction ports arbitrary: m) auto
  then show ?thesis by (simp add: mux_pump_def Let_def)
qed

context rx_buffers
begin

lemma mux_fill_ok:
  assumes "valid b" "mux_inv m"
  shows "\<exists>k m' b'. mux_fill ops m b = Some (k, m', b') \<and> valid b' \<and>
    prefix (rooms b) (rooms b') \<and> k \<le> length (rooms b') \<and> mux_inv m' \<and> mux_flows m m'"
  using fill_from_ok [OF assms, of 0] unfolding mux_fill_def by auto

lemma mux_run_inv:
  "mux_run ops valid n m P \<Longrightarrow> mux_inv m \<and> reply_inv m P \<and> mx_max_connections m = n"
proof (induction rule: mux_run.induct)
  case start
  then show ?case by (simp add: mux_inv_start reply_inv_start) (simp add: mux_with_limit_def)
next
  case (added m P s blocking guest_port opener now r m')
  moreover have "mx_max_connections m' = mx_max_connections m"
    using added.hyps(2) by (auto simp: mux_add_def Let_def split: if_splits option.splits)
  ultimately show ?case using mux_inv_add reply_inv_add by metis
next
  case (posted m P b k m' b')
  then show ?case using mux_fill_ok [of b m] by (auto simp: mux_flows_def)
qed (simp_all add: mux_inv_cancel reply_inv_cancel mux_inv_wake reply_inv_wake mux_inv_receive
    reply_inv_receive mux_inv_pump reply_inv_pump mux_inv_clear reply_inv_clear)

end

end
