(* ===== verification/Virt_Queue.thy ===== *)
theory Virt_Queue
  imports Vsock_Wire "HOL-Library.Monad_Syntax"
begin

text \<open>
  The split virtqueue the vsock device shares with the guest driver,
  \<^verbatim>\<open>crates/shuru-linux/src/kvm/vsock/queue.rs\<close>: the checks on its layout, the heads the driver
  posted, the walk over a descriptor chain and the used ring. Everything in guest memory is
  the guest's to choose, so nothing read from it is trusted.
\<close>

section \<open>Guest memory\<close>

text \<open>
  Guest memory is the crate \<^verbatim>\<open>vm-memory\<close>. \<open>mem_check\<close> is \<^verbatim>\<open>check_range\<close>; \<open>mem_read\<close> and
  \<open>mem_write\<close> are \<^verbatim>\<open>read_slice\<close>, \<^verbatim>\<open>read_obj\<close>, \<^verbatim>\<open>write_obj\<close> and the accesses through a
  slice; \<open>mem_slice\<close> says whether \<^verbatim>\<open>get_slice\<close> finds the range in one region.
\<close>

record 'm mem_ops =
  mem_check :: "u64 \<Rightarrow> nat \<Rightarrow> 'm \<Rightarrow> bool"
  mem_slice :: "u64 \<Rightarrow> nat \<Rightarrow> 'm \<Rightarrow> bool"
  mem_read :: "u64 \<Rightarrow> nat \<Rightarrow> 'm \<Rightarrow> bytes option"
  mem_write :: "u64 \<Rightarrow> bytes \<Rightarrow> 'm \<Rightarrow> 'm option"

text \<open>
  What the device relies on: a range that was checked can be read and written, a write changes
  the bytes of its range and no others, and which ranges there are does not change. Ranges do not
  wrap around the address space.
\<close>

definition disjoint_ranges :: "u64 \<Rightarrow> nat \<Rightarrow> u64 \<Rightarrow> nat \<Rightarrow> bool" where
  "disjoint_ranges a m b n \<longleftrightarrow> unat a + m \<le> unat b \<or> unat b + n \<le> unat a"

locale guest_memory =
  fixes mops :: "'m mem_ops"
  assumes read_checked: "mem_check mops a n m \<Longrightarrow> \<exists>bs. mem_read mops a n m = Some bs"
    and read_length: "mem_read mops a n m = Some bs \<Longrightarrow> length bs = n"
    and write_checked: "mem_check mops a (length bs) m \<Longrightarrow> \<exists>m'. mem_write mops a bs m = Some m'"
    and check_part: "mem_check mops a n m \<Longrightarrow> i + k \<le> n \<Longrightarrow> unat a + n < 2 ^ 64 \<Longrightarrow>
          mem_check mops (a + word_of_nat i) k m"
    and write_check: "mem_write mops a bs m = Some m' \<Longrightarrow> mem_check mops b n m' = mem_check mops b n m"
    and read_same: "mem_write mops a bs m = Some m' \<Longrightarrow> mem_read mops a (length bs) m' = Some bs"
    and read_other: "mem_write mops a bs m = Some m' \<Longrightarrow> disjoint_ranges a (length bs) b n \<Longrightarrow>
          unat b + n < 2 ^ 64 \<Longrightarrow> mem_read mops b n m' = mem_read mops b n m"

section \<open>The queue\<close>

definition VRING_USED_F_NO_NOTIFY :: u16 where "VRING_USED_F_NO_NOTIFY = 1"
definition VRING_AVAIL_F_NO_INTERRUPT :: u16 where "VRING_AVAIL_F_NO_INTERRUPT = 1"

definition invalid_queue :: io_error where "invalid_queue = OtherError"

record queue =
  q_size :: u16
  q_desc_addr :: u64
  q_avail_addr :: u64
  q_used_addr :: u64
  q_next_avail :: u16
  q_used :: u16

definition is_power_of_two :: "nat \<Rightarrow> bool" where
  "is_power_of_two n \<longleftrightarrow> n \<in> set (map (\<lambda>k. 2 ^ k) [0..<64])"

definition range_ok :: "'m mem_ops \<Rightarrow> 'm \<Rightarrow> u64 \<times> nat \<Rightarrow> bool" where
  "range_ok mops m r \<longleftrightarrow>
     checked_add (fst r) (word_of_nat (snd r)) \<noteq> None \<and> mem_check mops (fst r) (snd r) m"

definition queue_new :: "'m mem_ops \<Rightarrow> u16 \<Rightarrow> u64 \<Rightarrow> u64 \<Rightarrow> u64 \<Rightarrow> 'm \<Rightarrow> io_error + queue" where
  "queue_new mops sz desc avail used m =
     (let count = unat sz
      in if count = 0 \<or> 256 < count \<or> \<not> is_power_of_two count \<or>
            \<not> 16 dvd unat desc \<or> \<not> 2 dvd unat avail \<or> \<not> 4 dvd unat used
         then Inl invalid_queue
         else if \<not> list_all (range_ok mops m)
                  [(desc, count * 16), (avail, 6 + count * 2), (used, 6 + count * 8)]
         then Inl invalid_queue
         else Inr \<lparr>q_size = sz, q_desc_addr = desc, q_avail_addr = avail, q_used_addr = used,
                   q_next_avail = 0, q_used = 0\<rparr>)"

definition queue_index :: "queue \<Rightarrow> u16" where
  "queue_index q = q_next_avail q"

definition starting_at :: "queue \<Rightarrow> u16 \<Rightarrow> queue" where
  "starting_at q index = q\<lparr>q_next_avail := index, q_used := index\<rparr>"

definition read_u16 :: "'m mem_ops \<Rightarrow> u64 \<Rightarrow> 'm \<Rightarrow> io_error + u16" where
  "read_u16 mops a m =
     (case mem_read mops a 2 m of None \<Rightarrow> Inl invalid_queue | Some bs \<Rightarrow> Inr (from_le_bytes bs))"

definition posted :: "'m mem_ops \<Rightarrow> queue \<Rightarrow> 'm \<Rightarrow> io_error + u16" where
  "posted mops q m = read_u16 mops (q_avail_addr q + 2) m"

definition avail_slot :: "queue \<Rightarrow> nat \<Rightarrow> u16" where
  "avail_slot q ahead = (q_next_avail q + word_of_nat ahead) mod q_size q"

definition head_at :: "'m mem_ops \<Rightarrow> queue \<Rightarrow> nat \<Rightarrow> 'm \<Rightarrow> io_error + u16 option" where
  "head_at mops q ahead m =
     (case read_u16 mops (q_avail_addr q + 2) m of
        Inl e \<Rightarrow> Inl e
      | Inr avail \<Rightarrow>
          let count = avail - q_next_avail q
          in if q_size q < count then Inl invalid_queue
             else if unat count \<le> ahead then Inr None
             else
               case read_u16 mops
                      (q_avail_addr q + 4 + word_of_nat (unat (avail_slot q ahead)) * 2) m of
                 Inl e \<Rightarrow> Inl e
               | Inr head \<Rightarrow> Inr (Some head))"

definition queue_head :: "'m mem_ops \<Rightarrow> queue \<Rightarrow> 'm \<Rightarrow> io_error + u16 option" where
  "queue_head mops q m = head_at mops q 0 m"

definition set_notify :: "'m mem_ops \<Rightarrow> queue \<Rightarrow> bool \<Rightarrow> 'm \<Rightarrow> io_error + 'm" where
  "set_notify mops q on m =
     (let flags = if on then 0 else VRING_USED_F_NO_NOTIFY
      in case mem_write mops (q_used_addr q) (to_le_bytes flags) m of
           None \<Rightarrow> Inl invalid_queue
         | Some m \<Rightarrow> Inr m)"

definition wants_interrupt :: "'m mem_ops \<Rightarrow> queue \<Rightarrow> 'm \<Rightarrow> bool" where
  "wants_interrupt mops q m =
     (case read_u16 mops (q_avail_addr q) m of
        Inl _ \<Rightarrow> True
      | Inr flags \<Rightarrow> flags AND VRING_AVAIL_F_NO_INTERRUPT = 0)"

section \<open>Descriptor chains\<close>

record descriptor =
  d_address :: u64
  d_len :: nat
  d_flags :: u16
  d_next :: u16

definition read_descriptor :: "'m mem_ops \<Rightarrow> queue \<Rightarrow> u16 \<Rightarrow> 'm \<Rightarrow> descriptor option" where
  "read_descriptor mops q index m =
     (case mem_read mops (q_desc_addr q + word_of_nat (unat index) * 16) 16 m of
        None \<Rightarrow> None
      | Some bs \<Rightarrow> Some
          \<lparr>d_address = from_le_bytes (take 8 bs),
           d_len = unat (from_le_bytes (field 8 4 bs) :: u32),
           d_flags = from_le_bytes (field 12 2 bs),
           d_next = from_le_bytes (field 14 2 bs)\<rparr>)"

definition descriptor_ok :: "'m mem_ops \<Rightarrow> bool \<Rightarrow> 'm \<Rightarrow> descriptor \<Rightarrow> bool" where
  "descriptor_ok mops writable m d \<longleftrightarrow>
     d_flags d AND NOT 3 = 0 \<and> (d_flags d AND 2 \<noteq> 0) = writable \<and>
     d_len d \<le> BUFFER_SIZE + HEADER_LEN \<and>
     checked_add (d_address d) (word_of_nat (d_len d)) \<noteq> None \<and>
     mem_check mops (d_address d) (d_len d) m"

text \<open>
  The walk over a chain. A descriptor that was visited ends it with an error, so it visits each
  index once at most.
\<close>

function walk ::
  "'m mem_ops \<Rightarrow> queue \<Rightarrow> bool \<Rightarrow> 'm \<Rightarrow> u16 set \<Rightarrow> u16 \<Rightarrow> nat \<Rightarrow> (u64 \<times> nat) list \<Rightarrow>
   io_error + (u64 \<times> nat) list" where
  "walk mops q writable m visited index n0 result =
     (if q_size q \<le> index \<or> index \<in> visited then Inl invalid_queue
      else
        case read_descriptor mops q index m of
          None \<Rightarrow> Inl invalid_queue
        | Some d \<Rightarrow>
            if \<not> descriptor_ok mops writable m d then Inl invalid_queue
            else if BUFFER_SIZE + HEADER_LEN < n0 + d_len d then Inl invalid_queue
            else
              let result = result @ [(d_address d, d_len d)]
              in if d_flags d AND 1 = 0 then Inr result
                 else walk mops q writable m (insert index visited) (d_next d) (n0 + d_len d) result)"
  by pat_completeness auto
termination
proof (relation "measure (\<lambda>(mops, q, writable, m, visited, index, n0, result). card (UNIV - visited))",
    goal_cases)
  case (2 mops q writable m visited index n0 result d result')
  then have "UNIV - insert index visited \<subset> UNIV - visited" by auto
  then show ?case by (simp add: psubset_card_mono)
qed simp

declare walk.simps [simp del]

definition descriptors ::
  "'m mem_ops \<Rightarrow> queue \<Rightarrow> u16 \<Rightarrow> bool \<Rightarrow> 'm \<Rightarrow> io_error + (u64 \<times> nat) list" where
  "descriptors mops q head writable m = walk mops q writable m {} head 0 []"

section \<open>The used ring\<close>

definition queue_complete :: "'m mem_ops \<Rightarrow> queue \<Rightarrow> u16 \<Rightarrow> u32 \<Rightarrow> 'm \<Rightarrow> io_error + queue \<times> 'm" where
  "queue_complete mops q head len m =
     (let address = q_used_addr q + 4 + word_of_nat (unat (q_used q mod q_size q)) * 8
      in case mem_write mops address (to_le_bytes (word_of_nat (unat head) :: u32)) m of
           None \<Rightarrow> Inl invalid_queue
         | Some m \<Rightarrow>
             (case mem_write mops (address + 4) (to_le_bytes len) m of
                None \<Rightarrow> Inl invalid_queue
              | Some m \<Rightarrow>
                  let q = q\<lparr>q_used := q_used q + 1\<rparr>
                  in (case mem_write mops (q_used_addr q + 2) (to_le_bytes (q_used q)) m of
                        None \<Rightarrow> Inl invalid_queue
                      | Some m \<Rightarrow> Inr (q\<lparr>q_next_avail := q_next_avail q + 1\<rparr>, m))))"

section \<open>A guest memory\<close>

text \<open>One region from address zero on, as the device gets it on a small guest.\<close>

record ram =
  ram_size :: nat
  ram_bytes :: "u64 \<Rightarrow> byte"

definition ram_check :: "u64 \<Rightarrow> nat \<Rightarrow> ram \<Rightarrow> bool" where
  "ram_check a n m \<longleftrightarrow> unat a + n \<le> ram_size m \<and> unat a + n < 2 ^ 64"

definition ram_read :: "u64 \<Rightarrow> nat \<Rightarrow> ram \<Rightarrow> bytes option" where
  "ram_read a n m =
     (if ram_check a n m then Some (map (\<lambda>i. ram_bytes m (a + word_of_nat i)) [0..<n]) else None)"

definition ram_write :: "u64 \<Rightarrow> bytes \<Rightarrow> ram \<Rightarrow> ram option" where
  "ram_write a bs m =
     (if ram_check a (length bs) m
      then Some (m\<lparr>ram_bytes := (\<lambda>x. if unat a \<le> unat x \<and> unat x < unat a + length bs
                                     then bs ! (unat x - unat a) else ram_bytes m x)\<rparr>)
      else None)"

definition ram_ops :: "ram mem_ops" where
  "ram_ops = \<lparr>mem_check = ram_check, mem_slice = ram_check, mem_read = ram_read, mem_write = ram_write\<rparr>"

lemma unat_add_offset:
  "unat (a :: u64) + i < 2 ^ 64 \<Longrightarrow> unat (a + word_of_nat i) = unat a + i"
  by (simp add: unat_word_ariths unat_of_nat)

interpretation ram: guest_memory ram_ops
proof
  fix a b :: u64 and bs :: bytes and m m' :: ram and n :: nat
  assume w: "mem_write ram_ops a bs m = Some m'"
  then have c: "ram_check a (length bs) m" and m': "ram_size m' = ram_size m"
    and x: "ram_bytes m' = (\<lambda>x. if unat a \<le> unat x \<and> unat x < unat a + length bs
                then bs ! (unat x - unat a) else ram_bytes m x)"
    by (auto simp: ram_ops_def ram_write_def split: if_splits)
  show "mem_check ram_ops b n m' = mem_check ram_ops b n m"
    using m' by (simp add: ram_ops_def ram_check_def)
  have at: "ram_bytes m' (a + word_of_nat i) = bs ! i" if "i < length bs" for i
    using unat_add_offset [of a i] c that by (simp add: x ram_check_def)
  show "mem_read ram_ops a (length bs) m' = Some bs"
    using c m' by (auto simp: ram_ops_def ram_read_def ram_check_def at intro!: nth_equalityI)
  assume d: "disjoint_ranges a (length bs) b n" and bn: "unat b + n < 2 ^ 64"
  have "ram_bytes m' (b + word_of_nat i) = ram_bytes m (b + word_of_nat i)" if "i < n" for i
    using unat_add_offset [of b i] bn that d by (auto simp: x disjoint_ranges_def)
  then show "mem_read ram_ops b n m' = mem_read ram_ops b n m"
    using m' by (simp add: ram_ops_def ram_read_def ram_check_def)
next
  fix a :: u64 and n i k :: nat and m :: ram
  assume "mem_check ram_ops a n m" "i + k \<le> n" "unat a + n < 2 ^ 64"
  then show "mem_check ram_ops (a + word_of_nat i) k m"
    using unat_add_offset [of a i] by (simp add: ram_ops_def ram_check_def)
qed (auto simp: ram_ops_def ram_read_def ram_write_def split: if_splits)

section \<open>Chains stay within bounds\<close>

text \<open>
  What a chain is, read off the descriptor table: the indices from \<open>index\<close> on, each within the table,
  each descriptor acceptable, each but the last one linked to the one after it.
\<close>

fun linked ::
  "'m mem_ops \<Rightarrow> queue \<Rightarrow> bool \<Rightarrow> 'm \<Rightarrow> u16 \<Rightarrow> u16 list \<Rightarrow> bool" where
  "linked mops q writable m index [] = False"
| "linked mops q writable m index (i # is) =
     (i = index \<and> i < q_size q \<and>
      (case read_descriptor mops q i m of
         None \<Rightarrow> False
       | Some d \<Rightarrow> descriptor_ok mops writable m d \<and>
           (if d_flags d AND 1 = 0 then is = [] else linked mops q writable m (d_next d) is)))"

definition described :: "'m mem_ops \<Rightarrow> queue \<Rightarrow> 'm \<Rightarrow> u16 \<Rightarrow> u64 \<times> nat" where
  "described mops q m i = (case read_descriptor mops q i m of None \<Rightarrow> (0, 0) | Some d \<Rightarrow> (d_address d, d_len d))"

lemma walk_iff:
  "walk mops q writable m visited index n0 result = Inr ds \<longleftrightarrow>
   (\<exists>is. linked mops q writable m index is \<and> distinct is \<and> set is \<inter> visited = {} \<and>
      ds = result @ map (described mops q m) is \<and>
      n0 + (\<Sum>i\<leftarrow>is. snd (described mops q m i)) \<le> BUFFER_SIZE + HEADER_LEN)"
proof (induction mops q writable m visited index n0 result rule: walk.induct)
  case (1 mops q writable m visited index n0 result)
  let ?P = "\<lambda>visited index n0 result is. linked mops q writable m index is \<and> distinct is \<and>
      set is \<inter> visited = {} \<and> ds = result @ map (described mops q m) is \<and>
      n0 + (\<Sum>i\<leftarrow>is. snd (described mops q m i)) \<le> BUFFER_SIZE + HEADER_LEN"
  show ?case
  proof (cases "q_size q \<le> index \<or> index \<in> visited \<or> read_descriptor mops q index m = None")
    case True
    have "\<not> ?P visited index n0 result is" for "is" using True by (cases "is") auto
    then show ?thesis using True by (subst walk.simps) auto
  next
    case False
    then obtain d where d: "read_descriptor mops q index m = Some d" by blast
    have new: "\<not> (q_size q \<le> index \<or> index \<in> visited)" and lt: "index < q_size q"
      using False by auto
    have b: "described mops q m index = (d_address d, d_len d)" by (simp add: described_def d)
    show ?thesis
    proof (cases "descriptor_ok mops writable m d \<and> n0 + d_len d \<le> BUFFER_SIZE + HEADER_LEN")
      case bad: False
      have "\<not> ?P visited index n0 result is" for "is" using bad d b by (cases "is") auto
      then show ?thesis using bad new d by (subst walk.simps) auto
    next
      case ok: True
      let ?result = "result @ [(d_address d, d_len d)]"
      have cons: "?P visited index n0 result (index # is) \<longleftrightarrow>
          (if d_flags d AND 1 = 0 then is = [] \<and> ds = ?result
           else index \<notin> set is \<and> ?P visited (d_next d) (n0 + d_len d) ?result is)" for "is"
        using new lt ok d b by auto
      have ex: "(\<exists>is. ?P visited index n0 result is) \<longleftrightarrow> (\<exists>is. ?P visited index n0 result (index # is))"
      proof
        assume "\<exists>is. ?P visited index n0 result is"
        then obtain "is" where p: "?P visited index n0 result is" ..
        then obtain js where "is = index # js" by (cases "is") auto
        with p show "\<exists>is. ?P visited index n0 result (index # is)" by blast
      qed blast
      have step: "walk mops q writable m visited index n0 result =
          (if d_flags d AND 1 = 0 then Inr ?result
           else walk mops q writable m (insert index visited) (d_next d) (n0 + d_len d) ?result)"
        using new ok d by (subst walk.simps) auto
      show ?thesis
      proof (cases "d_flags d AND 1 = 0")
        case True
        then show ?thesis unfolding step ex cons by auto
      next
        case more: False
        have "walk mops q writable m (insert index visited) (d_next d) (n0 + d_len d) ?result = Inr ds \<longleftrightarrow>
            (\<exists>is. ?P (insert index visited) (d_next d) (n0 + d_len d) ?result is)"
          using ok by (intro "1.IH" [OF new d _ _ refl more]) (simp_all add: not_less)
        also have "\<dots> \<longleftrightarrow> (\<exists>is. index \<notin> set is \<and> ?P visited (d_next d) (n0 + d_len d) ?result is)" by auto
        finally show ?thesis unfolding step ex cons using more by simp
      qed
    qed
  qed
qed

section \<open>The avail ring\<close>

text \<open>
  The size is a power of two, so the slot of a position is the same before and after the 16-bit
  index wraps.
\<close>

definition queue_wf :: "'m mem_ops \<Rightarrow> queue \<Rightarrow> 'm \<Rightarrow> bool" where
  "queue_wf mops q m \<longleftrightarrow>
     (let count = unat (q_size q)
      in 0 < count \<and> count \<le> 256 \<and> is_power_of_two count \<and>
         list_all (range_ok mops m)
           [(q_desc_addr q, count * 16), (q_avail_addr q, 6 + count * 2), (q_used_addr q, 6 + count * 8)])"

lemma queue_new_wf:
  assumes "queue_new mops sz desc avail used m = Inr q"
  shows "queue_wf mops q m \<and> q_next_avail q = 0 \<and> q_used q = 0"
  using assms by (auto simp: queue_new_def queue_wf_def Let_def split: if_splits)

lemma power_of_two_dvd: "is_power_of_two n \<Longrightarrow> n \<le> 256 \<Longrightarrow> n dvd 2 ^ 16"
proof -
  assume "is_power_of_two n" "n \<le> 256"
  then obtain k where k: "n = 2 ^ k" by (auto simp: is_power_of_two_def)
  with \<open>n \<le> 256\<close> have "(2 :: nat) ^ k < 2 ^ 16" by simp
  then have "k < 16" by (rule power_less_imp_less_exp [rotated]) simp
  then show "n dvd 2 ^ 16" unfolding k by (intro le_imp_power_dvd) simp
qed

lemma ring_slot:
  assumes "queue_wf mops q m"
  shows "unat ((i + word_of_nat k) mod q_size q) = (unat i + k) mod unat (q_size q)"
proof -
  have "unat (q_size q) dvd 2 ^ 16"
    using assms power_of_two_dvd by (simp add: queue_wf_def Let_def)
  then show ?thesis
    by (simp add: unat_mod unat_word_ariths unat_of_nat mod_mod_cancel mod_add_right_eq)
qed

text \<open>
  \<open>waiting_heads q m hs\<close>: the driver has posted the heads \<open>hs\<close> and the device has taken none of them.
\<close>

definition avail_ring_addr :: "queue \<Rightarrow> nat \<Rightarrow> u64" where
  "avail_ring_addr q i = q_avail_addr q + 4 + word_of_nat ((unat (q_next_avail q) + i) mod unat (q_size q)) * 2"

definition waiting_heads :: "'m mem_ops \<Rightarrow> queue \<Rightarrow> 'm \<Rightarrow> u16 list \<Rightarrow> bool" where
  "waiting_heads mops q m hs \<longleftrightarrow>
     length hs \<le> unat (q_size q) \<and>
     read_u16 mops (q_avail_addr q + 2) m = Inr (q_next_avail q + word_of_nat (length hs)) \<and>
     (\<forall>i < length hs. read_u16 mops (avail_ring_addr q i) m = Inr (hs ! i))"

lemma head_at_waiting:
  assumes "queue_wf mops q m" "waiting_heads mops q m hs"
  shows "head_at mops q ahead m = Inr (if ahead < length hs then Some (hs ! ahead) else None)"
proof -
  have len: "length hs \<le> unat (q_size q)" "unat (q_size q) \<le> 256"
    using assms by (auto simp: waiting_heads_def queue_wf_def Let_def)
  let ?count = "q_next_avail q + word_of_nat (length hs) - q_next_avail q"
  have count: "unat ?count = length hs" using len by (simp add: unat_of_nat)
  then have "\<not> q_size q < ?count" using len(1) by (simp only: word_less_nat_alt not_less)
  moreover have "read_u16 mops (q_avail_addr q + 4 + word_of_nat (unat (avail_slot q ahead)) * 2) m
      = Inr (hs ! ahead)" if "ahead < length hs"
    using that assms(2) ring_slot [OF assms(1)]
    by (simp add: waiting_heads_def avail_ring_addr_def avail_slot_def)
  ultimately show ?thesis
    using assms(2) count by (auto simp: head_at_def waiting_heads_def Let_def)
qed

text \<open>The areas of a queue the driver laid out as the specification asks.\<close>

definition rings_apart :: "queue \<Rightarrow> bool" where
  "rings_apart q \<longleftrightarrow>
     disjoint_ranges (q_used_addr q) (6 + unat (q_size q) * 8) (q_avail_addr q) (6 + unat (q_size q) * 2)"

text \<open>Address arithmetic within an area that does not wrap.\<close>

lemma area_addr:
  assumes "range_ok mops m (a, n)" "i + k \<le> n" "n < 2 ^ 32"
  shows "unat (a + word_of_nat i) = unat a + i" "unat a + n < 2 ^ 64"
proof -
  from assms(1,3) show b: "unat a + n < 2 ^ 64"
    by (auto simp: range_ok_def checked_add_def unat_of_nat split: if_splits)
  show "unat (a + word_of_nat i) = unat a + i"
    using unat_add_offset [of a i] b assms(2) by simp
qed

text \<open>The device hands the oldest head back: it is gone from the avail ring and in the used ring.\<close>

definition used_entry :: "queue \<Rightarrow> nat" where
  "used_entry q = 4 + unat (q_used q mod q_size q) * 8"

lemma used_entry_addr:
  "q_used_addr q + 4 + word_of_nat (unat (q_used q mod q_size q)) * 8
   = q_used_addr q + word_of_nat (used_entry q)"
  "q_used_addr q + 4 + word_of_nat (unat (q_used q mod q_size q)) * 8 + 4
   = q_used_addr q + word_of_nat (used_entry q + 4)"
  by (simp_all add: used_entry_def)

text \<open>A write of \<open>bs\<close> at offset \<open>i\<close> of an area, and what it leaves alone.\<close>

definition wrote :: "'m mem_ops \<Rightarrow> u64 \<Rightarrow> nat \<Rightarrow> nat \<Rightarrow> bytes \<Rightarrow> 'm \<Rightarrow> 'm \<Rightarrow> bool" where
  "wrote mops a n i bs m m' \<longleftrightarrow>
     mem_write mops (a + word_of_nat i) bs m = Some m' \<and>
     mem_read mops (a + word_of_nat i) (length bs) m' = Some bs \<and>
     (\<forall>b k. disjoint_ranges a n b k \<longrightarrow> unat b + k < 2 ^ 64 \<longrightarrow> mem_read mops b k m' = mem_read mops b k m) \<and>
     (\<forall>j k. j + k \<le> n \<longrightarrow> j + k \<le> i \<or> i + length bs \<le> j \<longrightarrow>
        mem_read mops (a + word_of_nat j) k m' = mem_read mops (a + word_of_nat j) k m)"

lemma wroteD:
  assumes "wrote mops a n i bs m m'"
  shows "mem_write mops (a + word_of_nat i) bs m = Some m'"
    and "mem_read mops (a + word_of_nat i) (length bs) m' = Some bs"
    and "disjoint_ranges a n b k \<Longrightarrow> unat b + k < 2 ^ 64 \<Longrightarrow> mem_read mops b k m' = mem_read mops b k m"
    and "j + k \<le> n \<Longrightarrow> j + k \<le> i \<or> i + length bs \<le> j \<Longrightarrow>
      mem_read mops (a + word_of_nat j) k m' = mem_read mops (a + word_of_nat j) k m"
  using assms unfolding wrote_def by blast+

context guest_memory
begin

lemma range_ok_write:
  "mem_write mops a bs m = Some m' \<Longrightarrow> range_ok mops m' r = range_ok mops m r"
  by (simp add: range_ok_def write_check)

lemma queue_wf_write:
  "mem_write mops a bs m = Some m' \<Longrightarrow> queue_wf mops q m' = queue_wf mops q m"
  by (simp add: queue_wf_def range_ok_write)

text \<open>Writing within a checked area succeeds, reads back and leaves everything outside alone.\<close>

lemma area_write:
  assumes "range_ok mops m (a, n)" "i + length bs \<le> n" "n < 2 ^ 32"
  shows "\<exists>m'. wrote mops a n i bs m m'"
proof -
  note bound = area_addr [OF assms]
  have "mem_check mops a n m" using assms(1) by (simp add: range_ok_def)
  then have "mem_check mops (a + word_of_nat i) (length bs) m"
    using assms(2) bound(2) by (rule check_part)
  then obtain m' where w: "mem_write mops (a + word_of_nat i) bs m = Some m'"
    using write_checked by blast
  have "mem_read mops b k m' = mem_read mops b k m"
    if "disjoint_ranges a n b k" "unat b + k < 2 ^ 64" for b k
    using that assms(2) bound(1) by (intro read_other [OF w]) (auto simp: disjoint_ranges_def)
  moreover have "mem_read mops (a + word_of_nat j) k m' = mem_read mops (a + word_of_nat j) k m"
    if "j + k \<le> n" "j + k \<le> i \<or> i + length bs \<le> j" for j k
    using that bound area_addr(1) [OF assms(1) that(1) assms(3)]
    by (intro read_other [OF w]) (auto simp: disjoint_ranges_def)
  ultimately show ?thesis using w read_same [OF w] unfolding wrote_def by blast
qed

lemma read_u16_area:
  assumes "mem_read mops (a + word_of_nat i) 2 m = Some (to_le_bytes (v :: u16))"
  shows "read_u16 mops (a + word_of_nat i) m = Inr v"
  using assms by (simp add: read_u16_def codec_simps)

lemma complete_writes:
  assumes wf: "queue_wf mops q m"
  shows "\<exists>m'. queue_complete mops q head len m
      = Inr (q\<lparr>q_used := q_used q + 1, q_next_avail := q_next_avail q + 1\<rparr>, m') \<and>
    queue_wf mops q m' \<and>
    mem_read mops (q_used_addr q + word_of_nat (used_entry q)) 4 m'
      = Some (to_le_bytes (word_of_nat (unat head) :: u32)) \<and>
    mem_read mops (q_used_addr q + word_of_nat (used_entry q + 4)) 4 m' = Some (to_le_bytes len) \<and>
    read_u16 mops (q_used_addr q + 2) m' = Inr (q_used q + 1) \<and>
    (\<forall>b k. disjoint_ranges (q_used_addr q) (6 + unat (q_size q) * 8) b k \<longrightarrow> unat b + k < 2 ^ 64 \<longrightarrow>
       mem_read mops b k m' = mem_read mops b k m) \<and>
    (\<forall>j. 4 + j * 8 \<noteq> used_entry q \<longrightarrow> j < unat (q_size q) \<longrightarrow>
       mem_read mops (q_used_addr q + word_of_nat (4 + j * 8)) 8 m'
         = mem_read mops (q_used_addr q + word_of_nat (4 + j * 8)) 8 m)"
proof -
  let ?u = "q_used_addr q" and ?n = "6 + unat (q_size q) * 8" and ?e = "used_entry q"
  have area: "range_ok mops m (?u, ?n)" and pos: "0 < unat (q_size q)" and small: "?n < 2 ^ 32"
    using wf by (auto simp: queue_wf_def Let_def)
  have e: "?e + 4 + 4 \<le> ?n" "?e = 4 + unat (q_used q) mod unat (q_size q) * 8"
    using pos mod_less_divisor [OF pos, of "unat (q_used q)"] by (auto simp: used_entry_def unat_mod)
  let ?h = "to_le_bytes (word_of_nat (unat head) :: u32)" and ?l = "to_le_bytes len"
    and ?i = "to_le_bytes (q_used q + 1)"
  obtain m1 where m1: "wrote mops ?u ?n ?e ?h m m1"
    using area_write [OF area, of ?e ?h] e small by auto
  have area1: "range_ok mops m1 (?u, ?n)" using area range_ok_write [OF wroteD(1) [OF m1]] by simp
  obtain m2 where m2: "wrote mops ?u ?n (?e + 4) ?l m1 m2"
    using area_write [OF area1, of "?e + 4" ?l] e small by auto
  have area2: "range_ok mops m2 (?u, ?n)" using area1 range_ok_write [OF wroteD(1) [OF m2]] by simp
  obtain m3 where m3: "wrote mops ?u ?n 2 ?i m2 m3"
    using area_write [OF area2, of 2 ?i] e small by auto
  note w = wroteD(1) [OF m1] wroteD(1) [OF m2] wroteD(1) [OF m3, simplified]
  show ?thesis
  proof (intro exI [of _ m3] conjI allI impI)
    show "queue_complete mops q head len m
        = Inr (q\<lparr>q_used := q_used q + 1, q_next_avail := q_next_avail q + 1\<rparr>, m3)"
      unfolding queue_complete_def used_entry_addr Let_def using w by (simp add: add.assoc)
    show "queue_wf mops q m3"
      using wf queue_wf_write [OF w(1)] queue_wf_write [OF w(2)] queue_wf_write [OF w(3)] by simp
    show "mem_read mops (?u + word_of_nat ?e) 4 m3 = Some ?h"
      using wroteD(4) [OF m3, of ?e 4] wroteD(4) [OF m2, of ?e 4] wroteD(2) [OF m1] e by simp
    show "mem_read mops (?u + word_of_nat (?e + 4)) 4 m3 = Some ?l"
      using wroteD(4) [OF m3, of "?e + 4" 4] wroteD(2) [OF m2] e by simp
    show "read_u16 mops (?u + 2) m3 = Inr (q_used q + 1)"
      using wroteD(2) [OF m3] by (simp add: read_u16_def codec_simps)
    show "mem_read mops b k m3 = mem_read mops b k m"
      if "disjoint_ranges ?u ?n b k" "unat b + k < 2 ^ 64" for b k
      using wroteD(3) [OF m1 that] wroteD(3) [OF m2 that] wroteD(3) [OF m3 that] by simp
    show "mem_read mops (?u + word_of_nat (4 + j * 8)) 8 m3 = mem_read mops (?u + word_of_nat (4 + j * 8)) 8 m"
      if "4 + j * 8 \<noteq> ?e" "j < unat (q_size q)" for j
    proof -
      have out: "4 + j * 8 + 8 \<le> ?n" "4 + j * 8 + 8 \<le> ?e \<or> ?e + 8 \<le> 4 + j * 8"
        using that e(2) by (auto simp: not_less_eq less_Suc_eq_le neq_iff)
      then show ?thesis
        using wroteD(4) [OF m1, of "4 + j * 8" 8] wroteD(4) [OF m2, of "4 + j * 8" 8]
          wroteD(4) [OF m3, of "4 + j * 8" 8] by (auto simp del: of_nat_add of_nat_mult)
    qed
  qed
qed

lemma complete_waiting:
  assumes wf: "queue_wf mops q m" and apart: "rings_apart q" and ws: "waiting_heads mops q m (h # hs)"
    and fin: "queue_complete mops q head len m = Inr (q', m')"
  shows "waiting_heads mops q' m' hs"
proof -
  let ?a = "q_avail_addr q" and ?n = "6 + unat (q_size q) * 2"
  have pos: "0 < unat (q_size q)" and area: "range_ok mops m (?a, ?n)" and small: "?n < 2 ^ 32"
    using wf by (auto simp: queue_wf_def Let_def)
  have q': "q' = q\<lparr>q_used := q_used q + 1, q_next_avail := q_next_avail q + 1\<rparr>"
    and far: "\<And>b k. disjoint_ranges (q_used_addr q) (6 + unat (q_size q) * 8) b k \<Longrightarrow>
      unat b + k < 2 ^ 64 \<Longrightarrow> mem_read mops b k m' = mem_read mops b k m"
    using complete_writes [OF wf, of head len] fin by auto
  have same: "read_u16 mops (?a + word_of_nat i) m' = read_u16 mops (?a + word_of_nat i) m" if "i + 2 \<le> ?n" for i
    using far [of "?a + word_of_nat i" 2] apart that area_addr [OF area that small]
    by (auto simp: read_u16_def rings_apart_def disjoint_ranges_def)
  have slot: "avail_ring_addr q' i = avail_ring_addr q (Suc i)" for i
  proof -
    have "(unat (q_next_avail q + 1) + i) mod unat (q_size q) = unat ((q_next_avail q + 1 + word_of_nat i) mod q_size q)"
      by (rule ring_slot [OF wf, symmetric])
    also have "q_next_avail q + 1 + word_of_nat i = q_next_avail q + word_of_nat (Suc i)" by simp
    also have "unat (\<dots> mod q_size q) = (unat (q_next_avail q) + Suc i) mod unat (q_size q)"
      by (rule ring_slot [OF wf])
    finally show ?thesis by (simp only: avail_ring_addr_def q') simp
  qed
  have "read_u16 mops (avail_ring_addr q j) m' = read_u16 mops (avail_ring_addr q j) m" for j
  proof -
    let ?s = "(unat (q_next_avail q) + j) mod unat (q_size q)"
    have "avail_ring_addr q j = ?a + word_of_nat (4 + ?s * 2)" by (simp add: avail_ring_addr_def)
    moreover have "4 + ?s * 2 + 2 \<le> ?n" using mod_less_divisor [OF pos, of "unat (q_next_avail q) + j"] by linarith
    ultimately show ?thesis using same by metis
  qed
  moreover have "read_u16 mops (?a + 2) m' = read_u16 mops (?a + 2) m" using same [of 2] by simp
  ultimately show ?thesis
    using ws unfolding waiting_heads_def slot by (auto simp: q' algebra_simps)
qed

end

lemma card_below: "card {i. i < (n :: u16)} = unat n"
proof -
  have "unat ` {i. i < n} = {..<unat n}"
  proof
    show "{..<unat n} \<subseteq> unat ` {i. i < n}"
    proof
      fix k assume k: "k \<in> {..<unat n}"
      have "unat n < 2 ^ 16" using unsigned_less [of n] by simp
      with k have "unat (word_of_nat k :: u16) = k" by (simp add: unat_of_nat)
      with k show "k \<in> unat ` {i. i < n}"
        by (intro image_eqI [of _ _ "word_of_nat k"]) (auto simp: word_less_nat_alt)
    qed
  qed (auto simp: word_less_nat_alt)
  moreover have "card (unat ` {i. i < n}) = card {i. i < n}"
    by (rule card_image) (auto simp: inj_on_def word_unat_eq_iff)
  ultimately show ?thesis by simp
qed

section \<open>Properties\<close>

lemma linked_all:
  "linked mops q writable m index is \<Longrightarrow>
   is \<noteq> [] \<and> set is \<subseteq> {i. i < q_size q} \<and> list_all (\<lambda>i. range_ok mops m (described mops q m i)) is"
proof (induction "is" arbitrary: index)
  case (Cons i "is")
  then obtain d where d: "read_descriptor mops q i m = Some d" "descriptor_ok mops writable m d"
    by (auto split: option.splits)
  then have "range_ok mops m (described mops q m i)"
    by (simp add: described_def descriptor_ok_def range_ok_def)
  then show ?case using Cons d by (cases "is") (auto split: if_splits)
qed simp

text \<open>
  C20. Whatever the guest writes into its descriptor table, the walk over a chain ends. It accepts
  exactly the chains of acceptable descriptors that are linked from the head to one without a
  successor, visit no descriptor twice and together are no larger than the device's buffer and one
  packet header, and returns their buffers in order. An accepted chain is harmless: at least one buffer
  and no more than the queue has descriptors, every buffer in guest memory and below the end of the
  address space.
\<close>

theorem chain_in_bounds:
  "(descriptors mops q head writable m = Inr ds \<longleftrightarrow>
     (\<exists>is. linked mops q writable m head is \<and> distinct is \<and> ds = map (described mops q m) is \<and>
        sum_list (map snd ds) \<le> BUFFER_SIZE + HEADER_LEN)) \<and>
   (descriptors mops q head writable m = Inr ds \<longrightarrow>
     ds \<noteq> [] \<and> length ds \<le> unat (q_size q) \<and>
     (\<forall>(a, n) \<in> set ds. mem_check mops a n m \<and> unat a + n < 2 ^ 64))"
proof (intro conjI impI)
  show iff: "descriptors mops q head writable m = Inr ds \<longleftrightarrow>
     (\<exists>is. linked mops q writable m head is \<and> distinct is \<and> ds = map (described mops q m) is \<and>
        sum_list (map snd ds) \<le> BUFFER_SIZE + HEADER_LEN)"
    by (auto simp: descriptors_def walk_iff comp_def)
  assume "descriptors mops q head writable m = Inr ds"
  then obtain "is" where "is": "linked mops q writable m head is" "distinct is"
    "ds = map (described mops q m) is" and total: "sum_list (map snd ds) \<le> BUFFER_SIZE + HEADER_LEN"
    using iff by blast
  have len: "length ds \<le> card {i. i < q_size q}"
    using linked_all [OF "is"(1)] "is"(2,3) distinct_card [of "is"] card_mono [of "{i. i < q_size q}" "set is"] by simp
  then show "length ds \<le> unat (q_size q)" by (simp only: card_below)
  show "ds \<noteq> []" using linked_all [OF "is"(1)] "is"(3) by simp
  have "n < 2 ^ 32" if "(a, n) \<in> set ds" for a n
    using that total member_le_sum_list [of n "map snd ds"] by (force simp: BUFFER_SIZE_def HEADER_LEN_def)
  moreover have "range_ok mops m r" if "r \<in> set ds" for r
    using that linked_all [OF "is"(1)] "is"(3) by (auto simp: list_all_iff)
  ultimately show "\<forall>(a, n) \<in> set ds. mem_check mops a n m \<and> unat a + n < 2 ^ 64"
    using area_addr(2) [of mops m _ _ 0 0] by (fastforce simp: range_ok_def)
qed

text \<open>A small queue in a small memory: one descriptor of 64 bytes at address 4096, posted once.\<close>

definition sample_queue :: queue where
  "sample_queue = \<lparr>q_size = 2, q_desc_addr = 0, q_avail_addr = 64, q_used_addr = 128,
                   q_next_avail = 65535, q_used = 65535\<rparr>"

definition sample_ram :: ram where
  "sample_ram = \<lparr>ram_size = 8192, ram_bytes = (\<lambda>a. if a = 1 then 16 else if a = 8 then 64 else 0)\<rparr>"

lemma sample_descriptor:
  "read_descriptor ram_ops sample_queue 0 sample_ram
   = Some \<lparr>d_address = 4096, d_len = 64, d_flags = 0, d_next = 0\<rparr>"
proof -
  have "ram_read 0 16 sample_ram = Some [0, 16, 0, 0, 0, 0, 0, 0, 64, 0, 0, 0, 0, 0, 0, 0]"
    by (simp add: ram_read_def ram_check_def sample_ram_def upt_conv_Cons)
  then show ?thesis
    by (simp add: read_descriptor_def ram_ops_def sample_queue_def field_def from_le_bytes_def)
qed

lemma sample_queue_ok:
  "queue_wf ram_ops sample_queue sample_ram" "rings_apart sample_queue"
  "waiting_heads ram_ops sample_queue sample_ram [0]"
proof -
  have "is_power_of_two 2"
    unfolding is_power_of_two_def by (simp add: image_iff) (rule bexI [of _ 1], simp_all)
  then show "queue_wf ram_ops sample_queue sample_ram"
    by (simp add: queue_wf_def sample_queue_def range_ok_def checked_add_def ram_ops_def
        ram_check_def sample_ram_def)
  show "rings_apart sample_queue"
    by (simp add: rings_apart_def sample_queue_def disjoint_ranges_def)
  have "read_u16 ram_ops 66 sample_ram = Inr 0" "read_u16 ram_ops 70 sample_ram = Inr 0"
    by (simp_all add: read_u16_def ram_ops_def ram_read_def ram_check_def sample_ram_def
        upt_conv_Cons from_le_bytes_def)
  then show "waiting_heads ram_ops sample_queue sample_ram [0]"
    by (simp add: waiting_heads_def sample_queue_def avail_ring_addr_def)
qed

theorem chain_in_bounds_witness:
  "descriptors ram_ops sample_queue 0 False sample_ram = Inr [(4096, 64)] \<and>
   length [(4096 :: u64, 64 :: nat)] \<le> unat (q_size sample_queue) \<and>
   mem_check ram_ops 4096 64 sample_ram"
proof -
  have r: "descriptors ram_ops sample_queue 0 False sample_ram = Inr [(4096, 64)]"
    by (simp add: descriptors_def walk.simps sample_descriptor descriptor_ok_def checked_add_def
        BUFFER_SIZE_def HEADER_LEN_def)
      (simp add: ram_ops_def ram_check_def sample_ram_def sample_queue_def)
  from chain_in_bounds [of ram_ops sample_queue 0 False sample_ram "[(4096, 64)]"] r show ?thesis by simp
qed

text \<open>
  C19. The queue is a first-in first-out channel in both directions, across the wrap of its 16-bit
  indices. When the driver has posted the heads \<open>h # hs\<close>, the device reads exactly these, in order;
  handing the oldest one back succeeds, leaves \<open>hs\<close> waiting, writes its id and length into the next
  entry of the used ring, advances the used index by one and changes no other used entry.
\<close>

theorem virtqueue_fifo:
  assumes "guest_memory mops" "queue_wf mops q m" "rings_apart q" "waiting_heads mops q m (h # hs)"
  shows "(\<forall>i. head_at mops q i m = Inr (if i < length (h # hs) then Some ((h # hs) ! i) else None)) \<and>
    (\<exists>q' m'. queue_complete mops q h len m = Inr (q', m') \<and>
       queue_wf mops q' m' \<and> rings_apart q' \<and> waiting_heads mops q' m' hs \<and>
       q_used q' = q_used q + 1 \<and> read_u16 mops (q_used_addr q' + 2) m' = Inr (q_used q') \<and>
       mem_read mops (q_used_addr q + word_of_nat (used_entry q)) 4 m'
         = Some (to_le_bytes (word_of_nat (unat h) :: u32)) \<and>
       mem_read mops (q_used_addr q + word_of_nat (used_entry q + 4)) 4 m' = Some (to_le_bytes len) \<and>
       (\<forall>j. 4 + j * 8 \<noteq> used_entry q \<longrightarrow> j < unat (q_size q) \<longrightarrow>
          mem_read mops (q_used_addr q + word_of_nat (4 + j * 8)) 8 m'
            = mem_read mops (q_used_addr q + word_of_nat (4 + j * 8)) 8 m))"
proof (intro conjI allI)
  show "head_at mops q i m = Inr (if i < length (h # hs) then Some ((h # hs) ! i) else None)" for i
    by (rule head_at_waiting [OF assms(2,4)])
  let ?q = "q\<lparr>q_used := q_used q + 1, q_next_avail := q_next_avail q + 1\<rparr>"
  obtain m' where m': "queue_complete mops q h len m = Inr (?q, m')" "queue_wf mops q m'"
      "mem_read mops (q_used_addr q + word_of_nat (used_entry q)) 4 m'
         = Some (to_le_bytes (word_of_nat (unat h) :: u32))"
      "mem_read mops (q_used_addr q + word_of_nat (used_entry q + 4)) 4 m' = Some (to_le_bytes len)"
      "read_u16 mops (q_used_addr q + 2) m' = Inr (q_used q + 1)"
      "\<forall>j. 4 + j * 8 \<noteq> used_entry q \<longrightarrow> j < unat (q_size q) \<longrightarrow>
          mem_read mops (q_used_addr q + word_of_nat (4 + j * 8)) 8 m'
            = mem_read mops (q_used_addr q + word_of_nat (4 + j * 8)) 8 m"
    using guest_memory.complete_writes [OF assms(1,2), of h len] by metis
  moreover have "waiting_heads mops ?q m' hs"
    by (rule guest_memory.complete_waiting [OF assms m'(1)])
  moreover have "queue_wf mops ?q m'" "rings_apart ?q"
    using m'(2) assms(3) by (simp_all add: queue_wf_def rings_apart_def)
  ultimately show "\<exists>q' m'. queue_complete mops q h len m = Inr (q', m') \<and>
       queue_wf mops q' m' \<and> rings_apart q' \<and> waiting_heads mops q' m' hs \<and>
       q_used q' = q_used q + 1 \<and> read_u16 mops (q_used_addr q' + 2) m' = Inr (q_used q') \<and>
       mem_read mops (q_used_addr q + word_of_nat (used_entry q)) 4 m'
         = Some (to_le_bytes (word_of_nat (unat h) :: u32)) \<and>
       mem_read mops (q_used_addr q + word_of_nat (used_entry q + 4)) 4 m' = Some (to_le_bytes len) \<and>
       (\<forall>j. 4 + j * 8 \<noteq> used_entry q \<longrightarrow> j < unat (q_size q) \<longrightarrow>
          mem_read mops (q_used_addr q + word_of_nat (4 + j * 8)) 8 m'
            = mem_read mops (q_used_addr q + word_of_nat (4 + j * 8)) 8 m)"
    by (intro exI [of _ ?q] exI [of _ m']) simp
qed

theorem virtqueue_fifo_witness:
  "head_at ram_ops sample_queue 0 sample_ram = Inr (Some 0) \<and>
   (\<exists>q' m'. queue_complete ram_ops sample_queue 0 64 sample_ram = Inr (q', m') \<and>
      waiting_heads ram_ops q' m' [] \<and> q_used q' = 0)"
proof -
  from virtqueue_fifo [OF ram.guest_memory_axioms sample_queue_ok, of 64] show ?thesis
    by (auto simp: sample_queue_def)
qed

end
