(* ===== verification/Vsock_Transport.thy ===== *)
theory Vsock_Transport
  imports Vsock_Mux Virt_Queue
begin

text \<open>
  The device between the virtqueues and the multiplexer,
  \<^verbatim>\<open>crates/shuru-linux/src/kvm/vsock.rs\<close>: packets are taken from descriptor chains and put into
  them, one pass serves both queues, and the control state connects, freezes and restores the
  device. Guest memory does not change during a pass.
\<close>

definition BATCH :: nat where "BATCH = 256"
definition KICK :: u64 where "KICK = push_bit 40 1"
definition VIRTIO_VSOCK_EVENT_TRANSPORT_RESET :: u32 where "VIRTIO_VSOCK_EVENT_TRANSPORT_RESET = 0"
definition MAX_CONNECT_LINE :: nat where "MAX_CONNECT_LINE = 32"
definition MAX_HANDSHAKES :: nat where "MAX_HANDSHAKES = 16"

section \<open>Packets in descriptor chains\<close>

text \<open>
  A slice of guest memory is its address and its length. \<open>split_chain\<close> is the loop of \<^verbatim>\<open>split\<close>
  with its four variables.
\<close>

type_synonym slices = "(u64 \<times> nat) list"

abbreviation slices_len :: "slices \<Rightarrow> nat" where
  "slices_len sls \<equiv> sum_list (map snd sls)"

fun split_chain ::
  "'m mem_ops \<Rightarrow> 'm \<Rightarrow> slices \<Rightarrow> slices \<Rightarrow> slices \<Rightarrow> nat \<Rightarrow> nat \<Rightarrow> io_error + slices \<times> slices \<times> nat" where
  "split_chain mops m [] header payload missing len =
     (if 0 < missing then Inl invalid_queue else Inr (header, payload, len))"
| "split_chain mops m ((address, n) # ds) header payload missing len =
     (if n = 0 then split_chain mops m ds header payload missing len
      else if \<not> mem_slice mops address n m then Inl invalid_queue
      else
        let k = min missing n
        in split_chain mops m ds
             (if 0 < k then header @ [(address, k)] else header)
             (if k < n then payload @ [(address + word_of_nat k, n - k)] else payload)
             (missing - k) (if k < n then len + (n - k) else len))"

definition split :: "'m mem_ops \<Rightarrow> 'm \<Rightarrow> slices \<Rightarrow> io_error + slices \<times> slices \<times> nat" where
  "split mops m ds = split_chain mops m ds [] [] HEADER_LEN 0"

text \<open>
  Access through slices. A slice that was found is accessible, so there is no error to report.
\<close>

definition slice_bytes :: "'m mem_ops \<Rightarrow> 'm \<Rightarrow> u64 \<times> nat \<Rightarrow> bytes" where
  "slice_bytes mops m s = (case mem_read mops (fst s) (snd s) m of Some bs \<Rightarrow> bs | None \<Rightarrow> [])"

fun scatter :: "'m mem_ops \<Rightarrow> slices \<Rightarrow> bytes \<Rightarrow> 'm \<Rightarrow> 'm" where
  "scatter mops [] bs m = m"
| "scatter mops ((a, n) # sls) bs m =
     scatter mops sls (drop n bs)
       (case mem_write mops a (take n bs) m of Some m' \<Rightarrow> m' | None \<Rightarrow> m)"

definition tx_parse :: "'m mem_ops \<Rightarrow> 'm \<Rightarrow> slices \<Rightarrow> io_error + header \<times> payload" where
  "tx_parse mops m ds =
     (case split mops m ds of
        Inl e \<Rightarrow> Inl e
      | Inr (header, payload, len) \<Rightarrow>
          (case header_decode (concat (map (slice_bytes mops m) header)) of
             None \<Rightarrow> Inl invalid_queue
           | Some h \<Rightarrow> Inr (h, map (slice_bytes mops m) payload)))"

section \<open>A batch of rx buffers\<close>

record rx_chain =
  rc_head :: u16
  rc_header :: slices
  rc_payload :: slices
  rc_room :: nat
  rc_len :: u32

record 'm rx_batch =
  rb_mem :: 'm
  rb_queue :: queue
  rb_chains :: "rx_chain list"
  rb_done :: bool
  rb_invalid :: "u16 option"
  rb_error :: "io_error option"

definition batch_new :: "'m \<Rightarrow> queue \<Rightarrow> 'm rx_batch" where
  "batch_new m q =
     \<lparr>rb_mem = m, rb_queue = q, rb_chains = [], rb_done = False, rb_invalid = None, rb_error = None\<rparr>"

text \<open>One round of the loop in \<^verbatim>\<open>load\<close>.\<close>

definition load_next :: "'m mem_ops \<Rightarrow> 'm rx_batch \<Rightarrow> 'm rx_batch" where
  "load_next mops b =
     (let chains = rb_chains b; m = rb_mem b; q = rb_queue b
      in if length chains = BATCH then b\<lparr>rb_done := True\<rparr>
         else
           case head_at mops q (length chains) m of
             Inr (Some head) \<Rightarrow>
               (case (case descriptors mops q head True m of
                        Inl e \<Rightarrow> Inl e
                      | Inr ds \<Rightarrow> split mops m ds) of
                  Inr (header, payload, room) \<Rightarrow>
                    b\<lparr>rb_chains := chains @
                        [\<lparr>rc_head = head, rc_header = header, rc_payload = payload, rc_room = room,
                          rc_len = 0\<rparr>]\<rparr>
                | Inl _ \<Rightarrow>
                    b\<lparr>rb_invalid := (if chains = [] then Some head else rb_invalid b), rb_done := True\<rparr>)
           | Inr None \<Rightarrow> b\<lparr>rb_done := True\<rparr>
           | Inl e \<Rightarrow> b\<lparr>rb_error := Some e, rb_done := True\<rparr>)"

function load :: "'m mem_ops \<Rightarrow> nat \<Rightarrow> 'm rx_batch \<Rightarrow> 'm rx_batch" where
  "load mops index b =
     (if length (rb_chains b) \<le> index \<and> \<not> rb_done b then load mops index (load_next mops b) else b)"
  by pat_completeness auto
termination
  by (relation "measure (\<lambda>(mops, index, b). (Suc index - length (rb_chains b)) + of_bool (\<not> rb_done b))")
    (auto simp: load_next_def Let_def split: sum.splits option.splits)

declare load.simps [simp del]

definition batch_room :: "'m mem_ops \<Rightarrow> nat \<Rightarrow> 'm rx_batch \<Rightarrow> nat option \<times> 'm rx_batch" where
  "batch_room mops index b =
     (let b = load mops index b
      in (if index < length (rb_chains b)
          then Some (min (rc_room (rb_chains b ! index)) MAX_PACKET) else None, b))"

text \<open>Header slices longer than the encoded header would be an index out of range.\<close>

definition batch_put :: "'m mem_ops \<Rightarrow> nat \<Rightarrow> header \<Rightarrow> 'm rx_batch \<Rightarrow> 'm rx_batch option" where
  "batch_put mops index h b =
     (if index < length (rb_chains b)
      then
        let chain = rb_chains b ! index
        in if slices_len (rc_header chain) \<le> length (header_encode h)
           then Some (b\<lparr>rb_mem := scatter mops (rc_header chain) (header_encode h) (rb_mem b),
                        rb_chains := (rb_chains b)[index :=
                          chain\<lparr>rc_len := word_of_nat (HEADER_LEN + unat (h_len h))\<rparr>]\<rparr>)
           else None
      else None)"

text \<open>
  The parts of the buffers one \<^verbatim>\<open>readv\<close> fills: \<open>chain_parts\<close> are those of one chain, with a flag
  for the number of parts being used up.
\<close>

fun chain_parts :: "slices \<Rightarrow> nat \<Rightarrow> slices \<Rightarrow> slices \<times> bool" where
  "chain_parts [] room parts = (parts, False)"
| "chain_parts ((a, n) # sls) room parts =
     (if room = 0 then (parts, False)
      else if length parts = IOV_MAX then (parts, True)
      else chain_parts sls (room - min n room) (parts @ [(a, min n room)]))"

function recv_parts ::
  "'m mem_ops \<Rightarrow> nat \<Rightarrow> nat \<Rightarrow> slices \<Rightarrow> 'm rx_batch \<Rightarrow> slices \<times> 'm rx_batch" where
  "recv_parts mops index left parts b =
     (case batch_room mops index b of
        (room, b) \<Rightarrow>
          let room = min (case room of Some k \<Rightarrow> k | None \<Rightarrow> 0) left
          in if room = 0 then (parts, b)
             else
               case chain_parts (rc_payload (rb_chains b ! index)) room parts of
                 (parts, full) \<Rightarrow>
                   if full then (parts, b)
                   else recv_parts mops (index + 1) (left - room) parts b)"
  by pat_completeness auto
termination
  by (relation "measure (\<lambda>(mops, index, left, parts, b). left)") auto

declare recv_parts.simps [simp del]

definition batch_recv ::
  "'m mem_ops \<Rightarrow> socket \<Rightarrow> nat \<Rightarrow> nat \<Rightarrow> 'm rx_batch \<Rightarrow> (io_error + nat) \<times> socket \<times> 'm rx_batch" where
  "batch_recv mops s first n b =
     (case recv_parts mops first n [] b of
        (parts, b) \<Rightarrow>
          (case sock_recv (sum_list (map snd parts)) s of
             (Inl e, s) \<Rightarrow> (Inl e, s, b)
           | (Inr bs, s) \<Rightarrow>
               (Inr (length bs), s, b\<lparr>rb_mem := scatter mops parts bs (rb_mem b)\<rparr>)))"

definition batch_ops :: "'m mem_ops \<Rightarrow> 'm rx_batch rx_ops" where
  "batch_ops mops =
     \<lparr>rx_room = batch_room mops, rx_put = batch_put mops, rx_recv = batch_recv mops\<rparr>"

section \<open>The transport\<close>

text \<open>\<open>t_interrupts\<close> counts the interrupts raised.\<close>

record 'm transport =
  t_rx :: queue
  t_tx :: queue
  t_event :: queue
  t_mem :: 'm
  t_interrupts :: nat
  t_resetting :: "u16 option"

definition reset_guest :: "'m mem_ops \<Rightarrow> 'm transport \<Rightarrow> (io_error + unit) \<times> 'm transport" where
  "reset_guest mops t =
     (let q = t_event t; m = t_mem t
      in case posted mops q m of
           Inl e \<Rightarrow> (Inl e, t)
         | Inr count \<Rightarrow>
             (case queue_head mops q m of
                Inl e \<Rightarrow> (Inl e, t)
              | Inr None \<Rightarrow> (Inl OtherError, t)
              | Inr (Some head) \<Rightarrow>
                  (case descriptors mops q head True m of
                     Inl e \<Rightarrow> (Inl e, t)
                   | Inr ds \<Rightarrow>
                       (case ds of
                          (address, len) # _ \<Rightarrow>
                            if len < 4 then (Inl invalid_queue, t)
                            else
                              (case mem_write mops address
                                      (to_le_bytes VIRTIO_VSOCK_EVENT_TRANSPORT_RESET) m of
                                 None \<Rightarrow> (Inl invalid_queue, t)
                               | Some m \<Rightarrow>
                                   (case queue_complete mops q head (word_of_nat (min len 4)) m of
                                      Inl e \<Rightarrow> (Inl e, t\<lparr>t_mem := m\<rparr>)
                                    | Inr (q, m) \<Rightarrow>
                                        (Inr (),
                                         t\<lparr>t_event := q, t_mem := m,
                                           t_interrupts := t_interrupts t + of_bool (wants_interrupt mops q m),
                                           t_resetting := Some (count + 1)\<rparr>)))
                        | [] \<Rightarrow> (Inl invalid_queue, t)))))"

definition accepts_connects :: "'m mem_ops \<Rightarrow> 'm transport \<Rightarrow> (io_error + bool) \<times> 'm transport" where
  "accepts_connects mops t =
     (case t_resetting t of
        None \<Rightarrow> (Inr True, t)
      | Some handled \<Rightarrow>
          (case posted mops (t_event t) (t_mem t) of
             Inl e \<Rightarrow> (Inl e, t)
           | Inr count \<Rightarrow>
               if 0x8000 \<le> count - handled then (Inr False, t)
               else (Inr True, t\<lparr>t_resetting := None\<rparr>)))"

text \<open>The loop over the tx queue, with \<open>n\<close> rounds left.\<close>

fun process_tx ::
  "'m mem_ops \<Rightarrow> nat \<Rightarrow> queue \<Rightarrow> 'm \<Rightarrow> mux \<Rightarrow> bool \<Rightarrow> (io_error + bool) \<times> queue \<times> 'm \<times> mux" where
  "process_tx mops 0 q m mux used = (Inr used, q, m, mux)"
| "process_tx mops (Suc n) q m mux used =
     (if \<not> can_receive mux then (Inr used, q, m, mux)
      else
        case queue_head mops q m of
          Inl e \<Rightarrow> (Inl e, q, m, mux)
        | Inr None \<Rightarrow> (Inr used, q, m, mux)
        | Inr (Some head) \<Rightarrow>
            let mux =
                  (case descriptors mops q head False m of
                     Inl _ \<Rightarrow> mux
                   | Inr ds \<Rightarrow>
                       (case tx_parse mops m ds of
                          Inl _ \<Rightarrow> mux
                        | Inr (h, p) \<Rightarrow> mux_receive h p mux))
            in (case queue_complete mops q head 0 m of
                  Inl e \<Rightarrow> (Inl e, q, m, mux)
                | Inr (q, m) \<Rightarrow> process_tx mops n q m mux True))"

fun complete_all ::
  "'m mem_ops \<Rightarrow> (u16 \<times> u32) list \<Rightarrow> queue \<Rightarrow> 'm \<Rightarrow> (io_error + unit) \<times> queue \<times> 'm" where
  "complete_all mops [] q m = (Inr (), q, m)"
| "complete_all mops ((head, len) # hs) q m =
     (case queue_complete mops q head len m of
        Inl e \<Rightarrow> (Inl e, q, m)
      | Inr (q, m) \<Rightarrow> complete_all mops hs q m)"

text \<open>
  The pass over the rx queue: it returns whether buffers were used. \<^verbatim>\<open>chains[..used]\<close> panics when
  there are fewer.
\<close>

definition process_rx ::
  "'m mem_ops \<Rightarrow> queue \<Rightarrow> 'm \<Rightarrow> mux \<Rightarrow> ((io_error + bool) \<times> queue \<times> 'm \<times> mux) option" where
  "process_rx mops q m mux =
     do { (used, mux, b) \<leftarrow> mux_fill (batch_ops mops) mux (batch_new m q);
          chains \<leftarrow> (if used \<le> length (rb_chains b) then Some (take used (rb_chains b)) else None);
          let m = rb_mem b;
          case rb_error b of
            Some e \<Rightarrow> Some (Inl e, q, m, mux)
          | None \<Rightarrow>
              let heads = map (\<lambda>c. (rc_head c, rc_len c)) chains @
                    (case rb_invalid b of Some head \<Rightarrow> [(head, 0)] | None \<Rightarrow> [])
              in (case complete_all mops heads q m of
                    (Inl e, q, m) \<Rightarrow> Some (Inl e, q, m, mux)
                  | (Inr _, q, m) \<Rightarrow> Some (Inr (0 < used \<or> rb_invalid b \<noteq> None), q, m, mux)) }"

text \<open>
  One pass over both queues. \<^verbatim>\<open>process\<close> returns early with an error of any step, with what was
  done up to there; \<open>rx_drained\<close> is read before kicks are asked for again, the heads at the end after.
\<close>

definition process_end ::
  "'m mem_ops \<Rightarrow> bool \<Rightarrow> bool \<Rightarrow> bool \<Rightarrow> mux \<Rightarrow> 'm transport \<Rightarrow> (io_error + bool) \<times> 'm transport" where
  "process_end mops tx_used rx_used rx_drained mux t =
     (case set_notify mops (t_tx t) True (t_mem t) of
        Inl e \<Rightarrow> (Inl e, t)
      | Inr m \<Rightarrow>
          (case set_notify mops (t_rx t) True m of
             Inl e \<Rightarrow> (Inl e, t\<lparr>t_mem := m\<rparr>)
           | Inr m \<Rightarrow>
               let raise = (tx_used \<and> wants_interrupt mops (t_tx t) m) \<or>
                           (rx_used \<and> wants_interrupt mops (t_rx t) m);
                   t = t\<lparr>t_mem := m, t_interrupts := t_interrupts t + of_bool raise\<rparr>
               in if tx_used \<or> rx_used then (Inr True, t)
                  else
                    case (if can_receive mux then queue_head mops (t_tx t) m else Inr None) of
                      Inl e \<Rightarrow> (Inl e, t)
                    | Inr (Some _) \<Rightarrow> (Inr True, t)
                    | Inr None \<Rightarrow>
                        (case (if rx_drained then queue_head mops (t_rx t) m else Inr None) of
                           Inl e \<Rightarrow> (Inl e, t)
                         | Inr head \<Rightarrow> (Inr (head \<noteq> None), t))))"

definition process ::
  "'m mem_ops \<Rightarrow> nat \<Rightarrow> 'm transport \<Rightarrow> mux \<Rightarrow> ((io_error + bool) \<times> 'm transport \<times> mux) option" where
  "process mops now t mux =
     (case set_notify mops (t_tx t) False (t_mem t) of
        Inl e \<Rightarrow> Some (Inl e, t, mux)
      | Inr m \<Rightarrow>
          (case set_notify mops (t_rx t) False m of
             Inl e \<Rightarrow> Some (Inl e, t\<lparr>t_mem := m\<rparr>, mux)
           | Inr m \<Rightarrow>
               (case process_tx mops BATCH (t_tx t) m mux False of
                  (Inl e, tx, m, mux) \<Rightarrow> Some (Inl e, t\<lparr>t_tx := tx, t_mem := m\<rparr>, mux)
                | (Inr tx_used, tx, m, mux) \<Rightarrow>
                    let mux = mux_pump now mux
                    in do { (res, rx, m, mux) \<leftarrow> process_rx mops (t_rx t) m mux;
                            let t = t\<lparr>t_rx := rx, t_tx := tx, t_mem := m\<rparr>;
                            case res of
                              Inl e \<Rightarrow> Some (Inl e, t, mux)
                            | Inr rx_used \<Rightarrow>
                                (case queue_head mops rx m of
                                   Inl e \<Rightarrow> Some (Inl e, t, mux)
                                 | Inr head \<Rightarrow>
                                     (case process_end mops tx_used rx_used (head = None) mux t of
                                        (res, t) \<Rightarrow> Some (res, t, mux))) })))"

section \<open>The control state\<close>

text \<open>
  \<^verbatim>\<open>State\<close> under its lock, with the flag that stops the worker and the number of listener clients
  in their handshake.
\<close>

record 'm vstate =
  v_transport :: "'m transport option"
  v_mux :: mux
  v_failed :: bool
  v_frozen :: bool
  v_stopping :: bool
  v_handshakes :: nat

definition backend_new :: "nat \<Rightarrow> 'm vstate" where
  "backend_new n =
     \<lparr>v_transport = None, v_mux = mux_with_limit n, v_failed = False, v_frozen = False,
      v_stopping = False, v_handshakes = 0\<rparr>"

definition deactivate :: "'m vstate \<Rightarrow> 'm vstate" where
  "deactivate st =
     st\<lparr>v_transport := None, v_mux := mux_clear (v_mux st), v_failed := False, v_frozen := False\<rparr>"

text \<open>\<open>registered\<close> is whether \<^verbatim>\<open>epoll_ctl\<close> took the socket.\<close>

definition attach ::
  "'m mem_ops \<Rightarrow> nat \<Rightarrow> bool \<Rightarrow> bool \<Rightarrow> socket \<Rightarrow> u32 \<Rightarrow> opener \<Rightarrow> 'm vstate \<Rightarrow> (io_error + u32) \<times> 'm vstate" where
  "attach mops now blocking registered s port opener st =
     (let (ready, st) =
            (case v_transport st of
               None \<Rightarrow> (False, st)
             | Some t \<Rightarrow>
                 (case accepts_connects mops t of
                    (r, t) \<Rightarrow> (r = Inr True, st\<lparr>v_transport := Some t\<rparr>)))
      in if \<not> ready \<or> v_failed st \<or> v_stopping st then (Inl ConnectionRefused, st)
         else
           case mux_add s blocking port opener now (v_mux st) of
             (Inl e, mux) \<Rightarrow> (Inl e, st\<lparr>v_mux := mux\<rparr>)
           | (Inr host_port, mux) \<Rightarrow>
               if \<not> registered then (Inl OtherError, st\<lparr>v_mux := mux_cancel host_port mux\<rparr>)
               else (Inr host_port, st\<lparr>v_mux := mux\<rparr>))"

text \<open>
  The end of \<^verbatim>\<open>connect\<close>: \<open>answer\<close> is what came through the channel before the timeout, \<open>None\<close> when
  nothing did.
\<close>

definition connect_end ::
  "u32 \<Rightarrow> (io_error + unit) option \<Rightarrow> 'm vstate \<Rightarrow> (io_error + unit) \<times> 'm vstate" where
  "connect_end host_port answer st =
     (case answer of
        Some (Inr _) \<Rightarrow> (Inr (), st)
      | _ \<Rightarrow>
          (case answer of Some (Inl e) \<Rightarrow> Inl e | _ \<Rightarrow> Inl TimedOut,
           st\<lparr>v_mux := mux_cancel host_port (v_mux st)\<rparr>))"

text \<open>Admission of a listener client, and the end of its handshake thread.\<close>

definition admit :: "bool \<Rightarrow> 'm vstate \<Rightarrow> bool \<times> 'm vstate" where
  "admit spawned st =
     (let st = st\<lparr>v_handshakes := v_handshakes st + 1\<rparr>
      in if MAX_HANDSHAKES \<le> v_handshakes st - 1 then (False, st\<lparr>v_handshakes := v_handshakes st - 1\<rparr>)
         else if \<not> spawned then (False, st\<lparr>v_handshakes := v_handshakes st - 1\<rparr>)
         else (True, st))"

definition handshake_end ::
  "'m mem_ops \<Rightarrow> nat \<Rightarrow> bool \<Rightarrow> bool \<Rightarrow> socket \<Rightarrow> io_error + u32 \<Rightarrow> 'm vstate \<Rightarrow> 'm vstate" where
  "handshake_end mops now blocking registered s port st =
     (let st = (case port of
                  Inl _ \<Rightarrow> st
                | Inr port \<Rightarrow> snd (attach mops now blocking registered s port Listener st))
      in st\<lparr>v_handshakes := v_handshakes st - 1\<rparr>)"

text \<open>
  \<^verbatim>\<open>read_connect\<close>: the bytes of the client are read one at a time; \<open>[]\<close> stands for the end of the
  stream or a read that failed, \<open>failed\<close> says which.
\<close>

definition connect_prefix :: bytes where
  "connect_prefix = ascii ''CONNECT ''"

definition parse_connect :: "bytes \<Rightarrow> io_error + u32" where
  "parse_connect line =
     (let k = length connect_prefix; port = drop k line
      in if take k line \<noteq> connect_prefix \<or> \<not> list_all (\<lambda>b. 48 \<le> b \<and> b \<le> 57) port then Inl InvalidData
         else
           case parse_unsigned (2 ^ 32) (map (\<lambda>b. char_of (unat b)) port) of
             None \<Rightarrow> Inl InvalidData
           | Some n \<Rightarrow> Inr (word_of_nat n))"

fun read_connect :: "io_error \<Rightarrow> bytes \<Rightarrow> bytes \<Rightarrow> (io_error + u32) \<times> bytes" where
  "read_connect failed [] line =
     (Inl (if length line < MAX_CONNECT_LINE then failed else InvalidData), [])"
| "read_connect failed (b # bs) line =
     (if MAX_CONNECT_LINE \<le> length line then (Inl InvalidData, b # bs)
      else if b = 10 then (parse_connect line, bs)
      else read_connect failed bs (line @ [b]))"

text \<open>Milliseconds until a deadline, \<open>-1\<close> for none.\<close>

definition wait_ms :: "nat \<Rightarrow> nat option \<Rightarrow> int" where
  "wait_ms now deadline =
     (case deadline of
        None \<Rightarrow> - 1
      | Some deadline \<Rightarrow>
          let micros = (deadline - now) div 1000
          in int (min ((micros + 999) div 1000) (2 ^ 31 - 1)))"

text \<open>An event of \<^verbatim>\<open>epoll\<close>: its token and its flags.\<close>

definition EPOLLIN :: u32 where "EPOLLIN = 0x001"
definition EPOLLOUT :: u32 where "EPOLLOUT = 0x004"
definition EPOLLERR :: u32 where "EPOLLERR = 0x008"
definition EPOLLHUP :: u32 where "EPOLLHUP = 0x010"
definition EPOLLRDHUP :: u32 where "EPOLLRDHUP = 0x2000"

definition handle_event :: "u64 \<times> u32 \<Rightarrow> mux \<Rightarrow> mux" where
  "handle_event ev mux =
     (let token = fst ev; ready = snd ev
      in if token = 0 \<or> token AND KICK \<noteq> 0 then mux
         else
           let closed = ready AND (EPOLLHUP OR EPOLLERR) \<noteq> 0
           in mux_wake (ucast token)
                (closed \<or> ready AND (EPOLLIN OR EPOLLRDHUP) \<noteq> 0)
                (closed \<or> ready AND EPOLLOUT \<noteq> 0) mux)"

text \<open>
  One round of the worker once \<^verbatim>\<open>epoll_wait\<close> has returned: \<open>None\<close> of the argument is a failure that
  was not an interruption. It returns whether the worker is busy and goes on.
\<close>

definition run_round ::
  "'m mem_ops \<Rightarrow> nat \<Rightarrow> (u64 \<times> u32) list option \<Rightarrow> 'm vstate \<Rightarrow> (bool \<times> bool \<times> 'm vstate) option" where
  "run_round mops now events st =
     (case events of
        None \<Rightarrow>
          Some (False, False,
                st\<lparr>v_failed := True, v_mux := mux_clear (v_mux st), v_transport := None\<rparr>)
      | Some events \<Rightarrow>
          let st = st\<lparr>v_mux := fold handle_event events (v_mux st)\<rparr>
          in if v_frozen st then Some (False, True, st)
             else
               case v_transport st of
                 None \<Rightarrow> Some (False, True, st)
               | Some t \<Rightarrow>
                   do { (res, t, mux) \<leftarrow> process mops now t (v_mux st);
                        case res of
                          Inr again \<Rightarrow> Some (again, True, st\<lparr>v_transport := Some t, v_mux := mux\<rparr>)
                        | Inl _ \<Rightarrow>
                            Some (False, True,
                                  st\<lparr>v_transport := None, v_failed := True, v_mux := mux_clear mux\<rparr>) })"

section \<open>The virtio backend\<close>

text \<open>The queue state a driver set up, from \<^verbatim>\<open>kvm/devices.rs\<close>, and the saved indices.\<close>

record queue_setup =
  vq_max_size :: u16
  vq_size :: u16
  vq_ready :: bool
  vq_desc_addr :: u64
  vq_avail_addr :: u64
  vq_used_addr :: u64
  vq_last_avail_idx :: u16

datatype backend_state = BlockState | VsockState u16 u16 u16 | BalloonState u32 u32 | NetState u16

definition VIRTIO_F_VERSION_1 :: u64 where "VIRTIO_F_VERSION_1 = push_bit 32 1"

definition config_read :: "u64 \<Rightarrow> u32" where
  "config_read offset =
     (if offset = 0 then ucast GUEST_CID else if offset = 4 then ucast (drop_bit 32 GUEST_CID) else 0)"

definition features_ok :: "u64 \<Rightarrow> bool" where
  "features_ok features \<longleftrightarrow> features AND VIRTIO_F_VERSION_1 \<noteq> 0"

definition setup_queue :: "'m mem_ops \<Rightarrow> 'm \<Rightarrow> queue_setup \<Rightarrow> io_error + queue" where
  "setup_queue mops m s =
     (if \<not> vq_ready s then Inl invalid_queue
      else queue_new mops (vq_size s) (vq_desc_addr s) (vq_avail_addr s) (vq_used_addr s) m)"

definition backend_transport ::
  "'m mem_ops \<Rightarrow> bool \<Rightarrow> queue_setup list \<Rightarrow> 'm \<Rightarrow> io_error + 'm transport" where
  "backend_transport mops negotiated queues m =
     (if \<not> negotiated then Inl invalid_queue
      else
        case queues of
          [rx, tx, event] \<Rightarrow>
            (case setup_queue mops m rx of
               Inl e \<Rightarrow> Inl e
             | Inr rx \<Rightarrow>
                 (case setup_queue mops m tx of
                    Inl e \<Rightarrow> Inl e
                  | Inr tx \<Rightarrow>
                      (case setup_queue mops m event of
                         Inl e \<Rightarrow> Inl e
                       | Inr event \<Rightarrow> Inr
                           \<lparr>t_rx = rx, t_tx = tx, t_event = event, t_mem = m, t_interrupts = 0,
                            t_resetting = None\<rparr>)))
        | _ \<Rightarrow> Inl invalid_queue)"

definition activate ::
  "'m mem_ops \<Rightarrow> bool \<Rightarrow> queue_setup list \<Rightarrow> 'm \<Rightarrow> 'm vstate \<Rightarrow> 'm vstate" where
  "activate mops negotiated queues m st =
     (case backend_transport mops negotiated queues m of
        Inr t \<Rightarrow> if \<not> v_failed st then st\<lparr>v_transport := Some t\<rparr> else st\<lparr>v_failed := True\<rparr>
      | Inl _ \<Rightarrow> st\<lparr>v_failed := True\<rparr>)"

definition backend_save :: "'m vstate \<Rightarrow> (io_error + backend_state) \<times> 'm vstate" where
  "backend_save st =
     (case v_transport st of
        None \<Rightarrow> (Inl OtherError, st)
      | Some t \<Rightarrow>
          (Inr (VsockState (queue_index (t_rx t)) (queue_index (t_tx t)) (queue_index (t_event t))),
           st\<lparr>v_frozen := True\<rparr>))"

definition backend_restore ::
  "'m mem_ops \<Rightarrow> bool \<Rightarrow> backend_state \<Rightarrow> queue_setup list \<Rightarrow> 'm \<Rightarrow> 'm vstate \<Rightarrow>
   (io_error + unit) \<times> 'm vstate" where
  "backend_restore mops negotiated saved queues m st =
     (case saved of
        VsockState rx tx event \<Rightarrow>
          (case backend_transport mops negotiated queues m of
             Inl e \<Rightarrow> (Inl e, st)
           | Inr t \<Rightarrow>
               let t = t\<lparr>t_rx := starting_at (t_rx t) rx, t_tx := starting_at (t_tx t) tx,
                         t_event := starting_at (t_event t) event\<rparr>
               in (case reset_guest mops t of
                     (Inl e, t) \<Rightarrow> (Inl e, st)
                   | (Inr _, t) \<Rightarrow> (Inr (), st\<lparr>v_transport := Some t\<rparr>)))
      | _ \<Rightarrow> (Inl OtherError, st))"

definition backend_resume :: "'m vstate \<Rightarrow> 'm vstate" where
  "backend_resume st = st\<lparr>v_frozen := False\<rparr>"

text \<open>\<^verbatim>\<open>Drop for VsockBackend\<close>, once the worker has stopped.\<close>

definition backend_drop :: "'m vstate \<Rightarrow> 'm vstate" where
  "backend_drop st = deactivate (st\<lparr>v_stopping := True\<rparr>)"

section \<open>Slices of guest memory\<close>

text \<open>The slices that hold the first \<open>n\<close> bytes of some slices, and the bytes of slices.\<close>

fun front :: "nat \<Rightarrow> slices \<Rightarrow> slices" where
  "front n [] = []"
| "front n ((a, k) # sls) = (if n = 0 then [] else (a, min k n) # front (n - min k n) sls)"

definition read_slices :: "'m mem_ops \<Rightarrow> 'm \<Rightarrow> slices \<Rightarrow> bytes" where
  "read_slices mops m sls = concat (map (slice_bytes mops m) sls)"

lemma read_slices_append [simp]:
  "read_slices mops m (xs @ ys) = read_slices mops m xs @ read_slices mops m ys"
  "read_slices mops m [] = []"
  by (simp_all add: read_slices_def)

lemma read_slices_cong:
  "(\<And>a k. (a, k) \<in> set sls \<Longrightarrow> mem_read mops a k m' = mem_read mops a k m) \<Longrightarrow>
   read_slices mops m' sls = read_slices mops m sls"
  by (induction sls) (auto simp: read_slices_def slice_bytes_def)

lemma front_0 [simp]: "front 0 sls = []"
  by (cases sls) auto

lemma len_front: "slices_len (front n sls) = min n (slices_len sls)"
proof (induction n sls rule: front.induct)
  case (2 n a k sls)
  then show ?case by (cases "k \<le> n") (auto simp: min_def)
qed simp

lemma front_append: "front n (xs @ ys) = front n xs @ front (n - slices_len xs) ys"
proof (induction n xs rule: front.induct)
  case (2 n a k sls)
  have "n - min k n - slices_len sls = n - (k + slices_len sls)" by (cases "k \<le> n") simp_all
  then show ?case using 2 by simp
qed simp

lemma front_front: "front n (front m sls) = front (min n m) sls"
proof (induction m sls arbitrary: n rule: front.induct)
  case (2 m a k sls)
  show ?case
  proof (cases "n = 0 \<or> m = 0")
    case False
    have "min (n - min (min k m) n) (m - min k m) = min n m - min k (min n m)" by linarith
    then show ?thesis using 2 False by (simp add: min.assoc min.commute [of m n])
  qed auto
qed simp

lemma front_below: "(a, k) \<in> set (front n sls) \<Longrightarrow> \<exists>j. (a, j) \<in> set sls \<and> k \<le> j"
  by (induction n sls rule: front.induct) (auto split: if_splits)

text \<open>Slices that lie in guest memory and share no byte.\<close>

definition slices_apart :: "'m mem_ops \<Rightarrow> 'm \<Rightarrow> slices \<Rightarrow> bool" where
  "slices_apart mops m sls \<longleftrightarrow>
     (\<forall>(a, n) \<in> set sls. mem_check mops a n m \<and> unat a + n < 2 ^ 64) \<and>
     sorted_wrt (\<lambda>(a, n) (b, k). disjoint_ranges a n b k) sls"

lemma disjoint_ranges_less:
  "disjoint_ranges a n b k \<Longrightarrow> n' \<le> n \<Longrightarrow> k' \<le> k \<Longrightarrow> disjoint_ranges a n' b k'"
  by (auto simp: disjoint_ranges_def)

lemma slices_apart_append:
  "slices_apart mops m (xs @ ys) \<longleftrightarrow> slices_apart mops m xs \<and> slices_apart mops m ys \<and>
     (\<forall>a n b k. (a, n) \<in> set xs \<longrightarrow> (b, k) \<in> set ys \<longrightarrow> disjoint_ranges a n b k)"
  by (auto simp: slices_apart_def sorted_wrt_append)

lemma slices_apart_Cons:
  "slices_apart mops m ((a, n) # sls) \<longleftrightarrow> mem_check mops a n m \<and> unat a + n < 2 ^ 64 \<and>
     slices_apart mops m sls \<and> (\<forall>(b, k) \<in> set sls. disjoint_ranges a n b k)"
  by (auto simp: slices_apart_def)

lemma slices_apart_Nil [simp]: "slices_apart mops m []"
  by (simp add: slices_apart_def)

text \<open>Reading back what was scattered over slices.\<close>

context guest_memory
begin

lemma check_shorter: "mem_check mops a n m \<Longrightarrow> unat a + n < 2 ^ 64 \<Longrightarrow> k \<le> n \<Longrightarrow> mem_check mops a k m"
  using check_part [of a n m 0 k] by simp

lemma scatter_check: "mem_check mops b n (scatter mops sls bs m) = mem_check mops b n m"
  by (induction sls arbitrary: bs m) (auto simp: write_check split: option.splits)

lemma scatter_apart: "slices_apart mops (scatter mops sls bs m) xs = slices_apart mops m xs"
  by (simp add: slices_apart_def scatter_check)

lemma scatter_other:
  "\<forall>(a, n) \<in> set sls. disjoint_ranges a n b k \<Longrightarrow> unat b + k < 2 ^ 64 \<Longrightarrow>
   mem_read mops b k (scatter mops sls bs m) = mem_read mops b k m"
proof (induction sls arbitrary: bs m)
  case (Cons s sls)
  obtain a n where s: "s = (a, n)" by fastforce
  have d: "disjoint_ranges a (length (take n bs)) b k"
    using Cons.prems(1) s by (auto intro: disjoint_ranges_less)
  show ?case
    using Cons read_other [OF _ d Cons.prems(2)] by (auto simp: s split: option.splits)
qed simp

lemma scatter_others:
  "(\<And>a n b k. (a, n) \<in> set sls \<Longrightarrow> (b, k) \<in> set xs \<Longrightarrow> disjoint_ranges a n b k) \<Longrightarrow> slices_apart mops m xs \<Longrightarrow>
   read_slices mops (scatter mops sls bs m) xs = read_slices mops m xs"
  by (rule read_slices_cong, rule scatter_other) (auto simp: slices_apart_def)

lemma write_apart:
  assumes "slices_apart mops m ((a, n) # sls)"
  obtains m' where "mem_write mops a (take n bs) m = Some m'" "slices_apart mops m' sls"
    "mem_read mops a (min n (length bs)) (scatter mops sls xs m') = Some (take n bs)"
proof -
  have "mem_check mops a (length (take n bs)) m"
    using assms check_shorter by (auto simp: slices_apart_Cons)
  then obtain m' where m': "mem_write mops a (take n bs) m = Some m'" using write_checked by blast
  have "mem_read mops a (min n (length bs)) (scatter mops sls xs m') = mem_read mops a (min n (length bs)) m'"
    using assms by (intro scatter_other)
      (auto simp: slices_apart_Cons disjoint_ranges_def)
  moreover have "mem_read mops a (min n (length bs)) m' = Some (take n bs)"
    using read_same [OF m'] by (simp add: min.commute)
  moreover have "slices_apart mops m' sls"
    using assms by (auto simp: slices_apart_def write_check [OF m'])
  ultimately show thesis using that m' by simp
qed

lemma scatter_front:
  "slices_apart mops m sls \<Longrightarrow> length bs \<le> slices_len sls \<Longrightarrow>
   read_slices mops (scatter mops sls bs m) (front (length bs) sls) = bs"
proof (induction sls arbitrary: bs m)
  case (Cons s sls)
  obtain a n where s: "s = (a, n)" by fastforce
  obtain m' where m': "mem_write mops a (take n bs) m = Some m'" "slices_apart mops m' sls"
    "mem_read mops a (min n (length bs)) (scatter mops sls (drop n bs) m') = Some (take n bs)"
    using write_apart Cons.prems(1) s by metis
  have "read_slices mops (scatter mops sls (drop n bs) m') (front (length (drop n bs)) sls) = drop n bs"
    using Cons.IH [OF m'(2), of "drop n bs"] Cons.prems(2) s by simp
  moreover have "length bs - min n (length bs) = length (drop n bs)" by simp
  ultimately show ?case
    using m'(1,3) by (cases "bs = []") (simp_all add: s read_slices_def slice_bytes_def)
qed simp

lemma scatter_exact:
  "slices_apart mops m sls \<Longrightarrow> length bs = slices_len sls \<Longrightarrow> read_slices mops (scatter mops sls bs m) sls = bs"
proof (induction sls arbitrary: bs m)
  case (Cons s sls)
  obtain a n where s: "s = (a, n)" by fastforce
  obtain m' where m': "mem_write mops a (take n bs) m = Some m'" "slices_apart mops m' sls"
    "mem_read mops a (min n (length bs)) (scatter mops sls (drop n bs) m') = Some (take n bs)"
    using write_apart Cons.prems(1) s by metis
  have "read_slices mops (scatter mops sls (drop n bs) m') sls = drop n bs"
    using Cons.IH [OF m'(2)] Cons.prems(2) s by simp
  moreover have "min n (length bs) = n" using Cons.prems(2) s by simp
  ultimately show ?case using m'(1,3) by (simp add: s read_slices_def slice_bytes_def)
qed (simp add: read_slices_def)

lemma front_apart: "slices_apart mops m sls \<Longrightarrow> slices_apart mops m (front n sls)"
proof (induction n sls rule: front.induct)
  case (2 n a k sls)
  have "disjoint_ranges a (min k n) b j" if "(b, j) \<in> set (front (n - min k n) sls)" for b j
    using front_below [OF that] "2.prems" by (auto simp: slices_apart_Cons intro: disjoint_ranges_less)
  then show ?case
    using 2 check_shorter [of a k m "min k n"] by (auto simp: slices_apart_Cons)
qed simp

end

section \<open>The batch keeps the contract of the rx buffers\<close>

lemma split_chain_Inr:
  assumes "split_chain mops m ds header payload missing len = Inr (h, p, room)"
  shows "sum_list (map snd h) = sum_list (map snd header) + missing \<and>
    room + sum_list (map snd payload) = len + sum_list (map snd p) \<and>
    ((\<forall>s \<in> set payload. 0 < snd s) \<longrightarrow> (\<forall>s \<in> set p. 0 < snd s))"
  using assms
proof (induction mops m ds header payload missing len rule: split_chain.induct)
  case (2 mops m address n ds header payload missing len)
  show ?case
  proof (cases "n = 0")
    case True
    then show ?thesis using 2 by simp
  next
    case False
    define k where "k = min missing n"
    have kle: "k \<le> missing" "k \<le> n" by (simp_all add: k_def)
    let ?h = "if 0 < k then header @ [(address, k)] else header"
    let ?p = "if k < n then payload @ [(address + word_of_nat k, n - k)] else payload"
    let ?len = "if k < n then len + (n - k) else len"
    have eq: "split_chain mops m ((address, n) # ds) header payload missing len
        = (if \<not> mem_slice mops address n m then Inl invalid_queue
           else split_chain mops m ds ?h ?p (missing - k) ?len)"
      by (simp only: split_chain.simps False if_False Let_def k_def)
    have sl: "mem_slice mops address n m"
      using "2.prems" unfolding eq by (cases "mem_slice mops address n m") simp_all
    have rec: "split_chain mops m ds ?h ?p (missing - k) ?len = Inr (h, p, room)"
      using "2.prems" sl unfolding eq by (simp only: not_True_eq_False if_False)
    have sums: "sum_list (map snd ?h) = sum_list (map snd header) + k"
        "sum_list (map snd ?p) = sum_list (map snd payload) + (n - k)" "?len = len + (n - k)"
        "(\<forall>s \<in> set payload. 0 < snd s) \<longrightarrow> (\<forall>s \<in> set ?p. 0 < snd s)"
      using kle by (simp_all add: not_less)
    have "\<not> \<not> mem_slice mops address n m" using sl by simp
    from "2.IH"(2) [OF False this k_def rec] have ih: "sum_list (map snd h) = sum_list (map snd ?h) + (missing - k)"
      "room + sum_list (map snd ?p) = ?len + sum_list (map snd p)"
      "(\<forall>s \<in> set ?p. 0 < snd s) \<longrightarrow> (\<forall>s \<in> set p. 0 < snd s)" by blast+
    show ?thesis using ih(3) sums(4) ih(1,2) [unfolded sums] kle by (intro conjI) (linarith, linarith, blast)
  qed
qed (auto split: if_splits)

definition chain_ok :: "rx_chain \<Rightarrow> bool" where
  "chain_ok c \<longleftrightarrow>
     sum_list (map snd (rc_header c)) = HEADER_LEN \<and> sum_list (map snd (rc_payload c)) = rc_room c \<and>
     (\<forall>s \<in> set (rc_payload c). 0 < snd s)"

definition batch_valid :: "'m rx_batch \<Rightarrow> bool" where
  "batch_valid b \<longleftrightarrow> length (rb_chains b) \<le> BATCH \<and> (\<forall>c \<in> set (rb_chains b). chain_ok c)"

definition batch_rooms :: "'m rx_batch \<Rightarrow> nat list" where
  "batch_rooms b = map (\<lambda>c. min (rc_room c) MAX_PACKET) (rb_chains b)"

definition batch_lens :: "'m rx_batch \<Rightarrow> nat list" where
  "batch_lens b = map (\<lambda>c. unat (rc_len c)) (rb_chains b)"

lemma batch_valid_new: "batch_valid (batch_new m q)"
  by (simp add: batch_valid_def batch_new_def)

lemma split_chain_ok:
  assumes "split mops m ds = Inr (header, payload, room)"
  shows "chain_ok \<lparr>rc_head = head, rc_header = header, rc_payload = payload, rc_room = room, rc_len = 0\<rparr>"
  using split_chain_Inr [OF assms [unfolded split_def]] by (simp add: chain_ok_def)

lemma load_next_ok:
  assumes "batch_valid b"
  shows "batch_valid (load_next mops b) \<and> prefix (rb_chains b) (rb_chains (load_next mops b))"
  using assms
  by (auto simp: load_next_def Let_def batch_valid_def split: sum.splits option.splits
      dest!: split_chain_ok)

lemma load_ok:
  assumes "batch_valid b"
  shows "batch_valid (load mops i b) \<and> prefix (rb_chains b) (rb_chains (load mops i b))"
  using assms
proof (induction mops i b rule: load.induct)
  case (1 mops index b)
  show ?case
  proof (cases "length (rb_chains b) \<le> index \<and> \<not> rb_done b")
    case True
    then show ?thesis
      using "1.IH" "1.prems" load_next_ok [of b mops] load.simps [of mops index b]
      by (auto intro: prefix_order.trans)
  next
    case False
    then show ?thesis using "1.prems" load.simps [of mops index b] by auto
  qed
qed

lemma prefix_map: "prefix xs ys \<Longrightarrow> prefix (map f xs) (map f ys)"
  by (auto simp: prefix_def)

lemma batch_room_ok:
  assumes "batch_valid b" "batch_room mops i b = (room, b')"
  shows "batch_valid b' \<and> prefix (rb_chains b) (rb_chains b') \<and>
    room = (if i < length (batch_rooms b') then Some (batch_rooms b' ! i) else None)"
  using assms load_ok [OF assms(1), of mops i] by (auto simp: batch_room_def Let_def batch_rooms_def)

lemma chain_parts_ok:
  assumes "chain_parts sls room parts = (parts', full)"
  shows "\<exists>ps. parts' = parts @ ps \<and> sum_list (map snd ps) \<le> room \<and>
    ((\<forall>s \<in> set sls. 0 < snd s) \<and> sls \<noteq> [] \<and> 0 < room \<and> length parts < IOV_MAX \<longrightarrow>
     0 < sum_list (map snd ps))"
  using assms
proof (induction sls room parts rule: chain_parts.induct)
  case (2 a n sls room parts)
  show ?case
  proof (cases "room = 0 \<or> length parts = IOV_MAX")
    case True
    then show ?thesis using "2.prems" by (auto split: if_splits)
  next
    case False
    then have "chain_parts sls (room - min n room) (parts @ [(a, min n room)]) = (parts', full)"
      using "2.prems" by simp
    moreover have "room \<noteq> 0" "length parts \<noteq> IOV_MAX" using False by auto
    ultimately obtain ps where
      "parts' = (parts @ [(a, min n room)]) @ ps" "sum_list (map snd ps) \<le> room - min n room"
      using "2.IH" by blast
    then show ?thesis using False by (intro exI [of _ "(a, min n room) # ps"]) auto
  qed
qed simp

lemma usable_prefix:
  assumes "prefix rs rs'" "i < length rs" "0 < rs ! i"
  shows "usable (drop i rs') = rs ! i + usable (drop (Suc i) rs')"
proof -
  have "i < length rs'" "rs' ! i = rs ! i" using assms by (auto simp: prefix_def nth_append)
  then have "drop i rs' = rs ! i # drop (Suc i) rs'" by (metis Cons_nth_drop_Suc)
  then show ?thesis using assms(3) by (simp add: usable_def)
qed

lemma batch_rooms_prefix: "prefix (rb_chains b) (rb_chains b') \<Longrightarrow> prefix (batch_rooms b) (batch_rooms b')"
  by (simp add: batch_rooms_def prefix_map)

lemma recv_parts_ok:
  assumes "batch_valid b" "recv_parts mops i left parts b = (parts', b')"
  shows "batch_valid b' \<and> prefix (rb_chains b) (rb_chains b') \<and>
    (\<exists>ps. parts' = parts @ ps \<and> sum_list (map snd ps) \<le> left \<and>
       sum_list (map snd ps) \<le> usable (drop i (batch_rooms b')) \<and>
       (0 < left \<and> i < length (batch_rooms b) \<and> 0 < batch_rooms b ! i \<and> length parts < IOV_MAX \<longrightarrow>
        0 < sum_list (map snd ps)))"
  using assms
proof (induction mops i left parts b arbitrary: parts' b' rule: recv_parts.induct)
  case (1 mops i left parts b)
  obtain room b1 where room: "batch_room mops i b = (room, b1)" by fastforce
  have b1: "batch_valid b1" "prefix (rb_chains b) (rb_chains b1)"
      "room = (if i < length (batch_rooms b1) then Some (batch_rooms b1 ! i) else None)"
    using batch_room_ok [OF "1.prems"(1) room] by auto
  define r where "r = min (case room of Some k \<Rightarrow> k | None \<Rightarrow> 0) left"
  have known: "0 < r" if "0 < left" "i < length (batch_rooms b)" "0 < batch_rooms b ! i"
    using that b1(3) batch_rooms_prefix [OF b1(2)] by (auto simp: r_def prefix_def nth_append)
  show ?case
  proof (cases "r = 0")
    case True
    then have "parts' = parts" "b' = b1"
      using "1.prems"(2) by (simp_all add: recv_parts.simps [of mops i left parts b] room r_def)
    then show ?thesis using b1 True known by auto
  next
    case False
    then have i: "i < length (batch_rooms b1)" "0 < batch_rooms b1 ! i" "r \<le> batch_rooms b1 ! i" "r \<le> left"
      using b1(3) by (auto simp: r_def split: if_splits)
    let ?c = "rb_chains b1 ! i"
    have c: "chain_ok ?c" using b1(1) i(1) by (simp add: batch_valid_def batch_rooms_def)
    have pos: "rc_payload ?c \<noteq> []" "\<forall>s \<in> set (rc_payload ?c). 0 < snd s"
      using c i by (auto simp: chain_ok_def batch_rooms_def)
    obtain parts1 full where cp: "chain_parts (rc_payload ?c) r parts = (parts1, full)" by fastforce
    from chain_parts_ok [OF cp] pos obtain ps where
      ps: "parts1 = parts @ ps" "sum_list (map snd ps) \<le> r" "length parts < IOV_MAX \<longrightarrow> 0 < sum_list (map snd ps)"
      using False by auto
    have step: "recv_parts mops i left parts b
        = (if full then (parts1, b1) else recv_parts mops (i + 1) (left - r) parts1 b1)"
      using False cp unfolding recv_parts.simps [of mops i left parts b] room prod.case Let_def
      by (fold r_def) simp
    show ?thesis
    proof (cases full)
      case True
      then show ?thesis
        using "1.prems"(2) step b1 ps i usable_prefix [OF prefix_order.refl i(1,2)] by auto
    next
      case nf: False
      then have rec: "recv_parts mops (i + 1) (left - r) parts1 b1 = (parts', b')"
        using "1.prems"(2) step by simp
      from "1.IH" [OF room [symmetric] r_def False cp [symmetric] nf b1(1) rec] obtain qs where
        r2: "batch_valid b'" "prefix (rb_chains b1) (rb_chains b')" "parts' = parts1 @ qs"
          "sum_list (map snd qs) \<le> left - r" "sum_list (map snd qs) \<le> usable (drop (i + 1) (batch_rooms b'))"
        by blast
      have "usable (drop i (batch_rooms b')) = batch_rooms b1 ! i + usable (drop (Suc i) (batch_rooms b'))"
        by (rule usable_prefix [OF batch_rooms_prefix [OF r2(2)] i(1,2)])
      then show ?thesis
        using r2 ps i prefix_order.trans [OF b1(2) r2(2)] by (intro conjI exI [of _ "ps @ qs"]) auto
    qed
  qed
qed

section \<open>What the buffers of a batch hold\<close>

text \<open>
  The slices of a batch, the first \<open>n\<close> payload bytes of buffer \<open>i\<close>, and the two predicates of the
  contract. They speak of a guest whose buffers lie in its memory and share no byte: over buffers that
  overlap, one packet overwrites another.
\<close>

definition chain_slices :: "rx_chain \<Rightarrow> slices" where
  "chain_slices c = rc_header c @ rc_payload c"

definition batch_apart :: "'m mem_ops \<Rightarrow> 'm rx_batch \<Rightarrow> bool" where
  "batch_apart mops b \<longleftrightarrow> slices_apart mops (rb_mem b) (concat (map chain_slices (rb_chains b)))"

definition payload_bytes :: "'m mem_ops \<Rightarrow> 'm rx_batch \<Rightarrow> nat \<Rightarrow> nat \<Rightarrow> bytes" where
  "payload_bytes mops b i n = read_slices mops (rb_mem b) (front n (rc_payload (rb_chains b ! i)))"

definition header_bytes :: "'m mem_ops \<Rightarrow> 'm rx_batch \<Rightarrow> nat \<Rightarrow> bytes" where
  "header_bytes mops b i = read_slices mops (rb_mem b) (rc_header (rb_chains b ! i))"

definition batch_holds :: "'m mem_ops \<Rightarrow> 'm rx_batch \<Rightarrow> nat \<Rightarrow> nat list \<Rightarrow> bytes \<Rightarrow> bool" where
  "batch_holds mops b i ls bs \<longleftrightarrow>
     (ls = [] \<or> i + length ls \<le> length (rb_chains b)) \<and>
     (guest_memory mops \<and> batch_apart mops b \<longrightarrow>
      concat (map (\<lambda>(j, n). payload_bytes mops b j n) (enumerate i ls)) = bs)"

definition batch_stamped :: "'m mem_ops \<Rightarrow> 'm rx_batch \<Rightarrow> nat \<Rightarrow> header \<Rightarrow> bool" where
  "batch_stamped mops b i h \<longleftrightarrow>
     i < length (rb_chains b) \<and>
     (guest_memory mops \<and> batch_apart mops b \<longrightarrow> header_bytes mops b i = header_encode h)"

lemma slices_apart_chain:
  assumes "slices_apart mops m (concat (map chain_slices cs))" "i < length cs"
  shows "slices_apart mops m (rc_header (cs ! i))" "slices_apart mops m (rc_payload (cs ! i))"
    and "(a, n) \<in> set (rc_header (cs ! i)) \<Longrightarrow> (b, k) \<in> set (rc_payload (cs ! i)) \<Longrightarrow> disjoint_ranges a n b k"
    and "j < length cs \<Longrightarrow> j \<noteq> i \<Longrightarrow> (a, n) \<in> set (chain_slices (cs ! i)) \<Longrightarrow>
      (b, k) \<in> set (chain_slices (cs ! j)) \<Longrightarrow> disjoint_ranges a n b k"
proof -
  have parts: "concat (map chain_slices cs) = concat (map chain_slices (take i cs)) @
      chain_slices (cs ! i) @ concat (map chain_slices (drop (Suc i) cs))"
    by (subst id_take_nth_drop [OF assms(2)]) simp
  note ap = assms(1) [unfolded parts slices_apart_append]
  from ap show "slices_apart mops m (rc_header (cs ! i))" "slices_apart mops m (rc_payload (cs ! i))"
    by (auto simp: chain_slices_def slices_apart_append)
  from ap show "(a, n) \<in> set (rc_header (cs ! i)) \<Longrightarrow> (b, k) \<in> set (rc_payload (cs ! i)) \<Longrightarrow> disjoint_ranges a n b k"
    by (auto simp: chain_slices_def slices_apart_append)
  assume j: "j < length cs" "j \<noteq> i" and a: "(a, n) \<in> set (chain_slices (cs ! i))"
    and b: "(b, k) \<in> set (chain_slices (cs ! j))"
  have sym: "disjoint_ranges b k a n \<Longrightarrow> disjoint_ranges a n b k" by (auto simp: disjoint_ranges_def)
  show "disjoint_ranges a n b k"
  proof (cases "j < i")
    case True
    then have "cs ! j \<in> set (take i cs)"
      using j by (auto simp: in_set_conv_nth intro!: exI [of _ j])
    then have "(b, k) \<in> set (concat (map chain_slices (take i cs)))" using b by auto
    then show ?thesis using ap a sym by auto
  next
    case False
    then have "cs ! j \<in> set (drop (Suc i) cs)"
      using j by (auto simp: in_set_conv_nth intro!: exI [of _ "j - Suc i"])
    then have "(b, k) \<in> set (concat (map chain_slices (drop (Suc i) cs)))" using b by auto
    then show ?thesis using ap a by blast
  qed
qed

text \<open>
  The slices a \<^verbatim>\<open>readv\<close> of at most \<open>n\<close> bytes may fill, buffer by buffer; \<open>recv_parts\<close> takes the first
  of them.
\<close>

fun offers :: "nat \<Rightarrow> rx_chain list \<Rightarrow> slices" where
  "offers n [] = []"
| "offers n (c # cs) =
     (let r = min (min (rc_room c) MAX_PACKET) n
      in if r = 0 then [] else front r (rc_payload c) @ offers (n - r) cs)"

lemma offers_len: "\<forall>c \<in> set cs. chain_ok c \<Longrightarrow> slices_len (offers n cs) \<le> n"
proof (induction n cs rule: offers.induct)
  case (2 n c cs)
  define r where "r = min (min (rc_room c) MAX_PACKET) n"
  have "slices_len (offers (n - r) cs) \<le> n - r" if "r \<noteq> 0" using 2 that by (simp add: r_def)
  moreover have "r \<le> n" by (simp add: r_def)
  ultimately show ?case by (auto simp: Let_def len_front simp flip: r_def)
qed simp

lemma offers_below:
  "(a, k) \<in> set (offers n cs) \<Longrightarrow> \<exists>j. (a, j) \<in> set (concat (map chain_slices cs)) \<and> k \<le> j"
proof (induction n cs rule: offers.induct)
  case (2 n c cs)
  define r where "r = min (min (rc_room c) MAX_PACKET) n"
  have "(a, k) \<in> set (front r (rc_payload c)) \<or> (a, k) \<in> set (offers (n - r) cs) \<and> r \<noteq> 0"
    using "2.prems" by (auto simp: Let_def split: if_splits simp flip: r_def)
  then show ?case
  proof
    assume "(a, k) \<in> set (front r (rc_payload c))"
    from front_below [OF this] show ?thesis by (auto simp: chain_slices_def)
  next
    assume "(a, k) \<in> set (offers (n - r) cs) \<and> r \<noteq> 0"
    then show ?thesis using "2.IH" [OF r_def] by auto
  qed
qed simp

lemma front_offers:
  assumes "\<forall>c \<in> set cs. chain_ok c" "k \<le> slices_len (offers n cs)"
  shows "front k (offers n cs) =
    concat (map (\<lambda>(l, c). front l (rc_payload c)) (zip (spread k (map (\<lambda>c. min (rc_room c) MAX_PACKET) cs)) cs))"
  using assms
proof (induction n cs arbitrary: k rule: offers.induct)
  case (2 n c cs)
  define room where "room = min (rc_room c) MAX_PACKET"
  define r where "r = min room n"
  show ?case
  proof (cases "k = 0")
    case False
    have kn: "k \<le> n" using offers_len [OF "2.prems"(1), of n] "2.prems"(2) by simp
    have r0: "r \<noteq> 0" using "2.prems"(2) False unfolding r_def room_def by (cases "r = 0") (auto simp: Let_def r_def room_def)
    have len: "slices_len (front r (rc_payload c)) = r"
      using "2.prems"(1) by (auto simp: len_front chain_ok_def r_def room_def)
    have off: "offers n (c # cs) = front r (rc_payload c) @ offers (n - r) cs"
      using r0 unfolding offers.simps by (simp only: r_def [unfolded room_def, symmetric] Let_def if_False)
    have "k - r \<le> slices_len (offers (n - r) cs)" using "2.prems"(2) unfolding off by (simp add: len)
    moreover have "r = min (min (rc_room c) MAX_PACKET) n" by (simp add: r_def room_def)
    ultimately have ih: "front (k - r) (offers (n - r) cs) = concat (map (\<lambda>(l, c). front l (rc_payload c))
        (zip (spread (k - r) (map (\<lambda>c. min (rc_room c) MAX_PACKET) cs)) cs))"
      using "2.IH" [OF _ r0] "2.prems"(1) by simp
    have e: "min k r = min room k" "k - r = k - min room k" "room \<noteq> 0" using kn r0 by (auto simp: r_def)
    show ?thesis
      using False e(3) unfolding off
      by (simp add: front_append front_front len e ih [unfolded e(2)] flip: room_def)
  qed simp
qed simp

lemma zip_enumerate:
  "ls = [] \<or> i + length ls \<le> length cs \<Longrightarrow>
   map (\<lambda>(l, c). f l c) (zip ls (drop i cs)) = map (\<lambda>(j, l). f l (cs ! j)) (enumerate i ls)"
proof (induction ls arbitrary: i)
  case (Cons l ls)
  then have "drop i cs = cs ! i # drop (Suc i) cs" by (simp add: Cons_nth_drop_Suc)
  then show ?case using Cons.IH [of "Suc i"] Cons.prems by simp
qed simp

lemma read_slices_concat: "read_slices mops m (concat xss) = concat (map (read_slices mops m) xss)"
  by (induction xss) simp_all

lemma length_spread: "length (spread n rs) \<le> length rs"
  by (induction n rs rule: spread.induct) auto

context guest_memory
begin

lemma offers_apart:
  "slices_apart mops m (concat (map chain_slices cs)) \<Longrightarrow> slices_apart mops m (offers n cs)"
proof (induction n cs rule: offers.induct)
  case (2 n c cs)
  define r where "r = min (min (rc_room c) MAX_PACKET) n"
  have "disjoint_ranges a k b j" if "(a, k) \<in> set (front r (rc_payload c))" "(b, j) \<in> set (offers (n - r) cs)"
    for a b k j
  proof -
    note ab = that
    obtain k' where "(a, k') \<in> set (rc_payload c)" "k \<le> k'" using front_below [OF ab(1)] by blast
    moreover obtain j' where "(b, j') \<in> set (concat (map chain_slices cs))" "j \<le> j'"
      using offers_below [OF ab(2)] by blast
    moreover have "disjoint_ranges x u y v"
      if "(x, u) \<in> set (rc_payload c)" "(y, v) \<in> set (concat (map chain_slices cs))" for x u y v
      using "2.prems" that unfolding list.map concat.simps slices_apart_append chain_slices_def set_append by blast
    ultimately show ?thesis by (blast intro: disjoint_ranges_less)
  qed
  moreover have "slices_apart mops m (front r (rc_payload c))"
    using "2.prems" by (intro front_apart) (auto simp: slices_apart_append chain_slices_def)
  moreover have "slices_apart mops m (offers (n - r) cs)" if "r \<noteq> 0"
    using "2.IH" [OF r_def that] "2.prems" by (simp add: slices_apart_append)
  ultimately show ?case by (auto simp: Let_def slices_apart_append simp flip: r_def)
qed simp

end

lemma chain_parts_front:
  assumes "chain_parts sls room parts = (parts', full)"
  shows "\<exists>ps. parts' = parts @ ps \<and> prefix ps (front room sls) \<and> (\<not> full \<longrightarrow> ps = front room sls)"
  using assms
proof (induction sls room parts rule: chain_parts.induct)
  case (2 a n sls room parts)
  show ?case
  proof (cases "room = 0 \<or> length parts = IOV_MAX")
    case True
    then show ?thesis using "2.prems" by (auto split: if_splits)
  next
    case False
    then have "chain_parts sls (room - min n room) (parts @ [(a, min n room)]) = (parts', full)"
      using "2.prems" by simp
    moreover have "room \<noteq> 0" "length parts \<noteq> IOV_MAX" using False by auto
    ultimately obtain ps where "parts' = (parts @ [(a, min n room)]) @ ps"
        "prefix ps (front (room - min n room) sls)" "\<not> full \<longrightarrow> ps = front (room - min n room) sls"
      using "2.IH" by blast
    then show ?thesis using False by (intro exI [of _ "(a, min n room) # ps"]) simp
  qed
qed simp

lemma load_mem: "rb_mem (load mops i b) = rb_mem b"
proof (induction mops i b rule: load.induct)
  case (1 mops index b)
  have "rb_mem (load_next mops b) = rb_mem b"
    by (auto simp: load_next_def Let_def split: sum.splits option.splits)
  then show ?case using 1 load.simps [of mops index b] by auto
qed

lemma recv_parts_offers:
  assumes "batch_valid b" "recv_parts mops i left parts b = (parts', b')"
  shows "rb_mem b' = rb_mem b \<and> (\<exists>ps. parts' = parts @ ps \<and> prefix ps (offers left (drop i (rb_chains b'))))"
  using assms
proof (induction mops i left parts b arbitrary: parts' b' rule: recv_parts.induct)
  case (1 mops i left parts b)
  obtain room b1 where room: "batch_room mops i b = (room, b1)" by fastforce
  have b1: "batch_valid b1" "room = (if i < length (batch_rooms b1) then Some (batch_rooms b1 ! i) else None)"
    and mem: "rb_mem b1 = rb_mem b"
    using batch_room_ok [OF "1.prems"(1) room] room by (auto simp: batch_room_def Let_def load_mem)
  define r where "r = min (case room of Some k \<Rightarrow> k | None \<Rightarrow> 0) left"
  show ?case
  proof (cases "r = 0")
    case True
    then have "parts' = parts" "b' = b1"
      using "1.prems"(2) by (simp_all add: recv_parts.simps [of mops i left parts b] room r_def)
    then show ?thesis using mem by simp
  next
    case False
    then have i: "i < length (rb_chains b1)" and r: "r = min (min (rc_room (rb_chains b1 ! i)) MAX_PACKET) left"
      using b1(2) by (auto simp: r_def batch_rooms_def split: if_splits)
    have offer: "offers left (drop i (rb_chains b2)) =
        front r (rc_payload (rb_chains b1 ! i)) @ offers (left - r) (drop (Suc i) (rb_chains b2))"
      if "prefix (rb_chains b1) (rb_chains b2)" for b2 :: "'a rx_batch"
    proof -
      have "drop i (rb_chains b2) = rb_chains b1 ! i # drop (Suc i) (rb_chains b2)"
        using that i by (metis Cons_nth_drop_Suc nth_append order_less_le_trans prefix_def prefix_length_le)
      then show ?thesis using False by (simp add: Let_def flip: r)
    qed
    obtain parts1 full where cp: "chain_parts (rc_payload (rb_chains b1 ! i)) r parts = (parts1, full)" by fastforce
    from chain_parts_front [OF cp] obtain ps where ps: "parts1 = parts @ ps"
      "prefix ps (front r (rc_payload (rb_chains b1 ! i)))"
      "\<not> full \<longrightarrow> ps = front r (rc_payload (rb_chains b1 ! i))" by blast
    have step: "recv_parts mops i left parts b
        = (if full then (parts1, b1) else recv_parts mops (i + 1) (left - r) parts1 b1)"
      using False cp unfolding recv_parts.simps [of mops i left parts b] room prod.case Let_def
      by (fold r_def) simp
    show ?thesis
    proof (cases full)
      case True
      then show ?thesis using "1.prems"(2) step mem ps(1,2) offer [of b1] by auto
    next
      case nf: False
      then have rec: "recv_parts mops (i + 1) (left - r) parts1 b1 = (parts', b')"
        using "1.prems"(2) step by simp
      from "1.IH" [OF room [symmetric] r_def False cp [symmetric] nf b1(1) rec] obtain qs where
        qs: "rb_mem b' = rb_mem b1" "parts' = parts1 @ qs" "prefix qs (offers (left - r) (drop (Suc i) (rb_chains b')))"
        by auto
      have "prefix (rb_chains b1) (rb_chains b')" using recv_parts_ok [OF b1(1) rec] by simp
      then show ?thesis using qs ps nf mem offer [of b'] by (intro conjI exI [of _ "ps @ qs"]) auto
    qed
  qed
qed

lemma batch_recv_holds:
  assumes "batch_valid b" "recv_parts mops first n [] b = (parts, b1)" "length bs \<le> slices_len parts"
    and "b' = b1\<lparr>rb_mem := scatter mops parts bs (rb_mem b1)\<rparr>"
  shows "batch_holds mops b' first (spread (length bs) (drop first (batch_rooms b'))) bs"
proof -
  let ?cs = "drop first (rb_chains b')" and ?k = "length bs"
  define ls where "ls = spread ?k (drop first (batch_rooms b'))"
  have rooms: "drop first (batch_rooms b') = map (\<lambda>c. min (rc_room c) MAX_PACKET) ?cs"
    by (simp add: batch_rooms_def drop_map)
  have len: "ls = [] \<or> first + length ls \<le> length (rb_chains b')"
    using length_spread [of ?k "drop first (batch_rooms b')"] by (auto simp: ls_def batch_rooms_def)
  have ok: "\<forall>c \<in> set ?cs. chain_ok c"
    using recv_parts_ok [OF assms(1,2)] assms(4) by (auto simp: batch_valid_def dest: in_set_dropD)
  obtain zs where zs: "offers n ?cs = parts @ zs"
    using recv_parts_offers [OF assms(1,2)] assms(4) by (auto simp: prefix_def)
  then have "front ?k parts = front ?k (offers n ?cs)" using assms(3) by (simp add: front_append)
  also have "\<dots> = concat (map (\<lambda>(l, c). front l (rc_payload c)) (zip ls ?cs))"
    using front_offers [OF ok, of ?k n] assms(3) zs by (simp add: ls_def rooms)
  finally have parts: "front ?k parts = concat (map (\<lambda>(j, l). front l (rc_payload (rb_chains b' ! j))) (enumerate first ls))"
    unfolding zip_enumerate [OF len] .
  have "concat (map (\<lambda>(j, l). payload_bytes mops b' j l) (enumerate first ls)) = bs"
    if g: "guest_memory mops" and ap: "batch_apart mops b'"
  proof -
    have "slices_apart mops (rb_mem b1) (concat (map chain_slices (rb_chains b')))"
      using ap assms(4) guest_memory.scatter_apart [OF g] by (simp add: batch_apart_def)
    moreover have "concat (map chain_slices (rb_chains b')) =
        concat (map chain_slices (take first (rb_chains b'))) @ concat (map chain_slices ?cs)"
      by (simp flip: concat_append map_append)
    ultimately have "slices_apart mops (rb_mem b1) (offers n ?cs)"
      using guest_memory.offers_apart [OF g] by (simp add: slices_apart_append)
    then have "slices_apart mops (rb_mem b1) parts" unfolding zs by (simp add: slices_apart_append)
    from guest_memory.scatter_front [OF g this assms(3)]
    have "read_slices mops (rb_mem b') (front ?k parts) = bs" using assms(4) by simp
    then show ?thesis
      unfolding parts read_slices_concat by (simp add: payload_bytes_def comp_def case_prod_unfold)
  qed
  then show ?thesis using len by (simp add: batch_holds_def ls_def)
qed

text \<open>Putting a header.\<close>

lemma batch_put_keeps:
  assumes "batch_valid b" "i < length (rb_chains b)" "rb_chains b' = (rb_chains b)[i := (rb_chains b ! i)\<lparr>rc_len := n\<rparr>]"
    and "rb_mem b' = scatter mops (rc_header (rb_chains b ! i)) (header_encode h) (rb_mem b)"
  shows "batch_stamped mops b' i h"
    and "j \<noteq> i \<Longrightarrow> batch_stamped mops b j h' \<Longrightarrow> batch_stamped mops b' j h'"
    and "batch_holds mops b j ls bs \<Longrightarrow> batch_holds mops b' j ls bs"
proof -
  let ?cs = "rb_chains b" and ?h = "rc_header (rb_chains b ! i)"
  have same: "rc_header (rb_chains b' ! k) = rc_header (?cs ! k)" "rc_payload (rb_chains b' ! k) = rc_payload (?cs ! k)" for k
    using assms(2,3) by (cases "k = i"; simp)+
  have len: "length (rb_chains b') = length ?cs" using assms(3) by simp
  have "map chain_slices (rb_chains b') = map chain_slices ?cs"
    using same len by (intro nth_equalityI) (simp_all add: chain_slices_def)
  then have ap: "slices_apart mops (rb_mem b) (concat (map chain_slices ?cs))" "batch_apart mops b"
    if "guest_memory mops" "batch_apart mops b'"
    using that assms(4) guest_memory.scatter_apart [OF that(1)] by (auto simp: batch_apart_def)
  have other: "read_slices mops (rb_mem b') xs = read_slices mops (rb_mem b) xs"
    if "guest_memory mops" "slices_apart mops (rb_mem b) xs"
      "\<And>a n b k. (a, n) \<in> set ?h \<Longrightarrow> (b, k) \<in> set xs \<Longrightarrow> disjoint_ranges a n b k" for xs
    unfolding assms(4) by (rule guest_memory.scatter_others [OF that(1) that(3) that(2)])
  have "header_bytes mops b' i = header_encode h" if g: "guest_memory mops" "batch_apart mops b'"
    using guest_memory.scatter_exact [OF g(1) slices_apart_chain(1) [OF ap(1) [OF g] assms(2)]] assms(1,2,4)
    by (simp add: header_bytes_def same batch_valid_def chain_ok_def header_codec.encode_width)
  then show "batch_stamped mops b' i h" using assms(2) len by (simp add: batch_stamped_def)
  have "header_bytes mops b' j = header_bytes mops b j"
    if "j \<noteq> i" "j < length ?cs" "guest_memory mops" "batch_apart mops b'"
    unfolding header_bytes_def same
    using slices_apart_chain(4) [OF ap(1) [OF that(3,4)] assms(2) that(2,1)]
    by (intro other [OF that(3) slices_apart_chain(1) [OF ap(1) [OF that(3,4)] that(2)]])
      (auto simp: chain_slices_def)
  then show "j \<noteq> i \<Longrightarrow> batch_stamped mops b j h' \<Longrightarrow> batch_stamped mops b' j h'"
    using ap(2) len by (auto simp: batch_stamped_def)
  have pay: "payload_bytes mops b' k m = payload_bytes mops b k m"
    if "k < length ?cs" "guest_memory mops" "batch_apart mops b'" for k m
    unfolding payload_bytes_def same
  proof (rule other [OF that(2) guest_memory.front_apart [OF that(2)]])
    note ap = ap(1) [OF that(2,3)]
    show "slices_apart mops (rb_mem b) (rc_payload (?cs ! k))" by (rule slices_apart_chain(2) [OF ap that(1)])
    fix a n b' k' assume a: "(a, n) \<in> set ?h" and "(b', k') \<in> set (front m (rc_payload (?cs ! k)))"
    then obtain k2 where k2: "(b', k2) \<in> set (rc_payload (?cs ! k))" "k' \<le> k2" using front_below by blast
    have "disjoint_ranges a n b' k2"
      using slices_apart_chain(3) [OF ap assms(2) a] slices_apart_chain(4) [OF ap assms(2) that(1)] a k2(1)
      by (cases "k = i") (auto simp: chain_slices_def)
    then show "disjoint_ranges a n b' k'" using k2(2) by (auto intro: disjoint_ranges_less)
  qed
  have all: "map (\<lambda>(j, n). payload_bytes mops b' j n) (enumerate j ls) = map (\<lambda>(j, n). payload_bytes mops b j n) (enumerate j ls)"
    if "ls = [] \<or> j + length ls \<le> length ?cs" "guest_memory mops" "batch_apart mops b'"
    using that pay by (auto simp: in_set_enumerate_eq)
  assume h: "batch_holds mops b j ls bs"
  show "batch_holds mops b' j ls bs"
    unfolding batch_holds_def
  proof (intro conjI impI)
    show "ls = [] \<or> j + length ls \<le> length (rb_chains b')" using h by (simp add: batch_holds_def len)
    assume "guest_memory mops \<and> batch_apart mops b'"
    then show "concat (map (\<lambda>(j, n). payload_bytes mops b' j n) (enumerate j ls)) = bs"
      using h ap(2) all by (simp only: batch_holds_def)
  qed
qed

lemma chain_len:
  "unat (h_len h) \<le> MAX_PACKET \<Longrightarrow> unat (of_nat HEADER_LEN + h_len h) = HEADER_LEN + unat (h_len h)"
  by (simp add: unat_word_ariths MAX_PACKET_def HEADER_LEN_def)

lemma batch_put_ok:
  assumes "batch_valid b" "i < length (batch_rooms b)"
  shows "\<exists>b'. batch_put mops i h b = Some b' \<and> batch_valid b' \<and> batch_rooms b' = batch_rooms b \<and>
    batch_stamped mops b' i h \<and> (\<forall>j h'. j \<noteq> i \<longrightarrow> batch_stamped mops b j h' \<longrightarrow> batch_stamped mops b' j h') \<and>
    (\<forall>j ls bs. batch_holds mops b j ls bs \<longrightarrow> batch_holds mops b' j ls bs) \<and>
    (unat (h_len h) \<le> MAX_PACKET \<longrightarrow> batch_lens b' = (batch_lens b)[i := HEADER_LEN + unat (h_len h)])"
proof -
  let ?c = "rb_chains b ! i"
  define c where "c = ?c\<lparr>rc_len := word_of_nat (HEADER_LEN + unat (h_len h))\<rparr>"
  define b' where "b' = b\<lparr>rb_mem := scatter mops (rc_header ?c) (header_encode h) (rb_mem b),
      rb_chains := (rb_chains b)[i := c]\<rparr>"
  have i: "i < length (rb_chains b)" using assms(2) by (simp add: batch_rooms_def)
  then have ok: "chain_ok ?c" using assms(1) by (simp add: batch_valid_def)
  then have put: "batch_put mops i h b = Some b'"
    using i by (simp add: batch_put_def Let_def chain_ok_def header_codec.encode_width b'_def c_def)
  have "chain_ok c" using ok by (simp add: chain_ok_def c_def)
  then have "batch_valid b'"
    using assms(1) set_update_subset_insert [of "rb_chains b" i c] by (auto simp: batch_valid_def b'_def)
  moreover have "batch_rooms b' = batch_rooms b"
    using i by (simp add: batch_rooms_def b'_def map_update c_def list_update_same_conv)
  moreover have "unat (h_len h) \<le> MAX_PACKET \<longrightarrow> batch_lens b' = (batch_lens b)[i := HEADER_LEN + unat (h_len h)]"
    using chain_len [of h] by (simp add: batch_lens_def b'_def map_update c_def)
  moreover note batch_put_keeps [OF assms(1) i, of b' "word_of_nat (HEADER_LEN + unat (h_len h))" mops h]
  ultimately show ?thesis using put by (simp add: b'_def c_def)
qed

interpretation rx_batch: rx_buffers "batch_ops mops" batch_rooms batch_lens "batch_holds mops" "batch_stamped mops"
    batch_valid BATCH
  for mops :: "'m mem_ops"
proof
  fix b :: "'m rx_batch" and i :: nat and h :: header
  show "batch_valid b \<Longrightarrow> length (batch_lens b) = length (batch_rooms b) \<and>
      length (batch_rooms b) \<le> BATCH \<and> (\<forall>r \<in> set (batch_rooms b). r \<le> MAX_PACKET)"
    by (auto simp: batch_valid_def batch_rooms_def batch_lens_def)
  show "batch_valid b \<Longrightarrow> i < length (batch_rooms b) \<Longrightarrow> snd (rx_room (batch_ops mops) i b) = b"
    by (simp add: batch_ops_def batch_room_def Let_def load.simps [of mops i b] batch_rooms_def)
  show "batch_valid b \<Longrightarrow> i < length (batch_rooms b) \<Longrightarrow>
      \<exists>b'. rx_put (batch_ops mops) i h b = Some b' \<and> batch_valid b' \<and> batch_rooms b' = batch_rooms b \<and>
        batch_stamped mops b' i h \<and> (\<forall>j h'. j \<noteq> i \<longrightarrow> batch_stamped mops b j h' \<longrightarrow> batch_stamped mops b' j h') \<and>
        (\<forall>j ls bs. batch_holds mops b j ls bs \<longrightarrow> batch_holds mops b' j ls bs) \<and>
        (unat (h_len h) \<le> MAX_PACKET \<longrightarrow> batch_lens b' = (batch_lens b)[i := HEADER_LEN + unat (h_len h)])"
    using batch_put_ok by (simp add: batch_ops_def)
next
  fix b b' :: "'m rx_batch" and i :: nat and room
  assume "batch_valid b" "rx_room (batch_ops mops) i b = (room, b')"
  then show "batch_valid b' \<and> prefix (batch_rooms b) (batch_rooms b') \<and> prefix (batch_lens b) (batch_lens b') \<and>
      room = (if i < length (batch_rooms b') then Some (batch_rooms b' ! i) else None)"
    using batch_room_ok [of b mops i room b'] batch_rooms_prefix [of b b']
    by (auto simp: batch_ops_def batch_lens_def prefix_map)
next
  fix b b' :: "'m rx_batch" and s s' :: socket and first n :: nat and r
  assume b: "batch_valid b" and recv: "rx_recv (batch_ops mops) s first n b = (r, s', b')"
  obtain parts b1 where p: "recv_parts mops first n [] b = (parts, b1)" by fastforce
  note ok = recv_parts_ok [OF b p]
  let ?cap = "slices_len parts"
  have b': "rb_chains b' = rb_chains b1"
    and res: "case sock_recv ?cap s of (Inl e, s'') \<Rightarrow> r = Inl e \<and> s' = s''
            | (Inr bs, s'') \<Rightarrow> r = Inr (length bs) \<and> s' = s'' \<and>
                b' = b1\<lparr>rb_mem := scatter mops parts bs (rb_mem b1)\<rparr>"
    using recv p by (auto simp: batch_ops_def batch_recv_def split: prod.splits sum.splits)
  then have eqs: "batch_rooms b' = batch_rooms b1" "batch_lens b' = batch_lens b1" "batch_valid b'"
    using ok by (auto simp: batch_rooms_def batch_lens_def batch_valid_def)
  have "case sock_recv ?cap s of (Inl e, s'') \<Rightarrow> r = Inl e \<and> s' = s''
      | (Inr bs, s'') \<Rightarrow> r = Inr (length bs) \<and> s' = s'' \<and>
          batch_holds mops b' first (spread (length bs) (drop first (batch_rooms b'))) bs"
  proof (cases "sock_recv ?cap s")
    case (Pair a t)
    show ?thesis
    proof (cases a)
      case (Inr bs)
      have "length bs \<le> ?cap" using sock_recv_arriving [OF Pair] Inr by simp
      from batch_recv_holds [OF b p this] res Pair Inr show ?thesis by simp
    qed (use res Pair in simp)
  qed
  then show "batch_valid b' \<and> prefix (batch_rooms b) (batch_rooms b') \<and> prefix (batch_lens b) (batch_lens b') \<and>
      (\<exists>cap \<le> n. cap \<le> usable (drop first (batch_rooms b')) \<and>
        (0 < n \<and> first < length (batch_rooms b) \<and> 0 < batch_rooms b ! first \<longrightarrow> 0 < cap) \<and>
        (case sock_recv cap s of (Inl e, s'') \<Rightarrow> r = Inl e \<and> s' = s''
         | (Inr bs, s'') \<Rightarrow> r = Inr (length bs) \<and> s' = s'' \<and>
             batch_holds mops b' first (spread (length bs) (drop first (batch_rooms b'))) bs))"
    using ok eqs batch_rooms_prefix [of b b1]
    by (intro conjI exI [of _ ?cap]) (auto simp: batch_lens_def prefix_map IOV_MAX_def)
qed

end
