(* ===== verification/Vsock_System.thy ===== *)
theory Vsock_System
  imports Vsock_Transport
begin

text \<open>
  The vsock device as a whole: \<open>vsock_run\<close> are the runs of \<^verbatim>\<open>VsockControl\<close> and \<^verbatim>\<open>VsockBackend\<close> of
  \<^verbatim>\<open>crates/shuru-linux/src/kvm/vsock.rs\<close>, every step taken under the lock on its state, in any
  order and with any guest, host sockets and kernel. Each run of the device is a run of the
  multiplexer below it, and the properties of the device follow from that.
\<close>

section \<open>Runs of the device\<close>

text \<open>
  \<open>P\<close> are the host ports given to callers of \<^verbatim>\<open>connect\<close>: the port \<^verbatim>\<open>attach\<close> returned, or one it took
  back with an answer, when the socket could not be registered. A guest writes its memory at any
  time, so the memory of the transport may change between two steps.
\<close>

definition asked :: "io_error + u32 \<Rightarrow> mux \<Rightarrow> mux \<Rightarrow> u32 set" where
  "asked r mux mux' =
     (case r of
        Inr port \<Rightarrow> {port}
      | Inl _ \<Rightarrow> fst ` set (drop (length (mx_replies mux)) (mx_replies mux')))"

definition guest_wrote :: "'m \<Rightarrow> 'm vstate \<Rightarrow> 'm vstate" where
  "guest_wrote m st = st\<lparr>v_transport := map_option (\<lambda>t. t\<lparr>t_mem := m\<rparr>) (v_transport st)\<rparr>"

inductive vsock_run :: "'m mem_ops \<Rightarrow> nat \<Rightarrow> 'm vstate \<Rightarrow> u32 set \<Rightarrow> bool"
  for mops :: "'m mem_ops" and n :: nat where
  new: "vsock_run mops n (backend_new n) {}"
| guest: "vsock_run mops n st P \<Longrightarrow> vsock_run mops n (guest_wrote m st) P"
| connecting: "vsock_run mops n st P \<Longrightarrow>
    attach mops now blocking registered s port (Caller True) st = (r, st') \<Longrightarrow>
    vsock_run mops n st' (asked r (v_mux st) (v_mux st') \<union> P)"
| connected: "vsock_run mops n st P \<Longrightarrow> connect_end port answer st = (r, st') \<Longrightarrow>
    vsock_run mops n st' P"
| admitted: "vsock_run mops n st P \<Longrightarrow> admit spawned st = (ok, st') \<Longrightarrow> vsock_run mops n st' P"
| shaken: "vsock_run mops n st P \<Longrightarrow> 0 < v_handshakes st \<Longrightarrow>
    vsock_run mops n (handshake_end mops now blocking registered s port st) P"
| worked: "vsock_run mops n st P \<Longrightarrow> run_round mops now events st = Some (busy, alive, st') \<Longrightarrow>
    vsock_run mops n st' P"
| activated: "vsock_run mops n st P \<Longrightarrow> vsock_run mops n (activate mops negotiated queues m st) P"
| deactivated: "vsock_run mops n st P \<Longrightarrow> vsock_run mops n (deactivate st) P"
| saved: "vsock_run mops n st P \<Longrightarrow> backend_save st = (r, st') \<Longrightarrow> vsock_run mops n st' P"
| restored: "vsock_run mops n st P \<Longrightarrow>
    backend_restore mops negotiated saved queues m st = (r, st') \<Longrightarrow> vsock_run mops n st' P"
| resumed: "vsock_run mops n st P \<Longrightarrow> vsock_run mops n (backend_resume st) P"
| dropped: "vsock_run mops n st P \<Longrightarrow> vsock_run mops n (backend_drop st) P"

section \<open>A run of the device is a run of its multiplexer\<close>

abbreviation batch_run :: "'m mem_ops \<Rightarrow> nat \<Rightarrow> mux \<Rightarrow> u32 set \<Rightarrow> bool" where
  "batch_run mops \<equiv> mux_run (batch_ops mops) batch_valid"

lemma process_tx_run:
  "process_tx mops k q m mux used = (r, q', m', mux') \<Longrightarrow> batch_run mops n mux P \<Longrightarrow>
   batch_run mops n mux' P"
proof (induction k arbitrary: q m mux used)
  case (Suc k)
  define told where "told head = (case descriptors mops q head False m of
      Inl _ \<Rightarrow> mux
    | Inr ds \<Rightarrow> (case tx_parse mops m ds of Inl _ \<Rightarrow> mux | Inr (h, p) \<Rightarrow> mux_receive h p mux))" for head
  have "batch_run mops n (told head) P" for head
    using Suc.prems(2) by (auto simp: told_def intro: mux_run.received split: sum.split)
  moreover have "process_tx mops (Suc k) q m mux used =
     (if \<not> can_receive mux then (Inr used, q, m, mux)
      else case queue_head mops q m of
        Inl e \<Rightarrow> (Inl e, q, m, mux)
      | Inr None \<Rightarrow> (Inr used, q, m, mux)
      | Inr (Some head) \<Rightarrow>
          (case queue_complete mops q head 0 m of
             Inl e \<Rightarrow> (Inl e, q, m, told head)
           | Inr (q, m) \<Rightarrow> process_tx mops k q m (told head) True))"
    unfolding process_tx.simps Let_def told_def by (rule refl)
  ultimately show ?case
    using Suc.prems Suc.IH by (auto split: if_splits sum.splits option.splits)
qed simp

lemma mux_fill_batch:
  assumes "mux_inv mux"
  shows "\<exists>k mux' b'. mux_fill (batch_ops mops) mux (batch_new m q) = Some (k, mux', b') \<and>
    k \<le> length (rb_chains b')"
  using rx_batch.mux_fill_ok [of "batch_new m q" mux mops] batch_valid_new assms
  by (force simp: batch_rooms_def)

lemma process_rx_ok:
  assumes "mux_inv mux"
  shows "\<exists>r q' m' mux'. process_rx mops q m mux = Some (r, q', m', mux')"
proof -
  obtain k mux' b where "mux_fill (batch_ops mops) mux (batch_new m q) = Some (k, mux', b)"
      "k \<le> length (rb_chains b)"
    using mux_fill_batch [OF assms, of mops m q] by blast
  then show ?thesis
    by (cases "process_rx mops q m mux")
      (auto simp: process_rx_def Let_def split: option.splits prod.splits sum.splits)
qed

lemma process_rx_run:
  assumes "process_rx mops q m mux = Some (r, q', m', mux')" "batch_run mops n mux P"
  shows "batch_run mops n mux' P"
proof -
  have "\<exists>k b. mux_fill (batch_ops mops) mux (batch_new m q) = Some (k, mux', b)"
    using assms(1)
    by (auto simp: process_rx_def Let_def bind_eq_Some_conv
        split: if_splits option.splits prod.splits sum.splits)
  then show ?thesis using mux_run.posted [OF assms(2) batch_valid_new] by blast
qed

lemma process_ok:
  assumes "batch_run mops n mux P"
  shows "\<exists>r t' mux'. process mops now t mux = Some (r, t', mux') \<and> batch_run mops n mux' P"
proof (cases "set_notify mops (t_tx t) False (t_mem t)")
  case (Inr m)
  note m = Inr
  show ?thesis
  proof (cases "set_notify mops (t_rx t) False m")
    case (Inr m1)
    obtain r tx m2 mux1 where tx: "process_tx mops BATCH (t_tx t) m1 mux False = (r, tx, m2, mux1)"
      by (metis prod_cases4)
    have run: "batch_run mops n mux1 P" by (rule process_tx_run [OF tx assms])
    then have pumped: "batch_run mops n (mux_pump now mux1) P" by (rule mux_run.pumped)
    then have "mux_inv (mux_pump now mux1)" using rx_batch.mux_run_inv by blast
    from process_rx_ok [OF this, of mops "t_rx t" m2] obtain r2 rx m3 mux2 where
      rx: "process_rx mops (t_rx t) m2 (mux_pump now mux1) = Some (r2, rx, m3, mux2)" by blast
    have "batch_run mops n mux2 P" by (rule process_rx_run [OF rx pumped])
    then show ?thesis using m Inr tx rx run
      by (auto simp: process_def Let_def split: sum.split prod.split)
  qed (use m assms in \<open>simp add: process_def\<close>)
qed (use assms in \<open>simp add: process_def\<close>)

lemma handle_events_run: "batch_run mops n mux P \<Longrightarrow> batch_run mops n (fold handle_event events mux) P"
  by (induction events arbitrary: mux) (auto simp: handle_event_def Let_def intro: mux_run.woken)

lemma run_round_ok:
  assumes "batch_run mops n (v_mux st) P"
  shows "\<exists>busy alive st'. run_round mops now events st = Some (busy, alive, st') \<and>
    batch_run mops n (v_mux st') P \<and> v_handshakes st' = v_handshakes st"
proof (cases events)
  case None
  then show ?thesis using assms by (auto simp: run_round_def intro: mux_run.cleared)
next
  case (Some evs)
  have run: "batch_run mops n (fold handle_event evs (v_mux st)) P"
    using assms by (rule handle_events_run)
  show ?thesis
  proof (cases "v_transport st")
    case None
    then show ?thesis using Some run by (auto simp: run_round_def Let_def)
  next
    case t: (Some t)
    obtain r t' mux' where "process mops now t (fold handle_event evs (v_mux st)) = Some (r, t', mux')"
        "batch_run mops n mux' P"
      using process_ok [OF run, of now t] by blast
    then show ?thesis
      using Some t run by (auto simp: run_round_def Let_def intro: mux_run.cleared split: sum.split)
  qed
qed

lemma mux_add_cancel:
  assumes "mux_inv m" "mux_add s blocking guest_port (Caller True) now m = (Inr port, m')"
  shows "mx_replies (mux_cancel port m') = mx_replies m @ [(port, Inl ConnectionRefused)]"
proof -
  have "bt_sorted (mx_connections m)" using assms(1) by (simp add: mux_inv_def)
  moreover have "mx_connections m' =
      bt_insert port (new_connection s port guest_port (Caller True) now) (mx_connections m)"
    "mx_replies m' = mx_replies m"
    using assms(2) by (auto simp: mux_add_def Let_def split: if_splits option.splits)
  ultimately show ?thesis
    by (simp add: mux_cancel_def Let_def map_of_bt_insert drop_connection_def new_connection_def)
qed

lemma mux_add_replies: "mux_add s blocking port opener now m = (r, m') \<Longrightarrow> mx_replies m' = mx_replies m"
  by (auto simp: mux_add_def Let_def split: if_splits option.splits)

lemma attach_cases:
  assumes "attach mops now blocking registered s port opener st = (r, st')"
    and "mux_add s blocking port opener now (v_mux st) = (res, mux)"
  shows "v_handshakes st' = v_handshakes st" and
    "v_mux st' = v_mux st \<and> isl r \<or> r = res \<and> v_mux st' = mux \<or>
      (\<exists>host_port. isl r \<and> res = Inr host_port \<and> v_mux st' = mux_cancel host_port mux)"
  using assms by (auto simp: attach_def Let_def split: option.splits prod.splits if_splits sum.splits)

lemma attach_run:
  assumes at: "attach mops now blocking registered s port (Caller True) st = (r, st')"
    and run: "batch_run mops n (v_mux st) P"
  shows "v_handshakes st' = v_handshakes st \<and>
    batch_run mops n (v_mux st') (asked r (v_mux st) (v_mux st') \<union> P)"
proof -
  obtain res mux where add: "mux_add s blocking port (Caller True) now (v_mux st) = (res, mux)" by fastforce
  have "mux_inv (v_mux st)" using rx_batch.mux_run_inv run by blast
  then have cancel: "mx_replies (mux_cancel hp mux) = mx_replies (v_mux st) @ [(hp, Inl ConnectionRefused)]"
    if "res = Inr hp" for hp using mux_add_cancel add that by blast
  have added: "batch_run mops n mux (case res of Inr hp \<Rightarrow> insert hp P | Inl _ \<Rightarrow> P)"
    using mux_run.added [OF run add] by (simp split: sum.splits)
  note c = attach_cases [OF at add]
  consider "v_mux st' = v_mux st" "isl r" | "r = res" "v_mux st' = mux"
    | hp where "isl r" "res = Inr hp" "v_mux st' = mux_cancel hp mux" using c(2) by blast
  then show ?thesis
  proof cases
    case 1
    then show ?thesis using run c(1) by (auto simp: asked_def isl_def)
  next
    case 2
    then show ?thesis using added c(1) mux_add_replies [OF add] by (cases res) (auto simp: asked_def)
  next
    case 3
    then have "batch_run mops n (v_mux st') (insert hp P)" using added mux_run.cancelled by fastforce
    then show ?thesis using 3 c(1) cancel by (auto simp: asked_def isl_def)
  qed
qed

lemma attach_listener:
  assumes at: "attach mops now blocking registered s port Listener st = (r, st')"
    and run: "batch_run mops n (v_mux st) P"
  shows "v_handshakes st' = v_handshakes st \<and> batch_run mops n (v_mux st') P"
proof -
  obtain res mux where add: "mux_add s blocking port Listener now (v_mux st) = (res, mux)" by fastforce
  have "batch_run mops n mux P" using mux_run.added [OF run add] by (simp split: sum.splits)
  then show ?thesis using attach_cases [OF at add] run mux_run.cancelled by auto
qed

lemma vsock_run_ok:
  "vsock_run mops n st P \<Longrightarrow> batch_run mops n (v_mux st) P \<and> v_handshakes st \<le> MAX_HANDSHAKES"
proof (induction rule: vsock_run.induct)
  case new
  then show ?case by (simp add: backend_new_def mux_run.start)
next
  case (connecting st P now blocking registered s port r st')
  then show ?case using attach_run by metis
next
  case (connected st P port answer r st')
  then show ?case
    by (auto simp: connect_end_def intro: mux_run.cancelled split: option.splits sum.splits)
next
  case (admitted st P spawned ok st')
  then show ?case by (auto simp: admit_def Let_def split: if_splits)
next
  case (shaken st P now blocking registered s port)
  then show ?case
    using attach_listener [of mops now blocking registered s _ st]
    by (auto simp: handshake_end_def Let_def split: sum.split)
      (metis diff_le_self le_trans prod.collapse)+
next
  case (worked st P now events busy alive st')
  then show ?case using run_round_ok [of mops n st P now events] by auto
next
  case (saved st P r st')
  then show ?case by (auto simp: backend_save_def split: option.splits)
next
  case (restored st P negotiated saved queues m r st')
  then show ?case by (auto simp: backend_restore_def Let_def split: backend_state.splits sum.splits prod.splits)
qed (auto simp: guest_wrote_def activate_def deactivate_def backend_resume_def backend_drop_def
    intro: mux_run.cleared split: sum.split)

section \<open>The stream of one connection\<close>

text \<open>
  What can happen to a connection while it stays open, events of \<^verbatim>\<open>epoll\<close> included, with \<open>bs\<close> the bytes the client of the host
  socket is owed: the answer to a listener client, then the payloads of the guest's packets.
\<close>

inductive stream :: "'m mem_ops \<Rightarrow> connection \<Rightarrow> bytes \<Rightarrow> bool" for mops :: "'m mem_ops" where
  fresh: "sk_sent s = [] \<Longrightarrow> stream mops (new_connection s port guest_port opener now) []"
| packet: "stream mops c bs \<Longrightarrow> conn_receive h p c = (True, c', replies) \<Longrightarrow>
    stream mops c' (bs @ added h p c)"
| pump: "stream mops c bs \<Longrightarrow> conn_pump now c = (r, c') \<Longrightarrow> stream mops c' bs"
| wake: "stream mops c bs \<Longrightarrow> stream mops (conn_wake readable writable c) bs"
| fill: "stream mops c bs \<Longrightarrow> batch_valid b \<Longrightarrow> first < length (batch_rooms b) \<Longrightarrow>
    conn_fill (batch_ops mops) first c b = Some (r, c', b') \<Longrightarrow> stream mops c' bs"

lemma conn_fill_batch:
  assumes "batch_valid b" "first < length (batch_rooms b)"
  obtains res c' b' ls where "conn_fill (batch_ops mops) first c b = Some (res, c', b')"
    "filled (batch_lens b) (batch_lens b') (packed (batch_holds mops) (batch_stamped mops) first c b') first c c' ls"
    "case res of Inr used \<Rightarrow> used = length ls | Inl e \<Rightarrow> ls = []"
    "first + length ls \<le> length (batch_rooms b')"
  using rx_batch.conn_fill_ok [OF assms, where mops = mops and c = c] unfolding fill_post_def by blast

lemma new_connection_inv: "conn_inv (new_connection s port guest_port opener now)"
  by (simp add: new_connection_def conn_inv_def unadvertised_def)

lemma stream_ok: "stream mops c bs \<Longrightarrow> conn_inv c \<and> taken c = bs"
proof (induction rule: stream.induct)
  case (fresh s port guest_port opener now)
  then show ?case using new_connection_inv by (simp add: taken_def new_connection_def)
next
  case (packet c bs h p c' replies)
  then show ?case using conn_receive_ok by blast
next
  case (pump c bs now r c')
  then show ?case using conn_pump_ok by blast
next
  case (wake c bs readable writable)
  then show ?case by (simp add: conn_wake_def conn_inv_def unadvertised_def taken_def)
next
  case (fill c bs b first r c' b')
  from conn_fill_batch [OF fill.hyps(2,3), of mops c] fill show ?case by (auto simp: filled_def)
qed

section \<open>Properties of the device\<close>

text \<open>
  C14. What a guest and its host clients can make the device hold is bounded, whatever they do and in
  whatever order: at most \<open>n\<close> connections, at most \<open>n + MAX_PENDING_RESETS\<close> connections and pending
  resets together, at most \<open>BUFFER_SIZE\<close> bytes queued for each host socket, and at most
  \<open>MAX_HANDSHAKES\<close> listener clients in their handshake.
\<close>

theorem device_memory_bounded:
  assumes "vsock_run mops n st P"
  shows "length (mx_connections (v_mux st)) \<le> n \<and>
    length (mx_connections (v_mux st)) + length (mx_resets (v_mux st)) \<le> n + MAX_PENDING_RESETS \<and>
    (\<forall>port c. map_of (mx_connections (v_mux st)) port = Some c \<longrightarrow>
       length (c_incoming c) + unat (c_forwarded c - c_advertised c) \<le> BUFFER_SIZE) \<and>
    v_handshakes st \<le> MAX_HANDSHAKES"
  using vsock_run_ok [OF assms] rx_batch.mux_run_inv [of mops n "v_mux st" P]
  by (auto simp: mux_inv_def max_resets_def entry_ok_def conn_inv_def unadvertised_def)

text \<open>A device set up on a small memory, and a caller that connects to guest port 5000.\<close>

definition sample_setup :: queue_setup where
  "sample_setup = \<lparr>vq_max_size = 256, vq_size = 2, vq_ready = True, vq_desc_addr = 0, vq_avail_addr = 64,
                   vq_used_addr = 128, vq_last_avail_idx = 0\<rparr>"

definition idle_socket :: socket where
  "idle_socket = \<lparr>sk_answers = [], sk_arrivals = [], sk_sent = [], sk_shut_read = False,
                  sk_shut_write = False, sk_shutdown_fails = False\<rparr>"

definition sample_device :: "ram vstate" where
  "sample_device = activate ram_ops True [sample_setup, sample_setup, sample_setup] sample_ram (backend_new 1)"

definition sample_connecting :: "ram vstate" where
  "sample_connecting = snd (attach ram_ops 0 False True idle_socket 5000 (Caller True) sample_device)"

lemma sample_queue_new: "setup_queue ram_ops sample_ram sample_setup = Inr (starting_at sample_queue 0)"
proof -
  have "is_power_of_two 2"
    unfolding is_power_of_two_def by (simp add: image_iff) (rule bexI [of _ 1], simp_all)
  then show ?thesis
    by (simp add: setup_queue_def sample_setup_def queue_new_def Let_def range_ok_def checked_add_def
        ram_ops_def ram_check_def sample_ram_def sample_queue_def starting_at_def)
qed

lemma sample_attach:
  "attach ram_ops 0 False True idle_socket 5000 (Caller True) sample_device = (Inr 1025, sample_connecting)"
  "mx_connections (v_mux sample_connecting) = [(1025, new_connection idle_socket 1025 5000 (Caller True) 0)]"
  "mx_replies (v_mux sample_connecting) = []"
proof -
  have "fst (attach ram_ops 0 False True idle_socket 5000 (Caller True) sample_device) = Inr 1025 \<and>
    mx_connections (v_mux sample_connecting) = [(1025, new_connection idle_socket 1025 5000 (Caller True) 0)] \<and>
    mx_replies (v_mux sample_connecting) = []"
    by (simp add: sample_connecting_def attach_def sample_device_def activate_def backend_transport_def
        sample_queue_new backend_new_def accepts_connects_def mux_add_def mux_with_limit_def max_resets_def
        MAX_PENDING_RESETS_def checked_add_def Let_def)
  then show "attach ram_ops 0 False True idle_socket 5000 (Caller True) sample_device = (Inr 1025, sample_connecting)"
    "mx_connections (v_mux sample_connecting) = [(1025, new_connection idle_socket 1025 5000 (Caller True) 0)]"
    "mx_replies (v_mux sample_connecting) = []"
    by (simp_all add: sample_connecting_def prod_eq_iff)
qed

lemma sample_run: "vsock_run ram_ops 1 sample_connecting {1025}"
proof -
  have "vsock_run ram_ops 1 sample_device {}"
    unfolding sample_device_def by (intro vsock_run.activated vsock_run.new)
  from vsock_run.connecting [OF this sample_attach(1)] show ?thesis by (simp add: asked_def)
qed

theorem device_memory_bounded_witness:
  "vsock_run ram_ops 1 sample_connecting {1025} \<and> length (mx_connections (v_mux sample_connecting)) = 1 \<and>
   length (mx_connections (v_mux sample_connecting)) \<le> 1"
  using device_memory_bounded [OF sample_run] sample_run sample_attach(2) by simp

text \<open>
  C15. Every caller of \<^verbatim>\<open>connect\<close> gets at most one answer, and a caller that has none still has its
  connection: no run of the device forgets a caller or answers it twice.
\<close>

theorem connect_answered_once:
  assumes "vsock_run mops n st P"
  shows "distinct (map fst (mx_replies (v_mux st))) \<and> fst ` set (mx_replies (v_mux st)) \<subseteq> P \<and>
    (\<forall>port \<in> P. port \<in> fst ` set (mx_replies (v_mux st)) \<longleftrightarrow>
       \<not> (\<exists>c. map_of (mx_connections (v_mux st)) port = Some c \<and> c_opener c = Some (Caller True)))"
  using vsock_run_ok [OF assms] rx_batch.mux_run_inv [of mops n "v_mux st" P]
  by (auto simp: reply_inv_def waiting_def)

theorem connect_answered_once_witness:
  "1025 \<notin> fst ` set (mx_replies (v_mux sample_connecting)) \<and>
   (\<exists>c. map_of (mx_connections (v_mux sample_connecting)) 1025 = Some c \<and> c_opener c = Some (Caller True))"
  using connect_answered_once [OF sample_run] by (simp add: sample_attach(3))

text \<open>
  C21. A reset of the device answers everyone: once it is deactivated or dropped, every caller ever
  given a host port has had exactly one answer, and no connection, reset or transport is left.
\<close>

theorem reset_answers_every_caller:
  assumes "vsock_run mops n st P" "st' = deactivate st \<or> st' = backend_drop st"
  shows "fst ` set (mx_replies (v_mux st')) = P \<and> distinct (map fst (mx_replies (v_mux st'))) \<and>
    mx_connections (v_mux st') = [] \<and> mx_resets (v_mux st') = [] \<and> v_transport st' = None"
proof -
  have "vsock_run mops n st' P" using assms vsock_run.deactivated vsock_run.dropped by blast
  then have "reply_inv (v_mux st') P" using vsock_run_ok rx_batch.mux_run_inv by blast
  moreover have "mx_connections (v_mux st') = []" "mx_resets (v_mux st') = []" "v_transport st' = None"
    using assms(2) by (auto simp: deactivate_def backend_drop_def mux_clear_def)
  ultimately show ?thesis by (simp add: reply_inv_def waiting_def)
qed

theorem reset_answers_every_caller_witness:
  "fst ` set (mx_replies (v_mux (deactivate sample_connecting))) = {1025}"
  using reset_answers_every_caller [OF sample_run, of "deactivate sample_connecting"] by simp

text \<open>
  C16. A round of the worker always completes: with every guest memory, every answer of the host
  sockets and every set of events, the loops over the queues and the rx buffers end and no index
  is out of range.
\<close>

theorem worker_round_completes:
  assumes "vsock_run mops n st P"
  shows "\<exists>busy alive st'. run_round mops now events st = Some (busy, alive, st')"
  using run_round_ok [of mops n st P now events] vsock_run_ok [OF assms] by blast

theorem worker_round_completes_witness:
  "\<exists>busy alive st'. run_round ram_ops 7 (Some [(1025, EPOLLIN)]) sample_connecting = Some (busy, alive, st')"
  by (rule worker_round_completes [OF sample_run])

text \<open>
  Cancelling a connection always tells the guest: its reset is queued, though the queue of resets
  is bounded, and the connection is gone with its host socket shut down in both directions.
\<close>

theorem cancel_resets_guest:
  assumes "vsock_run mops n st P" "map_of (mx_connections (v_mux st)) port = Some c"
  shows "mx_resets (mux_cancel port (v_mux st)) = mx_resets (v_mux st) @ [conn_header c RST 0 0] \<and>
    map_of (mx_connections (mux_cancel port (v_mux st))) port = None \<and>
    mx_closed (mux_cancel port (v_mux st)) =
      mx_closed (v_mux st) @ [(port, (c_socket c)\<lparr>sk_shut_read := True, sk_shut_write := True\<rparr>)]"
proof -
  have "mux_inv (v_mux st)" using vsock_run_ok [OF assms(1)] rx_batch.mux_run_inv by blast
  from reset_after_remove [OF this assms(2)] show ?thesis
    by (simp add: mux_cancel_def assms(2) Let_def map_of_bt_remove) (simp add: drop_connection_def)
qed

theorem cancel_resets_guest_witness:
  "map_of (mx_connections (mux_cancel 1025 (v_mux sample_connecting))) 1025 = None"
  using cancel_resets_guest [OF sample_run, of 1025] by (simp add: sample_attach(2))

lemma conn_pump_flushed:
  assumes "conn_pump now c = (r, c')" "c_established c" "\<And>deadline. c_deadline c = Some deadline \<Longrightarrow> now < deadline"
    and f: "flush c = (r1, c1)"
  shows "c_incoming c' = c_incoming c1 \<and> c_writable c' = c_writable c1 \<and>
    sk_sent (c_socket c') = sk_sent (c_socket c1) \<and> (\<forall>keep. r = Inr keep \<longrightarrow> r1 = Inr ())"
proof -
  obtain r2 c2 where h: "half_close c1 = (r2, c2)" by fastforce
  have "c_incoming c2 = c_incoming c1" "c_writable c2 = c_writable c1" "sk_sent (c_socket c2) = sk_sent (c_socket c1)"
    using h by (auto simp: half_close_def split: if_splits)
  moreover have "(case c_deadline c of Some deadline \<Rightarrow> deadline \<le> now | None \<Rightarrow> False) = False"
    using assms(3) by (cases "c_deadline c") (auto simp: not_le)
  ultimately show ?thesis
    using assms(1,2) by (cases r1; cases r2) (auto simp: conn_pump_def f h Let_def split: if_splits)
qed

lemma flush_accepted:
  assumes "c_writable c" "sk_answers (c_socket c) = Accepts n # as" "length (c_incoming c) \<le> n"
  obtains c' where "flush c = (Inr (), c')" "sk_sent (c_socket c') = sk_sent (c_socket c) @ c_incoming c"
    "c_incoming c' = []"
proof (cases "c_incoming c = []")
  case True
  then have "flush c = (Inr (), c)" by (subst flush.simps) simp
  then show thesis using that [of c] True by simp
next
  case False
  let ?c = "c\<lparr>c_socket := (c_socket c)\<lparr>sk_answers := as, sk_sent := sk_sent (c_socket c) @ c_incoming c\<rparr>,
      c_incoming := [], c_forwarded := c_forwarded c + word_of_nat (length (c_incoming c))\<rparr>"
  have "flush c = flush ?c"
    using assms False by (subst flush.simps) (simp add: sock_send_def)
  also have "\<dots> = (Inr (), ?c)" by (subst flush.simps) simp
  finally show thesis using that [of ?c] by simp
qed

text \<open>
  C17. The stream from the guest to the host is lossless and in order: what the host socket was sent,
  followed by what is queued for it, is exactly the answer to a listener client followed by the
  payloads of the packets accepted, however the kernel cuts its writes and whenever it lets the
  connection write again, and the queue never exceeds the buffer the guest was promised. Nothing stays
  behind: a pump leaves bytes queued only when the socket would block, and once an event says that it is
  writable and it takes what is queued, it has been sent everything.
\<close>

theorem guest_stream_delivered:
  assumes "stream mops c bs"
  shows "sk_sent (c_socket c) @ c_incoming c = bs \<and> length (c_incoming c) \<le> BUFFER_SIZE \<and>
    (c_established c \<and> (\<forall>deadline. c_deadline c = Some deadline \<longrightarrow> now < deadline) \<longrightarrow>
       (\<forall>keep c'. conn_pump now c = (Inr keep, c') \<longrightarrow> c_incoming c' = [] \<or> \<not> c_writable c') \<and>
       (\<forall>n as r c'. sk_answers (c_socket c) = Accepts n # as \<and> length (c_incoming c) \<le> n \<and>
          conn_pump now (conn_wake readable True c) = (r, c') \<longrightarrow> sk_sent (c_socket c') = bs))"
proof (intro conjI allI impI)
  show taken: "sk_sent (c_socket c) @ c_incoming c = bs" and "length (c_incoming c) \<le> BUFFER_SIZE"
    using stream_ok [OF assms] by (simp_all add: taken_def conn_inv_def)
  assume c: "c_established c \<and> (\<forall>deadline. c_deadline c = Some deadline \<longrightarrow> now < deadline)"
  fix keep c' assume p: "conn_pump now c = (Inr keep, c')"
  obtain r1 c1 where f: "flush c = (r1, c1)" by fastforce
  from conn_pump_flushed [OF p _ _ f] c flush_flushed [OF f]
  show "c_incoming c' = [] \<or> \<not> c_writable c'" by auto
next
  assume c: "c_established c \<and> (\<forall>deadline. c_deadline c = Some deadline \<longrightarrow> now < deadline)"
  fix n as r c'
  assume p: "sk_answers (c_socket c) = Accepts n # as \<and> length (c_incoming c) \<le> n \<and>
      conn_pump now (conn_wake readable True c) = (r, c')"
  obtain c1 where f: "flush (conn_wake readable True c) = (Inr (), c1)" "sk_sent (c_socket c1) = bs"
    by (rule flush_accepted [of "conn_wake readable True c" n as])
      (use p stream_ok [OF assms] in \<open>auto simp: conn_wake_def taken_def\<close>)
  from conn_pump_flushed [OF _ _ _ f(1)] p c f(2) show "sk_sent (c_socket c') = bs"
    by (auto simp: conn_wake_def)
qed

definition sample_listener :: connection where
  "sample_listener = new_connection (idle_socket\<lparr>sk_answers := [Accepts 8]\<rparr>) 1025 5000 Listener 0"

lemma greeting_1025: "greeting 1025 = ascii (''OK 1025'' @ [CHR 0x0A])"
  by (simp add: greeting_def decimal.simps char_of_def bit_0)

lemma sample_listener_response:
  "conn_receive (default_header\<lparr>h_op := RESPONSE\<rparr>) [] sample_listener =
   (True, snd_conn, []) \<longleftrightarrow>
   snd_conn = fst (snd (conn_receive (default_header\<lparr>h_op := RESPONSE\<rparr>) [] sample_listener))"
  by (auto simp: sample_listener_def new_connection_def conn_receive_def credit_update_def default_credit_def
      default_header_def Let_def open_reply_def sock_send_def idle_socket_def greeting_1025 available_def)

theorem guest_stream_delivered_witness:
  "sk_sent (c_socket (fst (snd (conn_receive (default_header\<lparr>h_op := RESPONSE\<rparr>) [] sample_listener)))) @
   c_incoming (fst (snd (conn_receive (default_header\<lparr>h_op := RESPONSE\<rparr>) [] sample_listener))) =
   ascii (''OK 1025'' @ [CHR 0x0A])"
proof -
  have "stream ram_ops sample_listener []"
    unfolding sample_listener_def by (rule stream.fresh) (simp add: idle_socket_def)
  from stream.packet [OF this sample_listener_response [THEN iffD2, OF refl]]
  have "stream ram_ops (fst (snd (conn_receive (default_header\<lparr>h_op := RESPONSE\<rparr>) [] sample_listener)))
      (ascii (''OK 1025'' @ [CHR 0x0A]))"
    by (simp add: added_def sample_listener_def new_connection_def greeting_1025)
  from guest_stream_delivered [OF this] show ?thesis by simp
qed

text \<open>
  C18. The stream from the host to the guest keeps to the credit of the guest and loses nothing. Filling
  the rx buffers from \<open>first\<close> on never panics; the bytes that left the host socket are within the credit
  available, are counted as in flight without a wrap of the 32-bit counter, and are in the packets put
  into the buffers, of \<open>ls\<close> payload bytes each: read back from guest memory, the payloads are exactly
  these bytes in order, each after a data header of the connection with its length, provided the
  buffers of the guest do not overlap. Buffers before \<open>first\<close> are untouched.
\<close>

theorem fill_within_credit:
  assumes "batch_valid b" "first < length (batch_rooms b)"
  shows "\<exists>res c' b' ls bs. conn_fill (batch_ops mops) first c b = Some (res, c', b') \<and>
    arriving (sk_arrivals (c_socket c)) = bs @ arriving (sk_arrivals (c_socket c')) \<and>
    length bs = sum_list ls \<and> length bs \<le> unat (available (c_credit c)) \<and>
    in_flight (c_credit c') = in_flight (c_credit c) + length bs \<and>
    take first (batch_lens b') = take first (batch_lens b) \<and>
    take (length ls) (drop first (batch_lens b')) = map ((+) HEADER_LEN) ls \<and>
    (guest_memory mops \<and> batch_apart mops b' \<longrightarrow>
       concat (map (\<lambda>(j, n). payload_bytes mops b' j n) (enumerate first ls)) = bs \<and>
       (bs \<noteq> [] \<longrightarrow> (\<forall>j < length ls. \<exists>h. header_decode (header_bytes mops b' (first + j)) = Some h \<and>
          h_op h = RW \<and> unat (h_len h) = ls ! j \<and>
          h_src_port h = c_host_port c \<and> h_dst_port h = c_guest_port c))) \<and>
    (case res of Inr used \<Rightarrow> used = length ls | Inl _ \<Rightarrow> ls = [])"
proof -
  obtain res c' b' ls where f: "conn_fill (batch_ops mops) first c b = Some (res, c', b')"
    "filled (batch_lens b) (batch_lens b') (packed (batch_holds mops) (batch_stamped mops) first c b') first c c' ls"
    "case res of Inr used \<Rightarrow> used = length ls | Inl e \<Rightarrow> ls = []"
    by (rule conn_fill_batch [OF assms, of mops c])
  from f(2) obtain bs where bs: "arriving (sk_arrivals (c_socket c)) = bs @ arriving (sk_arrivals (c_socket c'))"
    "length bs = sum_list ls" "bs \<noteq> [] \<longrightarrow> packed (batch_holds mops) (batch_stamped mops) first c b' ls bs"
    unfolding filled_def by blast
  have "concat (map (\<lambda>(j, n). payload_bytes mops b' j n) (enumerate first ls)) = bs"
    if "guest_memory mops \<and> batch_apart mops b'"
  proof (cases "bs = []")
    case True
    then have "n = 0" if "(j, n) \<in> set (enumerate first ls)" for j n
      using that bs(2) by (auto simp: in_set_enumerate_eq)
    then have "payload_bytes mops b' j n = []" if "(j, n) \<in> set (enumerate first ls)" for j n
      using that by (force simp: payload_bytes_def)
    then show ?thesis using True by (auto simp only: concat_eq_Nil_conv set_map case_prod_conv)
  qed (use bs(3) that in \<open>simp add: packed_def batch_holds_def\<close>)
  moreover have "\<exists>h. header_decode (header_bytes mops b' (first + j)) = Some h \<and> h_op h = RW \<and>
      unat (h_len h) = ls ! j \<and> h_src_port h = c_host_port c \<and> h_dst_port h = c_guest_port c"
    if "guest_memory mops \<and> batch_apart mops b'" "bs \<noteq> []" "j < length ls" for j
    using bs(3) that header_codec.decode_encode by (fastforce simp: packed_def data_header_def batch_stamped_def)
  ultimately show ?thesis using f bs(1,2) unfolding filled_def by (intro exI [of _ res] exI [of _ c'] exI [of _ b'] exI [of _ ls] exI [of _ bs]) auto
qed

definition sample_batch :: "ram rx_batch" where
  "sample_batch = (batch_new sample_ram sample_queue)
     \<lparr>rb_chains := [\<lparr>rc_head = 0, rc_header = [(4096, 44)], rc_payload = [(4140, 20)], rc_room = 20, rc_len = 0\<rparr>]\<rparr>"

theorem fill_within_credit_witness:
  "guest_memory ram_ops \<and> batch_apart ram_ops sample_batch \<and>
   (\<exists>res c' b'. conn_fill (batch_ops ram_ops) 0 sample_listener sample_batch = Some (res, c', b'))"
proof -
  have "batch_valid sample_batch" "0 < length (batch_rooms sample_batch)"
    by (simp_all add: sample_batch_def batch_new_def batch_valid_def chain_ok_def HEADER_LEN_def
        batch_rooms_def BATCH_def)
  from fill_within_credit [OF this, of ram_ops sample_listener]
  have "\<exists>res c' b'. conn_fill (batch_ops ram_ops) 0 sample_listener sample_batch = Some (res, c', b')" by blast
  moreover have "batch_apart ram_ops sample_batch"
    by (simp add: batch_apart_def sample_batch_def batch_new_def chain_slices_def slices_apart_def
        disjoint_ranges_def ram_ops_def ram_check_def sample_ram_def)
  ultimately show ?thesis using ram.guest_memory_axioms by blast
qed

text \<open>
  C21. While the device is frozen for a snapshot the worker leaves the guest alone: rounds without a
  failure of \<^verbatim>\<open>epoll_wait\<close> change neither the queues nor the memory of the transport, so the indices
  that \<^verbatim>\<open>save\<close> returned stay those of the transport until it is resumed.
\<close>

theorem frozen_worker_keeps_transport:
  assumes "backend_save st = (Inr saved, st0)"
    and "run_round mops now (Some events) st1 = Some (busy, alive, st2)"
    and "v_frozen st1" "v_transport st1 = v_transport st0"
  shows "v_transport st2 = v_transport st0 \<and> v_frozen st2 \<and> alive \<and>
    (\<exists>t. v_transport st2 = Some t \<and>
       saved = VsockState (queue_index (t_rx t)) (queue_index (t_tx t)) (queue_index (t_event t)))"
  using assms by (auto simp: backend_save_def run_round_def Let_def split: option.splits)

theorem frozen_worker_keeps_transport_witness:
  "\<exists>busy alive st2. run_round ram_ops 7 (Some []) (snd (backend_save sample_device)) = Some (busy, alive, st2) \<and>
     v_transport st2 = v_transport sample_device \<and> v_frozen st2"
proof -
  let ?st = "snd (backend_save sample_device)"
  have t: "\<exists>t. v_transport sample_device = Some t"
    by (simp add: sample_device_def activate_def backend_transport_def sample_queue_new backend_new_def)
  then obtain saved where s: "backend_save sample_device = (Inr saved, ?st)" and
      f: "v_frozen ?st" "v_transport ?st = v_transport sample_device"
    by (auto simp: backend_save_def)
  have "run_round ram_ops 7 (Some []) ?st = Some (False, True, ?st\<lparr>v_mux := v_mux ?st\<rparr>)"
    using f by (simp add: run_round_def)
  from frozen_worker_keeps_transport [OF s this f(1) refl] this f(2) show ?thesis by auto
qed

text \<open>
  C19. After a restore, hosts cannot connect until the guest has handled the transport reset: with
  \<open>count\<close> buffers posted to the event queue when the reset was sent, connects are refused until the
  guest posts one more, and accepted from then on, across the wrap of the 16-bit index.
\<close>

theorem connects_wait_for_reset:
  assumes "posted mops (t_event t) (t_mem t) = Inr count" "reset_guest mops t = (Inr (), t')"
    and "posted mops (t_event t') m = Inr (count + word_of_nat k)" "k \<le> 0x8000"
  shows "fst (accepts_connects mops (t'\<lparr>t_mem := m\<rparr>)) = Inr (1 \<le> k)"
proof -
  have "t_resetting t' = Some (count + 1)"
    using assms(1,2) by (auto simp: reset_guest_def Let_def split: sum.splits option.splits list.splits if_splits)
  moreover have "0x8000 \<le> (count + word_of_nat k) - (count + 1) \<longleftrightarrow> k = 0"
  proof (cases k)
    case (Suc j)
    then have "(count + word_of_nat k) - (count + 1) = word_of_nat j" by simp
    then show ?thesis using Suc assms(4) by (simp add: word_le_nat_alt unat_of_nat)
  qed simp
  ultimately show ?thesis using assms(3) by (auto simp: accepts_connects_def)
qed

text \<open>An event queue with one writable buffer, just before the reset.\<close>

definition event_ram :: ram where
  "event_ram = sample_ram\<lparr>ram_bytes := (ram_bytes sample_ram)(12 := 2)\<rparr>"

definition sample_transport :: "ram transport" where
  "sample_transport = \<lparr>t_rx = sample_queue, t_tx = sample_queue, t_event = sample_queue, t_mem = event_ram,
                       t_interrupts = 0, t_resetting = None\<rparr>"

lemma event_ram_reads:
  "posted ram_ops sample_queue event_ram = Inr 0"
  "queue_head ram_ops sample_queue event_ram = Inr (Some 0)"
  "read_descriptor ram_ops sample_queue 0 event_ram
   = Some \<lparr>d_address = 4096, d_len = 64, d_flags = 2, d_next = 0\<rparr>"
proof -
  have r: "read_u16 ram_ops 66 event_ram = Inr 0" "read_u16 ram_ops 70 event_ram = Inr 0"
    by (simp_all add: read_u16_def ram_ops_def ram_read_def ram_check_def event_ram_def sample_ram_def
        upt_conv_Cons from_le_bytes_def)
  then show "posted ram_ops sample_queue event_ram = Inr 0" by (simp add: posted_def sample_queue_def)
  from r show "queue_head ram_ops sample_queue event_ram = Inr (Some 0)"
    by (simp add: queue_head_def head_at_def sample_queue_def avail_slot_def)
  have "ram_read 0 16 event_ram = Some [0, 16, 0, 0, 0, 0, 0, 0, 64, 0, 0, 0, 2, 0, 0, 0]"
    by (simp add: ram_read_def ram_check_def event_ram_def sample_ram_def upt_conv_Cons)
  then show "read_descriptor ram_ops sample_queue 0 event_ram
      = Some \<lparr>d_address = 4096, d_len = 64, d_flags = 2, d_next = 0\<rparr>"
    by (simp add: read_descriptor_def ram_ops_def sample_queue_def field_def from_le_bytes_def)
qed

lemma sample_reset:
  obtains t' where "reset_guest ram_ops sample_transport = (Inr (), t')" "q_avail_addr (t_event t') = 64"
proof -
  let ?e = "to_le_bytes VIRTIO_VSOCK_EVENT_TRANSPORT_RESET"
  have d: "descriptors ram_ops sample_queue 0 True event_ram = Inr [(4096, 64)]"
    by (simp add: descriptors_def walk.simps event_ram_reads descriptor_ok_def checked_add_def
        BUFFER_SIZE_def HEADER_LEN_def)
      (simp add: ram_ops_def ram_check_def event_ram_def sample_ram_def sample_queue_def)
  obtain m1 where m1: "mem_write ram_ops 4096 ?e event_ram = Some m1" "ram_size m1 = 8192"
    by (simp add: ram_ops_def ram_write_def ram_check_def event_ram_def sample_ram_def to_le_bytes_def
        VIRTIO_VSOCK_EVENT_TRANSPORT_RESET_def)
  have "queue_wf ram_ops sample_queue m1"
    using sample_queue_ok(1) m1(2) by (simp add: queue_wf_def range_ok_def ram_ops_def ram_check_def sample_ram_def Let_def)
  from ram.complete_writes [OF this, of 0 4] obtain m2 where
    "queue_complete ram_ops sample_queue 0 4 m1
      = Inr (sample_queue\<lparr>q_used := q_used sample_queue + 1, q_next_avail := q_next_avail sample_queue + 1\<rparr>, m2)"
    by blast
  then show thesis
    using that d m1(1) event_ram_reads
    by (simp add: reset_guest_def sample_transport_def Let_def) (simp add: sample_queue_def)
qed

theorem connects_wait_for_reset_witness:
  "\<exists>t'. reset_guest ram_ops sample_transport = (Inr (), t') \<and>
     fst (accepts_connects ram_ops (t'\<lparr>t_mem := event_ram\<rparr>)) = Inr False"
proof -
  obtain t' where t': "reset_guest ram_ops sample_transport = (Inr (), t')" "q_avail_addr (t_event t') = 64"
    by (rule sample_reset)
  have p: "posted ram_ops (t_event sample_transport) (t_mem sample_transport) = Inr 0"
    "posted ram_ops (t_event t') event_ram = Inr (0 + word_of_nat 0)"
    using event_ram_reads(1) t'(2) by (simp_all add: sample_transport_def posted_def) (simp add: sample_queue_def)
  from connects_wait_for_reset [OF p(1) t'(1) p(2)] t'(1) show ?thesis by auto
qed

section \<open>The text protocol of the listener and the clock\<close>

lemma read_connect_line:
  "10 \<notin> set xs \<Longrightarrow> length line + length xs < MAX_CONNECT_LINE \<Longrightarrow>
   read_connect failed (xs @ 10 # rest) line = (parse_connect (line @ xs), rest)"
  by (induction xs arbitrary: line) auto

lemma read_connect_accepts:
  "read_connect failed bs line = (Inr port, rest) \<Longrightarrow>
   \<exists>xs. bs = xs @ 10 # rest \<and> 10 \<notin> set xs \<and> length line + length xs < MAX_CONNECT_LINE \<and>
     parse_connect (line @ xs) = Inr port"
proof (induction bs arbitrary: line)
  case (Cons b bs)
  show ?case
  proof (cases "b = 10")
    case True
    then show ?thesis using Cons.prems by (auto split: if_splits intro!: exI [of _ "[]"])
  next
    case False
    then have "\<not> MAX_CONNECT_LINE \<le> length line" "read_connect failed bs (line @ [b]) = (Inr port, rest)"
      using Cons.prems by (auto split: if_splits)
    from Cons.IH [OF this(2)] obtain xs where "bs = xs @ 10 # rest" "10 \<notin> set xs"
        "length (line @ [b]) + length xs < MAX_CONNECT_LINE" "parse_connect ((line @ [b]) @ xs) = Inr port" by blast
    then show ?thesis using False by (intro exI [of _ "b # xs"]) simp
  qed
qed (simp split: if_splits)

abbreviation digit_byte :: "byte \<Rightarrow> bool" where
  "digit_byte b \<equiv> 48 \<le> b \<and> b \<le> 57"

definition port_value :: "bytes \<Rightarrow> nat" where
  "port_value ds = digits_value (map (\<lambda>b. char_of (unat b)) ds)"

lemma is_digit_byte: "is_digit (char_of (unat (b :: byte))) \<longleftrightarrow> digit_byte b"
  using unat_word_bound [of b] by (simp add: is_digit_def word_le_nat_alt)

lemma parse_connect_eq:
  "parse_connect line = Inr port \<longleftrightarrow>
   (\<exists>ds. line = connect_prefix @ ds \<and> ds \<noteq> [] \<and> list_all digit_byte ds \<and> port_value ds = unat port)"
proof -
  have digits: "parse_unsigned (2 ^ 32) (map (\<lambda>b. char_of (unat b)) ds) =
      (if ds \<noteq> [] \<and> port_value ds < 2 ^ 32 then Some (port_value ds) else None)"
    if "list_all digit_byte ds" for ds :: bytes
  proof -
    have "list_all is_digit (map (\<lambda>b. char_of (unat b)) ds)"
      using that by (simp add: list_all_iff is_digit_byte)
    moreover have "char_of (unat b) \<noteq> CHR ''+''" if "digit_byte b" for b :: byte
    proof
      assume "char_of (unat b) = CHR ''+''"
      then have "is_digit (CHR ''+'')" using that is_digit_byte [of b] by simp
      then show False by (simp add: is_digit_def)
    qed
    ultimately show ?thesis
      using that by (cases ds) (auto simp: parse_unsigned_def port_value_def)
  qed
  have "parse_connect (connect_prefix @ ds) = Inr port \<longleftrightarrow>
      ds \<noteq> [] \<and> list_all digit_byte ds \<and> port_value ds = unat port" for ds
    using digits [of ds] unat_word_bound [of port]
    by (auto simp: parse_connect_def Let_def unat_of_nat word_unat_eq_iff)
  moreover have "\<exists>ds. line = connect_prefix @ ds" if "parse_connect line = Inr port"
  proof -
    have "take (length connect_prefix) line = connect_prefix"
      using that by (auto simp: parse_connect_def Let_def split: if_splits)
    then show ?thesis by (metis append_take_drop_id)
  qed
  ultimately show ?thesis by blast
qed

lemma length_decimal: "n < 10 ^ Suc k \<Longrightarrow> length (decimal n) \<le> Suc k"
proof (induction k arbitrary: n)
  case (Suc k)
  then show ?case using Suc.IH [of "n div 10"] by (subst decimal.simps) (auto simp: less_mult_imp_div_less)
qed (subst decimal.simps, simp)

lemma decimal_bytes:
  "list_all digit_byte (ascii (decimal n))" "port_value (ascii (decimal n)) = n"
proof -
  have again: "char_of (unat (word_of_nat (of_char c) :: byte)) = c" for c :: char
    by (simp add: unat_of_nat)
  show "port_value (ascii (decimal n)) = n"
    by (simp add: port_value_def ascii_def comp_def again digits_value_decimal)
  show "list_all digit_byte (ascii (decimal n))"
    using decimal_digits [of n] by (simp add: ascii_def list_all_iff again flip: is_digit_byte)
qed

text \<open>
  C22. The listener accepts exactly the lines \<^verbatim>\<open>CONNECT <port>\<close> with a port in plain decimal digits that
  fits 32 bits, of less than \<open>MAX_CONNECT_LINE\<close> bytes, and takes nothing after the line; every port
  is reached by its decimal form.
\<close>

theorem connect_line_exact:
  "(read_connect failed bs [] = (Inr port, rest) \<longleftrightarrow>
     (\<exists>ds. bs = ascii ''CONNECT '' @ ds @ 10 # rest \<and> ds \<noteq> [] \<and> length ds < MAX_CONNECT_LINE - 8 \<and>
        list_all (\<lambda>b. 48 \<le> b \<and> b \<le> 57) ds \<and> port_value ds = unat port)) \<and>
   read_connect failed (ascii (''CONNECT '' @ decimal (unat q) @ [CHR 0x0A]) @ rest) [] = (Inr q, rest)"
proof -
  have p: "10 \<notin> set connect_prefix" "length connect_prefix = 8"
    by (simp_all add: connect_prefix_def ascii_def)
  have nl: "10 \<notin> set ds" if "list_all digit_byte ds" for ds :: bytes
    using that by (auto simp: list_all_iff)
  have iff: "read_connect failed bs [] = (Inr port, rest) \<longleftrightarrow>
     (\<exists>ds. bs = connect_prefix @ ds @ 10 # rest \<and> ds \<noteq> [] \<and> length ds < MAX_CONNECT_LINE - 8 \<and>
        list_all digit_byte ds \<and> port_value ds = unat port)" (is "?l bs port \<longleftrightarrow> ?r bs port") for bs port
  proof
    assume "?l bs port"
    from read_connect_accepts [OF this] show "?r bs port" by (auto simp: parse_connect_eq p)
  next
    assume "?r bs port"
    then obtain ds where ds: "bs = connect_prefix @ ds @ 10 # rest" "ds \<noteq> []" "length ds < MAX_CONNECT_LINE - 8"
      "list_all digit_byte ds" "port_value ds = unat port" by blast
    then show "?l bs port"
      using read_connect_line [of "connect_prefix @ ds" "[]" failed rest] p nl [of ds] parse_connect_eq
      by auto
  qed
  have "length (decimal (unat q)) \<le> Suc 9"
    using unat_word_bound [of q] by (intro length_decimal) simp
  moreover have "ascii (decimal (unat q)) \<noteq> []" using decimal_nonempty by (simp add: ascii_def)
  ultimately have "?r (ascii (''CONNECT '' @ decimal (unat q) @ [CHR 0x0A]) @ rest) q"
    using decimal_bytes [of "unat q"]
    by (intro exI [of _ "ascii (decimal (unat q))"]) (simp add: connect_prefix_def ascii_def MAX_CONNECT_LINE_def)
  then show ?thesis using iff unfolding connect_prefix_def by blast
qed

text \<open>
  C22. The worker sleeps for its earliest deadline and no longer than a millisecond past it, unless the
  wait exceeds the 31 bits of \<^verbatim>\<open>epoll_wait\<close>. It can wake less than a microsecond early, since the rest
  below a microsecond is cut off before rounding up: for a deadline half a microsecond away it does not
  wait at all.
\<close>

theorem wait_covers_deadline:
  assumes "now \<le> deadline" "(deadline - now) div 1000 \<le> 1000 * (2 ^ 31 - 1)"
  shows "deadline < now + nat (wait_ms now (Some deadline)) * 1000000 + 1000 \<and>
    now + nat (wait_ms now (Some deadline)) * 1000000 < deadline + 1000000 \<and>
    0 \<le> wait_ms now (Some deadline) \<and> wait_ms now (Some deadline) < 2 ^ 31 \<and>
    wait_ms now (Some (now + 500)) = 0"
proof -
  define micros where "micros = (deadline - now) div 1000"
  define w where "w = (micros + 999) div 1000"
  have m: "micros * 1000 \<le> deadline - now" "deadline - now < micros * 1000 + 1000"
    unfolding micros_def using div_mult_mod_eq [of "deadline - now" 1000] mod_less_divisor [of 1000 "deadline - now"]
    by (simp, linarith)
  have w: "micros \<le> w * 1000" "w * 1000 \<le> micros + 999" "w \<le> 2 ^ 31 - 1"
    using assms(2) unfolding w_def micros_def [symmetric] by simp_all
  have "wait_ms now (Some deadline) = int w"
    using w(3) by (simp add: wait_ms_def Let_def w_def micros_def)
  moreover have "wait_ms now (Some (now + 500)) = 0" by (simp add: wait_ms_def)
  ultimately show ?thesis using m w assms(1) by auto
qed

theorem wait_covers_deadline_witness:
  "wait_ms 0 (Some 1500000) = 2 \<and> 1500000 < (0::nat) + nat (wait_ms 0 (Some 1500000)) * 1000000 + 1000"
  using wait_covers_deadline [of 0 1500000] by (simp add: wait_ms_def)

end
