(* ===== verification/Proxy_Config.thy ===== *)
theory Proxy_Config
  imports Shuru_Prelude "HOL-Library.Sublist"
begin

text \<open>
  The configuration of the egress proxy, \<^verbatim>\<open>crates/shuru-proxy/src/config.rs\<close>, and the decisions that
  depend on it alone: which domains the policy allows, which addresses are public, and which gateway
  ports lead to the host. A \<^verbatim>\<open>HashMap\<close> is an association list, in the order an iteration over it takes.
\<close>

unbundle bit_operations_syntax

section \<open>Data\<close>

record expose_host_mapping =
  ex_host_port :: u16
  ex_guest_port :: u16

record rate =
  ra_per_second :: u32
  ra_burst :: u32

record connection_rate =
  cr_connections :: rate
  cr_destinations :: rate

datatype scope = ScopeHead | ScopeAuthorization

text \<open>Durations are in nanoseconds.\<close>

record secret_config =
  sc_from :: "string option"
  sc_command :: "string list option"
  sc_ttl :: "nat option"
  sc_hosts :: "string list"
  sc_value :: "string option"
  sc_provided :: bool
  sc_scope :: scope

definition default_secret :: secret_config where
  "default_secret = \<lparr>sc_from = None, sc_command = None, sc_ttl = None, sc_hosts = [], sc_value = None,
                     sc_provided = False, sc_scope = ScopeHead\<rparr>"

definition from_env :: "string \<Rightarrow> string list \<Rightarrow> secret_config" where
  "from_env var hosts = default_secret\<lparr>sc_from := Some var, sc_hosts := hosts\<rparr>"

definition from_command :: "string list \<Rightarrow> string list \<Rightarrow> secret_config" where
  "from_command command hosts = default_secret\<lparr>sc_command := Some command, sc_hosts := hosts\<rparr>"

definition from_provider :: "string list \<Rightarrow> secret_config" where
  "from_provider hosts = default_secret\<lparr>sc_provided := True, sc_hosts := hosts\<rparr>"

datatype ipv4 = Ipv4 u8 u8 u8 u8

datatype ip_addr = V4 ipv4 | V6 u16 u16 u16 u16 u16 u16 u16 u16

text \<open>
  The fields of \<^verbatim>\<open>ProxyConfig\<close> the proxy decides by. \<open>pc_egress_log\<close> and \<open>pc_provider\<close> say whether there
  is one; what they do is in \<^verbatim>\<open>egress.rs\<close> and \<^verbatim>\<open>secrets.rs\<close>.
\<close>

record proxy_config =
  pc_dns_resolver :: ipv4
  pc_secrets :: "(string \<times> secret_config) list"
  pc_allow :: "string list"
  pc_expose_host :: "expose_host_mapping list"
  pc_config_dir :: "string option"
  pc_public_only :: bool
  pc_deny_ports :: "u16 list"
  pc_connection_rate :: "connection_rate option"
  pc_egress_rate :: "rate option"
  pc_egress_log :: bool
  pc_upstream_roots :: "bytes option"
  pc_provider :: bool

definition default_config :: proxy_config where
  "default_config =
     \<lparr>pc_dns_resolver = Ipv4 8 8 8 8, pc_secrets = [], pc_allow = [], pc_expose_host = [],
      pc_config_dir = None, pc_public_only = False, pc_deny_ports = [], pc_connection_rate = None,
      pc_egress_rate = None, pc_egress_log = False, pc_upstream_roots = None, pc_provider = False\<rparr>"

section \<open>Decisions\<close>

text \<open>
  \<^verbatim>\<open>strip_prefix\<close> and \<^verbatim>\<open>ends_with\<close> of texts are \<open>strip_prefix\<close> below and \<^const>\<open>suffix\<close>; the byte before
  the suffix is read by index.
\<close>

definition strip_prefix :: "string \<Rightarrow> string \<Rightarrow> string option" where
  "strip_prefix p s = (if prefix p s then Some (drop (length p) s) else None)"

definition domain_matches :: "string \<Rightarrow> string \<Rightarrow> bool" where
  "domain_matches pattern domain =
     (if pattern = ''*'' then True
      else
        case strip_prefix ''*.'' pattern of
          Some sfx \<Rightarrow>
            suffix sfx domain \<and> length sfx < length domain \<and>
            domain ! (length domain - length sfx - 1) = CHR ''.''
        | None \<Rightarrow> pattern = domain)"

definition matches_domain :: "secret_config \<Rightarrow> string \<Rightarrow> bool" where
  "matches_domain secret domain = list_ex (\<lambda>pattern. domain_matches pattern domain) (sc_hosts secret)"

definition has_allowlist :: "proxy_config \<Rightarrow> bool" where
  "has_allowlist config \<longleftrightarrow> pc_allow config \<noteq> []"

definition is_domain_allowed :: "proxy_config \<Rightarrow> string \<Rightarrow> bool" where
  "is_domain_allowed config domain =
     (if pc_allow config = [] then True
      else list_ex (\<lambda>pattern. domain_matches pattern domain) (pc_allow config))"

definition gateway :: ipv4 where
  "gateway = Ipv4 10 0 0 1"

definition exposed_host_port :: "proxy_config \<Rightarrow> ipv4 \<Rightarrow> u16 \<Rightarrow> u16 option" where
  "exposed_host_port config dst_ip guest_port =
     (if dst_ip \<noteq> gateway then None
      else map_option ex_host_port (find (\<lambda>m. ex_guest_port m = guest_port) (pc_expose_host config)))"

fun is_public_v4 :: "ipv4 \<Rightarrow> bool" where
  "is_public_v4 (Ipv4 a b c d) =
     (\<not> (a = 0 \<or> a = 10 \<or> a = 127 \<or>
         (a = 100 \<and> 64 \<le> b \<and> b < 128) \<or>
         (a = 169 \<and> b = 254) \<or>
         (a = 172 \<and> 16 \<le> b \<and> b < 32) \<or>
         (a = 192 \<and> b = 0 \<and> (c = 0 \<or> c = 2)) \<or>
         (a = 192 \<and> b = 88 \<and> c = 99) \<or>
         (a = 192 \<and> b = 168) \<or>
         (a = 198 \<and> (b = 18 \<or> b = 19)) \<or>
         (a = 198 \<and> b = 51 \<and> c = 100) \<or>
         (a = 203 \<and> b = 0 \<and> c = 113) \<or>
         224 \<le> a))"

text \<open>\<^verbatim>\<open>Ipv6Addr::to_ipv4_mapped\<close>: the addresses \<^verbatim>\<open>::ffff:a.b.c.d\<close>.\<close>

fun to_ipv4_mapped :: "ip_addr \<Rightarrow> ipv4 option" where
  "to_ipv4_mapped (V6 s0 s1 s2 s3 s4 s5 s6 s7) =
     (if s0 = 0 \<and> s1 = 0 \<and> s2 = 0 \<and> s3 = 0 \<and> s4 = 0 \<and> s5 = 0xffff
      then Some (Ipv4 (ucast (drop_bit 8 s6)) (ucast s6) (ucast (drop_bit 8 s7)) (ucast s7))
      else None)"
| "to_ipv4_mapped (V4 _) = None"

fun is_public :: "ip_addr \<Rightarrow> bool" where
  "is_public (V4 ip) = is_public_v4 ip"
| "is_public (V6 s0 s1 s2 s3 s4 s5 s6 s7) =
     (case to_ipv4_mapped (V6 s0 s1 s2 s3 s4 s5 s6 s7) of
        Some v4 \<Rightarrow> is_public_v4 v4
      | None \<Rightarrow>
          s0 AND 0xe000 = 0x2000 \<and> \<not> (s0 = 0x2001 \<and> (s1 < 0x0200 \<or> s1 = 0x0db8)))"

section \<open>The domain patterns\<close>

text \<open>
  The three forms of a domain pattern mean what they say: a star alone matches every domain, a star
  and a dot match the names below the rest, at a label boundary and never the rest itself, and any
  other pattern matches only itself.
\<close>

theorem domain_pattern_meaning:
  "domain_matches ''*'' domain \<and>
   (domain_matches (''*.'' @ rest) domain \<longleftrightarrow> (\<exists>label. domain = label @ ''.'' @ rest)) \<and>
   \<not> domain_matches (''*.'' @ rest) rest \<and>
   (pattern \<noteq> ''*'' \<and> \<not> prefix ''*.'' pattern \<longrightarrow> (domain_matches pattern domain \<longleftrightarrow> domain = pattern))"
proof -
  have "domain_matches (''*.'' @ rest) domain \<longleftrightarrow> (\<exists>label. domain = label @ ''.'' @ rest)"
  proof
    assume "domain_matches (''*.'' @ rest) domain"
    then have m: "suffix rest domain" "length rest < length domain"
        "domain ! (length domain - length rest - 1) = CHR ''.''"
      by (auto simp: domain_matches_def strip_prefix_def)
    then obtain pre where pre: "domain = pre @ rest" by (auto simp: suffix_def)
    with m(2,3) have "pre \<noteq> []" "last pre = CHR ''.''"
      by (auto simp: nth_append last_conv_nth)
    then have "pre = butlast pre @ ''.''" by (metis append_butlast_last_id)
    with pre show "\<exists>label. domain = label @ ''.'' @ rest" by (metis append.assoc)
  next
    assume "\<exists>label. domain = label @ ''.'' @ rest"
    then show "domain_matches (''*.'' @ rest) domain"
      by (auto simp: domain_matches_def strip_prefix_def suffix_def nth_append)
  qed
  moreover have "\<not> (\<exists>label. rest = label @ ''.'' @ rest)"
  proof
    assume "\<exists>label. rest = label @ ''.'' @ rest"
    then obtain label where "rest = label @ ''.'' @ rest" by blast
    from arg_cong [OF this, of length] show False by simp
  qed
  moreover have "\<not> domain_matches (''*.'' @ rest) rest"
    by (auto simp: domain_matches_def strip_prefix_def)
  ultimately show ?thesis by (auto simp: domain_matches_def strip_prefix_def)
qed

text \<open>A plain name under a plain pattern, and a name below a starred one.\<close>

theorem domain_pattern_meaning_witness:
  "''example.com'' \<noteq> ''*'' \<and> \<not> prefix ''*.'' ''example.com'' \<and>
   \<not> domain_matches ''example.com'' ''www.example.com'' \<and> domain_matches ''*.example.com'' ''www.example.com''"
  using domain_pattern_meaning [of "''www.example.com''" "''example.com''" "''example.com''"] by simp

section \<open>The public addresses\<close>

text \<open>
  The blocks of IPv4 addresses that are not public, as network and prefix length: this network,
  private, loopback, shared, link-local, protocol assignments, documentation, 6to4 relays,
  benchmarking, multicast and reserved.
\<close>

definition v4_bits :: "ipv4 \<Rightarrow> nat" where
  "v4_bits ip = (case ip of Ipv4 a b c d \<Rightarrow> ((unat a * 256 + unat b) * 256 + unat c) * 256 + unat d)"

definition in_block :: "ipv4 \<Rightarrow> ipv4 \<times> nat \<Rightarrow> bool" where
  "in_block ip block \<longleftrightarrow> v4_bits ip div 2 ^ (32 - snd block) = v4_bits (fst block) div 2 ^ (32 - snd block)"

definition special_blocks :: "(ipv4 \<times> nat) list" where
  "special_blocks =
     [(Ipv4 0 0 0 0, 8), (Ipv4 10 0 0 0, 8), (Ipv4 127 0 0 0, 8), (Ipv4 100 64 0 0, 10),
      (Ipv4 169 254 0 0, 16), (Ipv4 172 16 0 0, 12), (Ipv4 192 0 0 0, 24), (Ipv4 192 0 2 0, 24),
      (Ipv4 192 88 99 0, 24), (Ipv4 192 168 0 0, 16), (Ipv4 198 18 0 0, 15), (Ipv4 198 51 100 0, 24),
      (Ipv4 203 0 113 0, 24), (Ipv4 224 0 0 0, 3)]"

lemma base_digit:
  fixes x y c e m :: nat
  assumes "c < m" "e < m"
  shows "x * m + c = y * m + e \<longleftrightarrow> x = y \<and> c = e"
proof
  assume eq: "x * m + c = y * m + e"
  have "(x * m + c) div m = x" "(y * m + e) div m = y" using assms by simp_all
  then have "x = y" using eq by metis
  with eq show "x = y \<and> c = e" by simp
qed simp

lemma drop_digit: "(d :: nat) < 256 \<Longrightarrow> (x * 256 + d) div (256 * m) = x div m"
  by (simp add: div_mult2_eq)

lemma div_is: "0 < m \<Longrightarrow> (b :: nat) div m = q \<longleftrightarrow> q * m \<le> b \<and> b < Suc q * m"
  by (metis div_less_iff_less_mult less_eq_div_iff_mult_less_eq less_Suc_eq_le order_antisym_conv order_refl)

lemma split_digit:
  assumes "m * k = 256"
  shows "(a * 256 + b) div m = a * k + b div (m :: nat)"
proof -
  have "m \<noteq> 0" using assms by (cases m) auto
  moreover have "a * 256 + b = b + m * (a * k)" by (simp add: mult.left_commute flip: assms)
  ultimately show ?thesis by (metis div_mult_self2)
qed

lemma v4_block:
  fixes a b c d :: nat
  assumes "b < 256" "c < 256" "d < 256"
  shows "(((a * 256 + b) * 256 + c) * 256 + d) div (256 * (256 * m)) = (a * 256 + b) div m"
    "(a * 256 + b) div 256 = a" "(a * 256 + b) div 64 = a * 4 + b div 64"
    "(a * 256 + b) div 16 = a * 16 + b div 16" "(a * 256 + b) div 2 = a * 128 + b div 2"
    "(a * 256 + b) div 8192 = a div 32"
proof -
  show "(((a * 256 + b) * 256 + c) * 256 + d) div (256 * (256 * m)) = (a * 256 + b) div m"
    by (simp only: drop_digit [OF assms(3)] drop_digit [OF assms(2)])
  show "(a * 256 + b) div 256 = a" using assms(1) by simp
  show "(a * 256 + b) div 64 = a * 4 + b div 64" "(a * 256 + b) div 16 = a * 16 + b div 16"
    "(a * 256 + b) div 2 = a * 128 + b div 2" by (rule split_digit, simp)+
  show "(a * 256 + b) div 8192 = a div 32" using drop_digit [OF assms(1), of a 32] by simp
qed

definition octets :: "nat \<Rightarrow> nat \<Rightarrow> nat \<Rightarrow> nat \<Rightarrow> nat" where
  "octets a b c d = ((a * 256 + b) * 256 + c) * 256 + d"

definition octets3 :: "nat \<Rightarrow> nat \<Rightarrow> nat \<Rightarrow> nat" where
  "octets3 a b c = (a * 256 + b) * 256 + c"

lemma octets_div:
  assumes "b < 256" "c < 256" "d < 256"
  shows "octets a b c d div 16777216 = a" "octets a b c d div 4194304 = a * 4 + b div 64"
    "octets a b c d div 1048576 = a * 16 + b div 16" "octets a b c d div 131072 = a * 128 + b div 2"
    "octets a b c d div 65536 = a * 256 + b" "octets a b c d div 256 = octets3 a b c"
    "octets a b c d div 536870912 = a div 32"
proof -
  note v = v4_block(1) [OF assms, of a, folded octets_def] v4_block(2-) [OF assms, of a]
  show "octets a b c d div 16777216 = a" using v(1) [of 256] v(2) by simp
  show "octets a b c d div 4194304 = a * 4 + b div 64" using v(1) [of 64] v(3) by simp
  show "octets a b c d div 1048576 = a * 16 + b div 16" using v(1) [of 16] v(4) by simp
  show "octets a b c d div 131072 = a * 128 + b div 2" using v(1) [of 2] v(5) by simp
  show "octets a b c d div 65536 = a * 256 + b" using v(1) [of 1] by simp
  show "octets a b c d div 536870912 = a div 32" using v(1) [of 8192] v(6) by simp
  show "octets a b c d div 256 = octets3 a b c"
    unfolding octets_def octets3_def using assms(3) by simp
qed

lemma special_octets:
  fixes a b c :: nat
  assumes "b < 256" "c < 256"
  shows "a * 4 + b div 64 = 401 \<longleftrightarrow> a = 100 \<and> 64 \<le> b \<and> b < 128"
    "a * 16 + b div 16 = 2753 \<longleftrightarrow> a = 172 \<and> 16 \<le> b \<and> b < 32"
    "a * 128 + b div 2 = 25353 \<longleftrightarrow> a = 198 \<and> 18 \<le> b \<and> b < 20"
    "a * 256 + b = 43518 \<longleftrightarrow> a = 169 \<and> b = 254"
    "a * 256 + b = 49320 \<longleftrightarrow> a = 192 \<and> b = 168"
    "a div 32 = 7 \<longleftrightarrow> 224 \<le> a \<and> a < 256"
    "octets3 a b c = 12582912 \<longleftrightarrow> a = 192 \<and> b = 0 \<and> c = 0"
    "octets3 a b c = 12582914 \<longleftrightarrow> a = 192 \<and> b = 0 \<and> c = 2"
    "octets3 a b c = 12605539 \<longleftrightarrow> a = 192 \<and> b = 88 \<and> c = 99"
    "octets3 a b c = 12989284 \<longleftrightarrow> a = 198 \<and> b = 51 \<and> c = 100"
    "octets3 a b c = 13303921 \<longleftrightarrow> a = 203 \<and> b = 0 \<and> c = 113"
proof -
  have q: "b div 64 < 4" "b div 16 < 16" "b div 2 < 128" using assms(1) by simp_all
  show "a * 4 + b div 64 = 401 \<longleftrightarrow> a = 100 \<and> 64 \<le> b \<and> b < 128"
    using base_digit [OF q(1), of 1 a 100] by (simp add: div_is)
  show "a * 16 + b div 16 = 2753 \<longleftrightarrow> a = 172 \<and> 16 \<le> b \<and> b < 32"
    using base_digit [OF q(2), of 1 a 172] by (simp add: div_is)
  show "a * 128 + b div 2 = 25353 \<longleftrightarrow> a = 198 \<and> 18 \<le> b \<and> b < 20"
    using base_digit [OF q(3), of 9 a 198] by (simp add: div_is)
  show "a * 256 + b = 43518 \<longleftrightarrow> a = 169 \<and> b = 254"
    using base_digit [OF assms(1), of 254 a 169] by simp
  show "a * 256 + b = 49320 \<longleftrightarrow> a = 192 \<and> b = 168"
    using base_digit [OF assms(1), of 168 a 192] by simp
  show "a div 32 = 7 \<longleftrightarrow> 224 \<le> a \<and> a < 256" by (simp add: div_is)
  show "octets3 a b c = 12582912 \<longleftrightarrow> a = 192 \<and> b = 0 \<and> c = 0"
    using base_digit [OF assms(2), of 0 "a * 256 + b" 49152] base_digit [OF assms(1), of 0 a 192] by (simp add: octets3_def)
  show "octets3 a b c = 12582914 \<longleftrightarrow> a = 192 \<and> b = 0 \<and> c = 2"
    using base_digit [OF assms(2), of 2 "a * 256 + b" 49152] base_digit [OF assms(1), of 0 a 192] by (simp add: octets3_def)
  show "octets3 a b c = 12605539 \<longleftrightarrow> a = 192 \<and> b = 88 \<and> c = 99"
    using base_digit [OF assms(2), of 99 "a * 256 + b" 49240] base_digit [OF assms(1), of 88 a 192] by (simp add: octets3_def)
  show "octets3 a b c = 12989284 \<longleftrightarrow> a = 198 \<and> b = 51 \<and> c = 100"
    using base_digit [OF assms(2), of 100 "a * 256 + b" 50739] base_digit [OF assms(1), of 51 a 198] by (simp add: octets3_def)
  show "octets3 a b c = 13303921 \<longleftrightarrow> a = 203 \<and> b = 0 \<and> c = 113"
    using base_digit [OF assms(2), of 113 "a * 256 + b" 51968] base_digit [OF assms(1), of 0 a 203] by (simp add: octets3_def)
qed

lemma in_special_block:
  fixes w x y z :: u8
  defines "ip \<equiv> Ipv4 w x y z"
  shows "in_block ip (Ipv4 0 0 0 0, 8) \<longleftrightarrow> w = 0" "in_block ip (Ipv4 10 0 0 0, 8) \<longleftrightarrow> w = 10"
    "in_block ip (Ipv4 127 0 0 0, 8) \<longleftrightarrow> w = 127"
    "in_block ip (Ipv4 100 64 0 0, 10) \<longleftrightarrow> w = 100 \<and> 64 \<le> x \<and> x < 128"
    "in_block ip (Ipv4 169 254 0 0, 16) \<longleftrightarrow> w = 169 \<and> x = 254"
    "in_block ip (Ipv4 172 16 0 0, 12) \<longleftrightarrow> w = 172 \<and> 16 \<le> x \<and> x < 32"
    "in_block ip (Ipv4 192 0 0 0, 24) \<longleftrightarrow> w = 192 \<and> x = 0 \<and> y = 0"
    "in_block ip (Ipv4 192 0 2 0, 24) \<longleftrightarrow> w = 192 \<and> x = 0 \<and> y = 2"
    "in_block ip (Ipv4 192 88 99 0, 24) \<longleftrightarrow> w = 192 \<and> x = 88 \<and> y = 99"
    "in_block ip (Ipv4 192 168 0 0, 16) \<longleftrightarrow> w = 192 \<and> x = 168"
    "in_block ip (Ipv4 198 18 0 0, 15) \<longleftrightarrow> w = 198 \<and> (x = 18 \<or> x = 19)"
    "in_block ip (Ipv4 198 51 100 0, 24) \<longleftrightarrow> w = 198 \<and> x = 51 \<and> y = 100"
    "in_block ip (Ipv4 203 0 113 0, 24) \<longleftrightarrow> w = 203 \<and> x = 0 \<and> y = 113"
    "in_block ip (Ipv4 224 0 0 0, 3) \<longleftrightarrow> 224 \<le> w"
proof -
  have b: "unat w < 256" "unat x < 256" "unat y < 256" "unat z < 256"
    using unat_word_bound [of w] unat_word_bound [of x] unat_word_bound [of y] unat_word_bound [of z] by simp_all
  have ip: "v4_bits ip = octets (unat w) (unat x) (unat y) (unat z)"
    by (simp add: v4_bits_def octets_def ip_def)
  note rules = in_block_def ip octets_div [OF b(2-)] special_octets [OF b(2,3)] word_unat_eq_iff
    word_le_nat_alt word_less_nat_alt
  show "in_block ip (Ipv4 0 0 0 0, 8) \<longleftrightarrow> w = 0" "in_block ip (Ipv4 10 0 0 0, 8) \<longleftrightarrow> w = 10"
    "in_block ip (Ipv4 127 0 0 0, 8) \<longleftrightarrow> w = 127"
    "in_block ip (Ipv4 100 64 0 0, 10) \<longleftrightarrow> w = 100 \<and> 64 \<le> x \<and> x < 128"
    "in_block ip (Ipv4 169 254 0 0, 16) \<longleftrightarrow> w = 169 \<and> x = 254"
    "in_block ip (Ipv4 172 16 0 0, 12) \<longleftrightarrow> w = 172 \<and> 16 \<le> x \<and> x < 32"
    "in_block ip (Ipv4 192 0 0 0, 24) \<longleftrightarrow> w = 192 \<and> x = 0 \<and> y = 0"
    "in_block ip (Ipv4 192 0 2 0, 24) \<longleftrightarrow> w = 192 \<and> x = 0 \<and> y = 2"
    "in_block ip (Ipv4 192 88 99 0, 24) \<longleftrightarrow> w = 192 \<and> x = 88 \<and> y = 99"
    "in_block ip (Ipv4 192 168 0 0, 16) \<longleftrightarrow> w = 192 \<and> x = 168"
    "in_block ip (Ipv4 198 51 100 0, 24) \<longleftrightarrow> w = 198 \<and> x = 51 \<and> y = 100"
    "in_block ip (Ipv4 203 0 113 0, 24) \<longleftrightarrow> w = 203 \<and> x = 0 \<and> y = 113"
    by (simp_all add: rules) (simp_all add: v4_bits_def special_octets [OF b(2,3)])
  show "in_block ip (Ipv4 198 18 0 0, 15) \<longleftrightarrow> w = 198 \<and> (x = 18 \<or> x = 19)"
    by (simp add: rules) (auto simp add: v4_bits_def special_octets [OF b(2,3)])
  show "in_block ip (Ipv4 224 0 0 0, 3) \<longleftrightarrow> 224 \<le> w"
    using b(1) by (simp add: rules) (simp add: v4_bits_def special_octets [OF b(2,3)])
qed

lemma octet_pair:
  fixes a b :: u8
  defines "w \<equiv> word_of_nat (unat a * 256 + unat b) :: u16"
  shows "ucast (drop_bit 8 w) = a" "ucast w = b"
proof -
  have b: "unat a < 256" "unat b < 256" using unat_word_bound [of a] unat_word_bound [of b] by simp_all
  then have w: "unat w = unat a * 256 + unat b" unfolding w_def unat_of_nat by simp
  have "unat (ucast v :: u8) = unat v mod 256" for v :: u16
    by (simp add: unsigned_ucast_eq take_bit_eq_mod)
  moreover have "unat (drop_bit 8 w) = unat w div 256"
    by (simp add: drop_bit_eq_div unat_div)
  ultimately have "unat (ucast (drop_bit 8 w) :: u8) = unat a" "unat (ucast w :: u8) = unat b"
    using b w by simp_all
  then show "ucast (drop_bit 8 w) = a" "ucast w = b" by (simp_all add: word_unat_eq_iff)
qed

lemma top_bits: "(s :: u16) AND 0xe000 = 0x2000 \<longleftrightarrow> unat s div 2 ^ 13 = 1"
proof -
  define t where "t = take_bit 3 (drop_bit 13 s)"
  have "unat s < 65536" using unat_word_bound [of s] by simp
  then have t: "unat t = unat s div 2 ^ 13" "unat t < 8"
    by (simp_all add: t_def take_bit_eq_mod drop_bit_eq_div unat_div unat_mod)
  have "(mask (3 + 13) AND NOT (mask 13) :: u16) = 0xe000" by (simp add: mask_eq_exp_minus_1)
  then have "s AND 0xe000 = push_bit 13 t"
    using slice_eq_mask [of 13 3 s] by (simp add: t_def and.assoc)
  moreover have "unat (push_bit 13 t) = unat t * 8192"
    using t(2) by (simp add: push_bit_eq_mult unat_word_ariths)
  ultimately have "s AND 0xe000 = 0x2000 \<longleftrightarrow> unat t = 1" by (simp add: word_unat_eq_iff)
  then show ?thesis using t(1) by simp
qed



end
