(* ===== verification/Proxy_Egress.thy ===== *)
theory Proxy_Egress
  imports Proxy_Config Complex_Main "HOL-Library.Multiset"
begin

text \<open>
  The egress gate, \<^verbatim>\<open>crates/shuru-proxy/src/egress.rs\<close>: which connections a guest may open and at what
  pace, the pace of the bytes it sends, and the record of what it opened. Instants and durations are in
  nanoseconds. The LRU cache is a third-party crate: its two operations are the record \<open>lru_ops\<close>.
\<close>

section \<open>Floating point numbers\<close>

text \<open>
  An \<^verbatim>\<open>f64\<close> is a real number rounded to 53 significant bits, to nearest with ties to even, after every
  operation. The numbers here are far from the largest and the smallest of the format.
\<close>

definition half_even :: "real \<Rightarrow> int" where
  "half_even x =
     (let r = x - of_int \<lfloor>x\<rfloor>
      in if r < 1 / 2 \<or> (r = 1 / 2 \<and> even \<lfloor>x\<rfloor>) then \<lfloor>x\<rfloor> else \<lfloor>x\<rfloor> + 1)"

definition f64 :: "real \<Rightarrow> real" where
  "f64 x =
     (if x = 0 then 0
      else let u = 2 powr (of_int \<lfloor>log 2 \<bar>x\<bar>\<rfloor> - 52) in of_int (half_even (x / u)) * u)"

text \<open>\<^verbatim>\<open>Duration::as_secs_f64\<close> and \<^verbatim>\<open>Duration::from_secs_f64\<close>.\<close>

definition as_secs_f64 :: "nat \<Rightarrow> real" where
  "as_secs_f64 d = f64 (f64 (of_nat (d div 1000000000)) + f64 (of_nat (d mod 1000000000) / 1000000000))"

definition from_secs_f64 :: "real \<Rightarrow> nat" where
  "from_secs_f64 x = nat (half_even (x * 1000000000))"

section \<open>Token buckets\<close>

record bucket =
  bk_rate :: rate
  bk_tokens :: real
  bk_at :: nat

definition bucket_new :: "rate \<Rightarrow> nat \<Rightarrow> bucket" where
  "bucket_new rate now = \<lparr>bk_rate = rate, bk_tokens = of_nat (unat (ra_burst rate)), bk_at = now\<rparr>"

definition bucket_refill :: "nat \<Rightarrow> bucket \<Rightarrow> bucket" where
  "bucket_refill now b =
     (let elapsed = as_secs_f64 (now - bk_at b);
          tokens = f64 (bk_tokens b + f64 (elapsed * of_nat (unat (ra_per_second (bk_rate b)))))
      in b\<lparr>bk_tokens := min tokens (of_nat (unat (ra_burst (bk_rate b)))), bk_at := now\<rparr>)"

definition bucket_has :: "bucket \<Rightarrow> bool" where
  "bucket_has b \<longleftrightarrow> 1 \<le> bk_tokens b"

definition bucket_take :: "bucket \<Rightarrow> bucket" where
  "bucket_take b = b\<lparr>bk_tokens := f64 (bk_tokens b - 1)\<rparr>"

definition bucket_owe :: "real \<Rightarrow> nat \<Rightarrow> nat \<Rightarrow> bucket \<Rightarrow> nat option \<times> bucket" where
  "bucket_owe n now slack b =
     (let b = bucket_refill now b;
          b = b\<lparr>bk_tokens := f64 (bk_tokens b - n)\<rparr>;
          wait = f64 (- bk_tokens b / of_nat (unat (ra_per_second (bk_rate b))))
      in (if as_secs_f64 slack < wait then Some (from_secs_f64 wait) else None, b))"

section \<open>The record\<close>

definition DESTINATION_MEMORY :: nat where "DESTINATION_MEMORY = 600 * 1000000000"
definition DESTINATIONS_KEPT :: nat where "DESTINATIONS_KEPT = 4096"
definition REPORT_EVERY :: nat where "REPORT_EVERY = 10 * 1000000000"
definition HOST_MAX :: nat where "HOST_MAX = 253"
definition EGRESS_SLACK :: nat where "EGRESS_SLACK = 10 * 1000000"

text \<open>
  The bytes of one connection each way, which its relay adds to, and the host it named. A character of
  the name is the bytes from one that starts a character up to the next.
\<close>

record tally =
  ta_up :: u64
  ta_down :: u64
  ta_host :: "string option"

definition new_tally :: tally where
  "new_tally = \<lparr>ta_up = 0, ta_down = 0, ta_host = None\<rparr>"

fun utf8_chars :: "string \<Rightarrow> string list" where
  "utf8_chars [] = []"
| "utf8_chars (c # cs) =
     (let tail = takeWhile (\<lambda>d. 0x80 \<le> code_of d \<and> code_of d < 0xC0) cs
      in (c # tail) # utf8_chars (drop (length tail) cs))"

definition clean_char :: "string \<Rightarrow> char" where
  "clean_char cs =
     (case cs of
        [c] \<Rightarrow>
          if (97 \<le> code_of c \<and> code_of c \<le> 122) \<or> is_digit c \<or> c \<in> set ''.-_*'' then c
          else if 65 \<le> code_of c \<and> code_of c \<le> 90 then char_of (code_of c + 32)
          else CHR ''?''
      | _ \<Rightarrow> CHR ''?'')"

definition set_host :: "string \<Rightarrow> tally \<Rightarrow> tally" where
  "set_host host t =
     (case ta_host t of
        Some _ \<Rightarrow> t
      | None \<Rightarrow> t\<lparr>ta_host := Some (map clean_char (take HOST_MAX (utf8_chars host)))\<rparr>)"

type_synonym address = "ip_addr \<times> u16"

text \<open>\<open>op_at\<close> is on the wall clock, \<open>op_since\<close> an instant; a line keeps what \<^verbatim>\<open>json!\<close> writes, but for
  the name of the sandbox, which is the same on every line of a log.\<close>

record open_conn =
  op_dst :: address
  op_at :: nat
  op_since :: nat
  op_tally :: tally

record turned_away =
  tu_since :: nat
  tu_held :: nat
  tu_refused :: "(u16 \<times> nat) list"

definition turned_since :: "nat \<Rightarrow> turned_away" where
  "turned_since since = \<lparr>tu_since = since, tu_held = 0, tu_refused = []\<rparr>"

text \<open>\<open>ConnectionLine\<close> has the destination, host, bytes up and down, milliseconds and, once ended, the outcome.\<close>

datatype log_line =
    ConnectionLine nat address "string option" u64 u64 nat "bool option"
  | TurnedAwayLine nat nat "(u16 \<times> nat) list"

record egress_log =
  lg_next :: nat
  lg_open :: "(nat \<times> open_conn) list"
  lg_turned_away :: turned_away
  lg_out :: "log_line list"

definition log_new :: "nat \<Rightarrow> egress_log" where
  "log_new wall = \<lparr>lg_next = 0, lg_open = [], lg_turned_away = turned_since wall, lg_out = []\<rparr>"

definition connection_line :: "open_conn \<Rightarrow> nat \<Rightarrow> bool option \<Rightarrow> log_line" where
  "connection_line oc lasted ok =
     ConnectionLine (op_at oc) (op_dst oc) (ta_host (op_tally oc)) (ta_up (op_tally oc)) (ta_down (op_tally oc))
       (lasted div 1000000) ok"

definition turned_away_lines :: "turned_away \<Rightarrow> log_line list" where
  "turned_away_lines t =
     (if tu_held t = 0 \<and> tu_refused t = [] then []
      else [TurnedAwayLine (tu_since t) (tu_held t) (tu_refused t)])"

definition log_open_conn :: "address \<Rightarrow> tally \<Rightarrow> nat \<Rightarrow> nat \<Rightarrow> egress_log \<Rightarrow> nat \<times> egress_log" where
  "log_open_conn dst tally wall now lg =
     (lg_next lg,
      lg\<lparr>lg_next := lg_next lg + 1,
         lg_open := (lg_next lg, \<lparr>op_dst = dst, op_at = wall, op_since = now, op_tally = tally\<rparr>) # lg_open lg\<rparr>)"

text \<open>The tally of a connection is shared with its relay, which changes it while the connection is open.\<close>

definition log_tally :: "nat \<Rightarrow> tally \<Rightarrow> egress_log \<Rightarrow> egress_log" where
  "log_tally conn t lg = lg\<lparr>lg_open := map (\<lambda>(i, oc). (i, if i = conn then oc\<lparr>op_tally := t\<rparr> else oc)) (lg_open lg)\<rparr>"

definition log_ended :: "nat \<Rightarrow> bool \<Rightarrow> nat \<Rightarrow> egress_log \<Rightarrow> egress_log" where
  "log_ended conn ok now lg =
     (case map_of (lg_open lg) conn of
        None \<Rightarrow> lg
      | Some oc \<Rightarrow>
          lg\<lparr>lg_open := filter (\<lambda>(i, _). i \<noteq> conn) (lg_open lg),
             lg_out := lg_out lg @ [connection_line oc (now - op_since oc) (Some ok)]\<rparr>)"

definition log_close :: "nat \<Rightarrow> nat \<Rightarrow> egress_log \<Rightarrow> egress_log" where
  "log_close wall now lg =
     lg\<lparr>lg_open := [], lg_turned_away := turned_since wall,
        lg_out := lg_out lg @ map (\<lambda>(_, oc). connection_line oc (now - op_since oc) None) (lg_open lg) @
          turned_away_lines (lg_turned_away lg)\<rparr>"

fun bump :: "u16 \<Rightarrow> (u16 \<times> nat) list \<Rightarrow> (u16 \<times> nat) list" where
  "bump port [] = [(port, 1)]"
| "bump port ((p, n) # rest) =
     (if port < p then (port, 1) # (p, n) # rest
      else if port = p then (p, n + 1) # rest
      else (p, n) # bump port rest)"

definition log_refused :: "u16 \<Rightarrow> egress_log \<Rightarrow> egress_log" where
  "log_refused port lg =
     lg\<lparr>lg_turned_away := (lg_turned_away lg)\<lparr>tu_refused := bump port (tu_refused (lg_turned_away lg))\<rparr>\<rparr>"

definition log_held :: "egress_log \<Rightarrow> egress_log" where
  "log_held lg = lg\<lparr>lg_turned_away := (lg_turned_away lg)\<lparr>tu_held := tu_held (lg_turned_away lg) + 1\<rparr>\<rparr>"

definition log_report :: "nat \<Rightarrow> egress_log \<Rightarrow> egress_log" where
  "log_report wall lg =
     lg\<lparr>lg_turned_away := turned_since wall, lg_out := lg_out lg @ turned_away_lines (lg_turned_away lg)\<rparr>"

section \<open>The pace of bytes\<close>

record egress =
  eg_bytes :: u64
  eg_pace :: "bucket option"

definition egress_new :: "rate option \<Rightarrow> nat \<Rightarrow> egress" where
  "egress_new rate now =
     \<lparr>eg_bytes = 0,
      eg_pace = (case rate of
          Some r \<Rightarrow> if 0 < ra_per_second r then Some (bucket_new r now) else None
        | None \<Rightarrow> None)\<rparr>"

definition egress_spend :: "nat \<Rightarrow> nat \<Rightarrow> egress \<Rightarrow> nat option \<times> egress" where
  "egress_spend n now e =
     (case eg_pace e of
        None \<Rightarrow> (None, e)
      | Some b \<Rightarrow>
          (case bucket_owe (f64 (of_nat n)) now EGRESS_SLACK b of (wait, b) \<Rightarrow> (wait, e\<lparr>eg_pace := Some b\<rparr>)))"

definition egress_sent :: "nat \<Rightarrow> egress \<Rightarrow> egress" where
  "egress_sent n e = e\<lparr>eg_bytes := eg_bytes e + word_of_nat n\<rparr>"

section \<open>The gate\<close>

datatype verdict = VerdictOpen | Refuse | Wait

type_synonym destination = "ipv4 \<times> u16"

record 'l lru_ops =
  lru_get :: "destination \<Rightarrow> 'l \<Rightarrow> nat option \<times> 'l"
  lru_put :: "destination \<Rightarrow> nat \<Rightarrow> 'l \<Rightarrow> 'l"
  lru_new :: "nat \<Rightarrow> 'l"

record 'l paced =
  pa_connections :: bucket
  pa_destinations :: bucket
  pa_reached :: 'l

record 'l gate =
  ga_deny_ports :: "u16 list"
  ga_rate :: "'l paced option"
  ga_log :: "egress_log option"
  ga_next_report :: nat

definition gate_new :: "'l lru_ops \<Rightarrow> proxy_config \<Rightarrow> egress_log option \<Rightarrow> nat \<Rightarrow> 'l gate" where
  "gate_new lru config lg now =
     \<lparr>ga_deny_ports = pc_deny_ports config,
      ga_rate = map_option (\<lambda>rate. \<lparr>pa_connections = bucket_new (cr_connections rate) now,
                                    pa_destinations = bucket_new (cr_destinations rate) now,
                                    pa_reached = lru_new lru DESTINATIONS_KEPT\<rparr>) (pc_connection_rate config),
      ga_log = lg, ga_next_report = now + REPORT_EVERY\<rparr>"

definition paced_decide :: "'l lru_ops \<Rightarrow> destination \<Rightarrow> nat \<Rightarrow> 'l paced \<Rightarrow> verdict \<times> 'l paced" where
  "paced_decide lru dst now p =
     (case lru_get lru dst (pa_reached p) of
        (seen, reached) \<Rightarrow>
          let new = (case seen of None \<Rightarrow> True | Some t \<Rightarrow> DESTINATION_MEMORY \<le> now - t);
              p = p\<lparr>pa_reached := reached, pa_connections := bucket_refill now (pa_connections p),
                    pa_destinations := bucket_refill now (pa_destinations p)\<rparr>
          in if \<not> bucket_has (pa_connections p) \<or> (new \<and> \<not> bucket_has (pa_destinations p)) then (Wait, p)
             else
               (VerdictOpen,
                p\<lparr>pa_connections := bucket_take (pa_connections p),
                  pa_destinations := (if new then bucket_take (pa_destinations p) else pa_destinations p),
                  pa_reached := lru_put lru dst now (pa_reached p)\<rparr>))"

definition gate_decide :: "'l lru_ops \<Rightarrow> destination \<Rightarrow> nat \<Rightarrow> 'l gate \<Rightarrow> verdict \<times> 'l gate" where
  "gate_decide lru dst now g =
     (if snd dst \<in> set (ga_deny_ports g) then (Refuse, g)
      else
        case ga_rate g of
          None \<Rightarrow> (VerdictOpen, g)
        | Some p \<Rightarrow> (case paced_decide lru dst now p of (v, p) \<Rightarrow> (v, g\<lparr>ga_rate := Some p\<rparr>)))"

definition gate_admit :: "'l lru_ops \<Rightarrow> destination \<Rightarrow> nat \<Rightarrow> 'l gate \<Rightarrow> verdict \<times> 'l gate" where
  "gate_admit lru dst now g =
     (case gate_decide lru dst now g of
        (v, g) \<Rightarrow>
          (v, g\<lparr>ga_log := (case v of
                  VerdictOpen \<Rightarrow> ga_log g
                | Refuse \<Rightarrow> map_option (log_refused (snd dst)) (ga_log g)
                | Wait \<Rightarrow> map_option log_held (ga_log g))\<rparr>))"

definition gate_report :: "nat \<Rightarrow> nat \<Rightarrow> 'l gate \<Rightarrow> 'l gate" where
  "gate_report wall now g =
     (case ga_log g of
        None \<Rightarrow> g
      | Some lg \<Rightarrow>
          if now < ga_next_report g then g
          else g\<lparr>ga_log := Some (log_report wall lg), ga_next_report := now + REPORT_EVERY\<rparr>)"

section \<open>Runs of the gate and of the log\<close>

text \<open>The SYNs of a guest, each at its instant, through the gate.\<close>

fun admits :: "'l lru_ops \<Rightarrow> (destination \<times> nat) list \<Rightarrow> 'l gate \<Rightarrow> verdict list \<times> 'l gate" where
  "admits lru [] g = ([], g)"
| "admits lru ((dst, now) # syns) g =
     (case gate_admit lru dst now g of
        (v, g) \<Rightarrow> case admits lru syns g of (vs, g) \<Rightarrow> (v # vs, g))"

definition opens :: "verdict list \<Rightarrow> nat" where
  "opens vs = length (filter (\<lambda>v. v = VerdictOpen) vs)"

text \<open>What the tasks that share one log do to it, in the order of its mutex.\<close>

datatype log_event =
    LogOpen address tally nat nat
  | LogTally nat tally
  | LogEnded nat bool nat
  | LogRefused u16
  | LogHeld
  | LogReport nat
  | LogClose nat nat

fun log_step :: "log_event \<Rightarrow> egress_log \<Rightarrow> egress_log" where
  "log_step (LogOpen dst t wall now) lg = snd (log_open_conn dst t wall now lg)"
| "log_step (LogTally conn t) lg = log_tally conn t lg"
| "log_step (LogEnded conn ok now) lg = log_ended conn ok now lg"
| "log_step (LogRefused port) lg = log_refused port lg"
| "log_step LogHeld lg = log_held lg"
| "log_step (LogReport wall) lg = log_report wall lg"
| "log_step (LogClose wall now) lg = log_close wall now lg"

definition log_run :: "nat \<Rightarrow> log_event list \<Rightarrow> egress_log" where
  "log_run wall evs = fold log_step evs (log_new wall)"

text \<open>The connections the events open, and those the lines of the log tell of: destination and wall time.\<close>

fun opened_by :: "log_event \<Rightarrow> (address \<times> nat) list" where
  "opened_by (LogOpen dst t wall now) = [(dst, wall)]"
| "opened_by _ = []"

fun told_by :: "log_line \<Rightarrow> (address \<times> nat) list" where
  "told_by (ConnectionLine wall dst host up down ms ok) = [(dst, wall)]"
| "told_by (TurnedAwayLine since held refused) = []"

definition conn_key :: "nat \<times> open_conn \<Rightarrow> address \<times> nat" where
  "conn_key e = (op_dst (snd e), op_at (snd e))"

text \<open>The SYNs to a port that were refused, and the ones held back, in a line and in the pending count.\<close>

definition refused_at :: "u16 \<Rightarrow> (u16 \<times> nat) list \<Rightarrow> nat" where
  "refused_at port counts = sum_list (map snd (filter (\<lambda>(p, _). p = port) counts))"

fun line_refused :: "u16 \<Rightarrow> log_line \<Rightarrow> nat" where
  "line_refused port (TurnedAwayLine since held refused) = refused_at port refused"
| "line_refused port (ConnectionLine wall dst host up down ms ok) = 0"

fun line_held :: "log_line \<Rightarrow> nat" where
  "line_held (TurnedAwayLine since held refused) = held"
| "line_held (ConnectionLine wall dst host up down ms ok) = 0"

section \<open>Rounding errors\<close>

lemma half_even_near: "\<bar>of_int (half_even x) - x\<bar> \<le> 1 / 2"
proof -
  have f: "of_int \<lfloor>x\<rfloor> \<le> x" "x < of_int \<lfloor>x\<rfloor> + 1" by linarith+
  consider "half_even x = \<lfloor>x\<rfloor>" "x - of_int \<lfloor>x\<rfloor> \<le> 1 / 2" | "half_even x = \<lfloor>x\<rfloor> + 1" "1 / 2 \<le> x - of_int \<lfloor>x\<rfloor>"
    by (cases "x - of_int \<lfloor>x\<rfloor> < 1 / 2"; cases "even \<lfloor>x\<rfloor>"; cases "x - of_int \<lfloor>x\<rfloor> = 1 / 2")
      (simp_all add: half_even_def Let_def)
  then show ?thesis
  proof cases
    case 1
    then show ?thesis unfolding 1(1) using f by linarith
  next
    case 2
    then show ?thesis unfolding 2(1) of_int_add of_int_1 using f by linarith
  qed
qed

lemma f64_error: "\<bar>f64 x - x\<bar> \<le> \<bar>x\<bar> / 2 ^ 53"
proof (cases "x = 0")
  case False
  define m where "m = \<lfloor>log 2 \<bar>x\<bar>\<rfloor>"
  define u where "u = 2 powr (real_of_int m - 52)"
  have u: "0 < u" by (simp add: u_def)
  have "real_of_int m \<le> log 2 \<bar>x\<bar>" by (simp add: m_def)
  then have "2 powr real_of_int m \<le> \<bar>x\<bar>" using False by (simp add: le_log_iff)
  moreover have "u / 2 = 2 powr real_of_int m / 2 ^ 53"
    by (simp add: u_def powr_diff powr_realpow [symmetric])
  ultimately have half: "u / 2 \<le> \<bar>x\<bar> / 2 ^ 53" by (simp add: field_simps)
  have "f64 x - x = (of_int (half_even (x / u)) - x / u) * u"
    using False u by (simp add: f64_def Let_def m_def [symmetric] u_def [symmetric] algebra_simps)
  then have "\<bar>f64 x - x\<bar> = \<bar>of_int (half_even (x / u)) - x / u\<bar> * u" using u by (simp add: abs_mult)
  also have "\<dots> \<le> 1 / 2 * u" using half_even_near [of "x / u"] u by (intro mult_right_mono) auto
  finally show ?thesis using half by simp
qed (simp add: f64_def)

lemma f64_nonneg: "0 \<le> x \<Longrightarrow> 0 \<le> f64 x"
  using f64_error [of x] by (simp add: abs_if split: if_splits)

lemma f64_up: "0 \<le> x \<Longrightarrow> f64 x \<le> x * (1 + 1 / 2 ^ 53)"
  using f64_error [of x] by (simp add: abs_if algebra_simps split: if_splits)

lemma as_secs_up: "0 \<le> as_secs_f64 d" "as_secs_f64 d \<le> of_nat d / 1000000000 * (1 + 1 / 2 ^ 53) ^ 2"
proof -
  let ?s = "of_nat (d div 1000000000) :: real" and ?n = "of_nat (d mod 1000000000) / 1000000000 :: real"
    and ?c = "1 + 1 / 2 ^ 53 :: real"
  have parts: "0 \<le> f64 ?s" "0 \<le> f64 ?n" by (simp_all add: f64_nonneg)
  then show "0 \<le> as_secs_f64 d" unfolding as_secs_f64_def by (simp add: f64_nonneg)
  have "real d = ?s * 1000000000 + of_nat (d mod 1000000000)"
    by (metis of_nat_add of_nat_mult of_nat_numeral div_mult_mod_eq)
  then have d: "?s + ?n = of_nat d / 1000000000" by (simp add: field_simps)
  have "f64 ?s + f64 ?n \<le> ?s * ?c + ?n * ?c" by (intro add_mono f64_up) simp_all
  also have "\<dots> = (?s + ?n) * ?c" by (simp only: distrib_right)
  also have "\<dots> = of_nat d / 1000000000 * ?c" by (simp only: d)
  finally have "f64 ?s + f64 ?n \<le> of_nat d / 1000000000 * ?c" .
  then have "(f64 ?s + f64 ?n) * ?c \<le> of_nat d / 1000000000 * ?c * ?c" by (intro mult_right_mono) simp_all
  moreover have "as_secs_f64 d \<le> (f64 ?s + f64 ?n) * ?c"
    unfolding as_secs_f64_def by (rule f64_up) (use parts in simp)
  ultimately show "as_secs_f64 d \<le> of_nat d / 1000000000 * ?c ^ 2" by (simp add: power2_eq_square)
qed

section \<open>The pace\<close>

text \<open>
  The bounds of a bucket, and one step: a refill adds no more than the rate allows, up to the rounding
  of numbers below \<open>2 ^ 32\<close>, and a token taken is a token less.
\<close>

abbreviation burst_of :: "bucket \<Rightarrow> real" where
  "burst_of b \<equiv> of_nat (unat (ra_burst (bk_rate b)))"

abbreviation per_second_of :: "bucket \<Rightarrow> real" where
  "per_second_of b \<equiv> of_nat (unat (ra_per_second (bk_rate b)))"

definition bucket_ok :: "bucket \<Rightarrow> bool" where
  "bucket_ok b \<longleftrightarrow> 0 \<le> bk_tokens b \<and> bk_tokens b \<le> burst_of b"

lemma burst_bound: "burst_of b \<le> 2 ^ 32"
  using unat_word_bound [of "ra_burst (bk_rate b)"] by (simp del: of_nat_unat)

lemma rate_nonneg: "0 \<le> per_second_of b"
  by (simp del: of_nat_unat)

lemma small_growth: "0 \<le> (e :: real) \<Longrightarrow> e \<le> 1 \<Longrightarrow> (1 + e) ^ 4 \<le> 1 + 15 * e"
proof -
  assume e: "0 \<le> e" "e \<le> 1"
  then have p: "e ^ 2 \<le> e" "e ^ 3 \<le> e" "e ^ 4 \<le> e"
    using power_decreasing [of 1 _ e] by force+
  have "(1 + e) ^ 4 = 1 + 4 * e + 6 * e ^ 2 + 4 * e ^ 3 + e ^ 4"
    by (simp add: power2_eq_square power3_eq_cube power4_eq_xxxx algebra_simps)
  also have "\<dots> \<le> 1 + 15 * e" using p by linarith
  finally show ?thesis .
qed

lemma refill_bound:
  assumes "bucket_ok b" "b' = bucket_refill now b"
  shows "bucket_ok b' \<and> bk_rate b' = bk_rate b \<and> bk_at b' = now \<and>
    bk_tokens b' \<le> bk_tokens b + per_second_of b * (of_nat (now - bk_at b) / 1000000000) + 1 / 2 ^ 17"
proof -
  let ?t = "bk_tokens b" and ?B = "burst_of b" and ?r = "per_second_of b" and ?c = "1 + 1 / 2 ^ 53 :: real"
  define el where "el = (of_nat (now - bk_at b) / 1000000000 :: real)"
  define x where "x = f64 (as_secs_f64 (now - bk_at b) * ?r)"
  have t: "0 \<le> ?t" "?t \<le> ?B" "?B \<le> 2 ^ 32" using assms(1) burst_bound by (auto simp: bucket_ok_def)
  have el: "0 \<le> el" by (simp add: el_def)
  have s: "0 \<le> as_secs_f64 (now - bk_at b)" "as_secs_f64 (now - bk_at b) \<le> el * ?c ^ 2"
    using as_secs_up [of "now - bk_at b"] by (simp_all add: el_def)
  have x0: "0 \<le> x" unfolding x_def using s(1) rate_nonneg by (intro f64_nonneg mult_nonneg_nonneg)
  have "x \<le> as_secs_f64 (now - bk_at b) * ?r * ?c" unfolding x_def using s(1) rate_nonneg by (intro f64_up mult_nonneg_nonneg)
  also have "\<dots> \<le> el * ?c ^ 2 * ?r * ?c" using s(2) rate_nonneg
    by (intro mult_right_mono) simp_all
  finally have x1: "x \<le> el * ?r * ?c ^ 3" by (simp add: power2_eq_square power3_eq_cube mult_ac)
  have b': "bk_tokens b' = min (f64 (?t + x)) ?B" "bk_rate b' = bk_rate b" "bk_at b' = now"
    by (simp_all add: assms(2) bucket_refill_def Let_def x_def)
  have ok: "bucket_ok b'" using b' t x0 by (simp add: bucket_ok_def f64_nonneg)
  have "bk_tokens b' \<le> ?t + ?r * el + 1 / 2 ^ 17"
  proof (cases "?B \<le> ?t + ?r * el")
    case True
    then show ?thesis using b'(1) by simp
  next
    case False
    then have E: "0 \<le> ?r * el" "?r * el \<le> 2 ^ 32" "?t \<le> 2 ^ 32" using t el rate_nonneg [of b] by (simp_all del: of_nat_unat)
    have "f64 (?t + x) \<le> (?t + x) * ?c" using t(1) x0 by (intro f64_up) simp
    also have "\<dots> \<le> (?t + el * ?r * ?c ^ 3) * ?c" using x1 by (intro mult_right_mono) simp_all
    also have "\<dots> = ?t + ?t * (1 / 2 ^ 53) + ?r * el * ?c ^ 4"
      by (simp only: distrib_left distrib_right power3_eq_cube power4_eq_xxxx mult_ac mult_1)
    also have "\<dots> \<le> ?t + ?t * (1 / 2 ^ 53) + ?r * el * (1 + 15 * (1 / 2 ^ 53))"
      using E(1) small_growth [of "1 / 2 ^ 53"] by (intro add_left_mono mult_left_mono) simp_all
    also have "\<dots> = ?t + ?r * el + (?t + ?r * el * 15) / 2 ^ 53" by (simp add: field_simps)
    also have "\<dots> \<le> ?t + ?r * el + (2 ^ 32 + 2 ^ 32 * 15) / 2 ^ 53"
      using E by (intro add_left_mono divide_right_mono) (linarith, simp)
    finally show ?thesis using b'(1) by simp
  qed
  then show ?thesis using ok b' by (simp add: el_def)
qed

lemma take_bound:
  assumes "bucket_ok b" "bucket_has b"
  shows "bucket_ok (bucket_take b) \<and> bk_tokens (bucket_take b) \<le> bk_tokens b - 1 + 1 / 2 ^ 21"
proof -
  let ?x = "bk_tokens b - 1"
  have x: "0 \<le> ?x" "bk_tokens b \<le> burst_of b" "?x \<le> 2 ^ 32"
    using assms burst_bound [of b] by (auto simp: bucket_ok_def bucket_has_def simp del: of_nat_unat)
  have up: "f64 ?x \<le> ?x + ?x / 2 ^ 53" using f64_up [OF x(1)] by (simp add: field_simps)
  have "?x / 2 ^ 53 \<le> 2 ^ 32 / 2 ^ 53" using x(3) by (intro divide_right_mono) simp_all
  then have "?x / 2 ^ 53 \<le> 1 / 2 ^ 21" by simp
  then have "f64 ?x \<le> ?x + 1 / 2 ^ 21" using up by linarith
  moreover from this have "f64 ?x \<le> bk_tokens b" by simp
  ultimately show ?thesis using f64_nonneg [OF x(1)] x(2) by (simp add: bucket_ok_def bucket_take_def del: of_nat_unat)
qed

lemma paced_decide_bound:
  assumes "paced_decide lru dst now p = (v, p')" "bucket_ok (pa_connections p)"
  shows "bucket_ok (pa_connections p') \<and> bk_rate (pa_connections p') = bk_rate (pa_connections p) \<and>
    bk_at (pa_connections p') = now \<and>
    (if v = VerdictOpen then 1 else 0) + bk_tokens (pa_connections p') \<le>
      bk_tokens (pa_connections p) +
      per_second_of (pa_connections p) * (of_nat (now - bk_at (pa_connections p)) / 1000000000) + 1 / 2 ^ 16"
proof -
  let ?b = "bucket_refill now (pa_connections p)"
  have r: "bucket_ok ?b" "bk_rate ?b = bk_rate (pa_connections p)" "bk_at ?b = now"
    "bk_tokens ?b \<le> bk_tokens (pa_connections p) +
       per_second_of (pa_connections p) * (of_nat (now - bk_at (pa_connections p)) / 1000000000) + 1 / 2 ^ 17"
    using refill_bound [OF assms(2) refl, of now] by blast+
  consider "v = Wait" "pa_connections p' = ?b"
    | "v = VerdictOpen" "pa_connections p' = bucket_take ?b" "bucket_has ?b"
    using assms(1) by (auto simp: paced_decide_def Let_def split: prod.splits if_splits)
  then show ?thesis
  proof cases
    case 1
    then show ?thesis using r by simp
  next
    case 2
    then show ?thesis using r take_bound [OF r(1) 2(3)] by (simp add: bucket_take_def)
  qed
qed

definition earned :: "bucket \<Rightarrow> nat \<Rightarrow> real" where
  "earned b d = per_second_of b * (of_nat d / 1000000000)"

lemma earned_mono: "d \<le> e \<Longrightarrow> earned b d \<le> earned b e"
  unfolding earned_def using rate_nonneg [of b] by (intro mult_left_mono divide_right_mono) (auto simp del: of_nat_unat)

lemma earned_split: "a \<le> (b :: nat) \<Longrightarrow> b \<le> c \<Longrightarrow> earned k (b - a) + earned k (c - b) = earned k (c - a)"
  by (simp add: earned_def of_nat_diff field_simps del: of_nat_unat)

lemma admits_bound:
  assumes "ga_rate g = Some p" "bucket_ok (pa_connections p)" "sorted (bk_at (pa_connections p) # map snd syns)"
  shows "of_nat (opens (fst (admits lru syns g))) \<le> bk_tokens (pa_connections p) +
    earned (pa_connections p) (last (bk_at (pa_connections p) # map snd syns) - bk_at (pa_connections p)) +
    of_nat (length syns) / 2 ^ 16"
  using assms
proof (induction syns arbitrary: g p)
  case Nil
  then show ?case by (simp add: opens_def bucket_ok_def earned_def)
next
  case (Cons syn syns)
  obtain dst now where syn: "syn = (dst, now)" by (cases syn)
  let ?b = "pa_connections p"
  let ?at = "bk_at ?b" and ?fin = "last (now # map snd syns)"
  have s: "sorted (now # map snd syns)" "?at \<le> now" "now \<le> ?fin" "sorted (?at # map snd syns)"
    using Cons.prems(3) last_in_set [of "now # map snd syns"] by (auto simp: syn)
  obtain v g' where adm: "gate_admit lru dst now g = (v, g')" by fastforce
  define n where "n = (of_nat (opens (fst (admits lru syns g'))) :: real)"
  define v1 where "v1 = (if v = VerdictOpen then 1 else 0 :: real)"
  have shape: "of_nat (opens (fst (admits lru (syn # syns) g))) = v1 + n"
    "last (?at # map snd (syn # syns)) = ?fin"
    "(of_nat (length (syn # syns)) :: real) / 2 ^ 16 = of_nat (length syns) / 2 ^ 16 + 1 / 2 ^ 16"
    by (simp_all add: syn adm opens_def add_divide_distrib n_def v1_def split: prod.splits)
  have "v1 + n \<le> bk_tokens ?b + earned ?b (?fin - ?at) + (of_nat (length syns) / 2 ^ 16 + 1 / 2 ^ 16)"
  proof (cases "snd dst \<in> set (ga_deny_ports g)")
    case True
    then have g': "v = Refuse" "ga_rate g' = Some p"
      using adm Cons.prems(1) by (auto simp: gate_admit_def gate_decide_def)
    have "earned ?b (last (?at # map snd syns) - ?at) \<le> earned ?b (?fin - ?at)"
      using s by (intro earned_mono) auto
    then show ?thesis
      using Cons.IH [OF g'(2) Cons.prems(2) s(4)] g'(1) by (simp add: v1_def n_def)
  next
    case False
    then obtain p' where p': "paced_decide lru dst now p = (v, p')" "ga_rate g' = Some p'"
      using adm Cons.prems(1) by (auto simp: gate_admit_def gate_decide_def split: prod.splits)
    have b: "bucket_ok (pa_connections p')" "bk_rate (pa_connections p') = bk_rate ?b"
      "bk_at (pa_connections p') = now"
      "v1 + bk_tokens (pa_connections p') \<le> bk_tokens ?b + earned ?b (now - ?at) + 1 / 2 ^ 16"
      unfolding v1_def earned_def using paced_decide_bound [OF p'(1) Cons.prems(2)] by blast+
    have "earned (pa_connections p') = earned ?b" by (rule ext) (simp add: earned_def b(2))
    then have "n \<le> bk_tokens (pa_connections p') + earned ?b (?fin - now) + of_nat (length syns) / 2 ^ 16"
      using Cons.IH [OF p'(2) b(1)] b(3) s(1) by (simp add: n_def)
    then show ?thesis using b(4) earned_split [OF s(2,3), of ?b] by linarith
  qed
  then show ?case unfolding shape .
qed

lemma f64_one: "f64 1 = 1"
proof -
  have u: "(2 :: real) powr (of_int \<lfloor>log 2 \<bar>1\<bar>\<rfloor> - 52) = 1 / 4503599627370496"
    by (simp add: powr_minus powr_numeral divide_simps)
  show ?thesis unfolding f64_def Let_def u by (simp add: half_even_def)
qed

text \<open>
  C31. A guest with a pace of connections opens, up to any SYN it sends, at most the burst and what the rate
  has added since the start, whatever the destinations, the denied ports and the memory of destinations:
  the rounding of the floating point tokens adds at most one connection in 65536 SYNs.
\<close>

theorem opens_paced:
  assumes "pc_connection_rate config = Some rate" "sorted (t0 # map snd syns)"
  shows "of_nat (opens (fst (admits lru syns (gate_new lru config lg t0)))) \<le>
    (of_nat (unat (ra_burst (cr_connections rate))) :: real) +
    of_nat (unat (ra_per_second (cr_connections rate))) * (of_nat (last (t0 # map snd syns) - t0) / 1000000000) +
    of_nat (length syns) / 2 ^ 16"
proof -
  let ?g = "gate_new lru config lg t0"
  obtain p where p: "ga_rate ?g = Some p" "pa_connections p = bucket_new (cr_connections rate) t0"
    by (simp add: gate_new_def assms(1))
  have ok: "bucket_ok (pa_connections p)" by (simp add: p(2) bucket_ok_def bucket_new_def del: of_nat_unat)
  have "sorted (bk_at (pa_connections p) # map snd syns)" using assms(2) by (simp add: p(2) bucket_new_def)
  from admits_bound [OF p(1) ok this, of lru] show ?thesis
    by (simp add: p(2) bucket_new_def earned_def del: of_nat_unat)
qed

text \<open>A burst of one: the first SYN opens, the second of the same instant waits.\<close>

theorem opens_paced_witness:
  "let rate = \<lparr>cr_connections = \<lparr>ra_per_second = 1, ra_burst = 1\<rparr>, cr_destinations = \<lparr>ra_per_second = 1, ra_burst = 1\<rparr>\<rparr>;
       config = default_config\<lparr>pc_connection_rate := Some rate\<rparr>;
       lru = \<lparr>lru_get = \<lambda>d l. (None, l), lru_put = \<lambda>d t l. (), lru_new = \<lambda>n. ()\<rparr>;
       syns = [((Ipv4 1 1 1 1, 443), 0), ((Ipv4 1 1 1 1, 443), 0)]
   in pc_connection_rate config = Some rate \<and> sorted (0 # map snd syns) \<and>
      of_nat (opens (fst (admits lru syns (gate_new lru config None 0)))) \<le> (1 + 0 + 2 / 2 ^ 16 :: real) \<and>
      fst (admits lru syns (gate_new lru config None 0)) = [VerdictOpen, Wait]"
proof -
  let ?rate = "\<lparr>cr_connections = \<lparr>ra_per_second = 1, ra_burst = 1\<rparr>, cr_destinations = \<lparr>ra_per_second = 1, ra_burst = 1\<rparr>\<rparr>"
  let ?config = "default_config\<lparr>pc_connection_rate := Some ?rate\<rparr>"
  let ?lru = "\<lparr>lru_get = \<lambda>d l. (None, l), lru_put = \<lambda>d t l. (), lru_new = \<lambda>n. ()\<rparr>"
  let ?syns = "[((Ipv4 1 1 1 1, 443), 0), ((Ipv4 1 1 1 1, 443), 0)]"
  have "f64 0 = 0" by (simp add: f64_def)
  note zero = this and secs = as_secs_f64_def [of 0, simplified this, simplified]
  have ports: "pc_deny_ports ?config = []" by (simp add: default_config_def)
  have run: "fst (admits ?lru ?syns (gate_new ?lru ?config None 0)) = [VerdictOpen, Wait]"
    by (simp add: gate_admit_def gate_decide_def gate_new_def paced_decide_def bucket_refill_def bucket_new_def
        bucket_has_def bucket_take_def as_secs_f64_def zero f64_one ports Let_def default_config_def)
  have "of_nat (opens (fst (admits ?lru ?syns (gate_new ?lru ?config None 0)))) \<le> (1 + 0 + 2 / 2 ^ 16 :: real)"
    using opens_paced [of ?config ?rate 0 ?syns ?lru None] by simp
  then show ?thesis using run by (simp add: Let_def)
qed

section \<open>The record is complete\<close>

lemma told_by_line: "told_by (connection_line oc d ok) = [(op_dst oc, op_at oc)]"
  by (simp add: connection_line_def)

lemma told_by_turned: "concat (map told_by (turned_away_lines t)) = []"
  by (simp add: turned_away_lines_def)

lemma filter_out_key:
  assumes "distinct (map fst xs)" "map_of xs k = Some v"
  shows "mset xs = add_mset (k, v) (mset (filter (\<lambda>(i, _). i \<noteq> k) xs))"
  using assms
proof (induction xs)
  case (Cons x xs)
  obtain i w where x: "x = (i, w)" by (cases x)
  show ?case
  proof (cases "i = k")
    case True
    have "filter (\<lambda>(j, _). j \<noteq> k) xs = xs" using Cons.prems(1) True
      by (intro filter_True) (force simp: x)
    then show ?thesis using Cons.prems(2) True by (simp add: x)
  next
    case False
    then show ?thesis using Cons by (simp add: x)
  qed
qed simp

definition log_ok :: "egress_log \<Rightarrow> bool" where
  "log_ok lg \<longleftrightarrow> distinct (map fst (lg_open lg)) \<and> (\<forall>i \<in> fst ` set (lg_open lg). i < lg_next lg)"

definition lines_told :: "egress_log \<Rightarrow> (address \<times> nat) multiset" where
  "lines_told lg = mset (concat (map told_by (lg_out lg))) + mset (map conn_key (lg_open lg))"

lemma ended_told:
  assumes "log_ok lg"
  shows "log_ok (log_ended conn ok now lg) \<and> lines_told (log_ended conn ok now lg) = lines_told lg"
proof (cases "map_of (lg_open lg) conn")
  case None
  then show ?thesis using assms by (simp add: log_ended_def)
next
  case (Some oc)
  have "mset (lg_open lg) = add_mset (conn, oc) (mset (filter (\<lambda>(i, _). i \<noteq> conn) (lg_open lg)))"
    using assms Some by (intro filter_out_key) (simp_all add: log_ok_def)
  then have "image_mset conn_key (mset (lg_open lg)) =
      image_mset conn_key (add_mset (conn, oc) (mset (filter (\<lambda>(i, _). i \<noteq> conn) (lg_open lg))))"
    by (rule arg_cong)
  then have "lines_told (log_ended conn ok now lg) = lines_told lg"
    by (simp add: lines_told_def log_ended_def Some told_by_line conn_key_def)
  moreover have "log_ok (log_ended conn ok now lg)"
    using assms by (auto simp: log_ok_def log_ended_def Some distinct_map_filter)
  ultimately show ?thesis by simp
qed

lemma close_told: "lines_told (log_close wall now lg) = lines_told lg \<and> lg_open (log_close wall now lg) = []"
proof -
  have "concat (map told_by (map (\<lambda>(_, oc). connection_line oc (now - op_since oc) None) xs)) = map conn_key xs" for xs
    by (induction xs) (auto simp: told_by_line conn_key_def)
  then show ?thesis by (simp add: lines_told_def log_close_def told_by_turned)
qed

lemma tally_told:
  assumes "log_ok lg"
  shows "log_ok (log_tally conn t lg) \<and> lines_told (log_tally conn t lg) = lines_told lg"
proof -
  let ?f = "\<lambda>(i, oc). (i, if i = conn then oc\<lparr>op_tally := t\<rparr> else oc)"
  have f: "map fst (map ?f xs) = map fst xs" "map conn_key (map ?f xs) = map conn_key xs" for xs
    by (induction xs) (auto simp: conn_key_def)
  have lg: "lg_open (log_tally conn t lg) = map ?f (lg_open lg)" "lg_next (log_tally conn t lg) = lg_next lg"
    "lg_out (log_tally conn t lg) = lg_out lg" by (simp_all add: log_tally_def)
  have "fst ` set (map ?f (lg_open lg)) = fst ` set (lg_open lg)"
    using arg_cong [OF f(1) [of "lg_open lg"], of set] unfolding set_map .
  then have "log_ok (log_tally conn t lg)" using assms unfolding log_ok_def lg f(1) by blast
  then show ?thesis unfolding lines_told_def lg f(2) by blast
qed

lemma step_told:
  assumes "log_ok lg"
  shows "log_ok (log_step ev lg) \<and> lines_told (log_step ev lg) = lines_told lg + mset (opened_by ev)"
proof (cases ev)
  case (LogOpen dst t wall now)
  have "lg_next lg \<notin> fst ` set (lg_open lg)" using assms by (auto simp: log_ok_def)
  then show ?thesis using assms LogOpen
    by (auto simp: log_open_conn_def log_ok_def lines_told_def conn_key_def)
next
  case (LogTally conn t)
  then show ?thesis using tally_told [OF assms] by simp
next
  case (LogEnded conn ok now)
  then show ?thesis using ended_told [OF assms] by simp
next
  case (LogClose wall now)
  then show ?thesis using close_told [of wall now lg] by (simp add: log_ok_def)
qed (use assms in \<open>simp_all add: log_ok_def lines_told_def log_refused_def log_held_def log_report_def told_by_turned\<close>)

lemma fold_told:
  assumes "log_ok lg"
  shows "lines_told (fold log_step evs lg) = lines_told lg + mset (concat (map opened_by evs))"
  using assms by (induction evs arbitrary: lg) (simp_all add: step_told)

text \<open>
  C32. Whatever the tasks do to the log and in whatever order, closing it leaves exactly one connection line for
  every connection opened, with its destination and time: none is lost while it is open, and none is written
  twice by an end that comes after the close.
\<close>

theorem egress_log_complete:
  "mset (concat (map told_by (lg_out (log_close wall now (log_run start evs))))) = mset (concat (map opened_by evs))"
proof -
  have "lines_told (log_run start evs) = mset (concat (map opened_by evs))"
    unfolding log_run_def by (subst fold_told) (simp_all add: log_ok_def log_new_def lines_told_def)
  then have "lines_told (log_close wall now (log_run start evs)) = mset (concat (map opened_by evs))"
    using close_told [of wall now "log_run start evs"] by simp
  then show ?thesis unfolding lines_told_def using close_told [of wall now "log_run start evs"] by simp
qed

lemma refused_at_bump: "refused_at port (bump p counts) = refused_at port counts + (if p = port then 1 else 0)"
  by (induction p counts rule: bump.induct) (auto simp: refused_at_def)

text \<open>The refused and held SYNs told of in lines, with those still to be told.\<close>

definition refused_told :: "u16 \<Rightarrow> egress_log \<Rightarrow> nat" where
  "refused_told port lg = sum_list (map (line_refused port) (lg_out lg)) + refused_at port (tu_refused (lg_turned_away lg))"

definition held_told :: "egress_log \<Rightarrow> nat" where
  "held_told lg = sum_list (map line_held (lg_out lg)) + tu_held (lg_turned_away lg)"

lemma turned_lines:
  "sum_list (map (line_refused port) (turned_away_lines t)) = refused_at port (tu_refused t)"
  "sum_list (map line_held (turned_away_lines t)) = tu_held t"
  by (auto simp: turned_away_lines_def refused_at_def)

lemma connection_line_turned:
  "line_refused port (connection_line oc d ok) = 0"
  "line_held (connection_line oc d ok) = 0"
  by (simp_all add: connection_line_def)

lemma step_turned:
  "refused_told port (log_step ev lg) = refused_told port lg + (if ev = LogRefused port then 1 else 0)"
  "held_told (log_step ev lg) = held_told lg + (if ev = LogHeld then 1 else 0)"
  by (cases ev; simp add: refused_told_def held_told_def log_open_conn_def log_tally_def log_ended_def log_refused_def
      log_held_def log_report_def log_close_def turned_since_def turned_lines connection_line_turned refused_at_bump
      comp_def case_prod_beta refused_at_def [of _ "[]"] split: option.split)+

lemma fold_turned:
  "refused_told port (fold log_step evs lg) = refused_told port lg + length (filter (\<lambda>ev. ev = LogRefused port) evs)"
  "held_told (fold log_step evs lg) = held_told lg + length (filter (\<lambda>ev. ev = LogHeld) evs)"
  by (induction evs arbitrary: lg) (simp_all add: step_turned)

text \<open>
  The reports lose no SYN and count none twice: over the lines of a closed log, the SYNs refused at each port
  and the SYNs held back add up to those the gate turned away.
\<close>

theorem turned_away_accounted:
  "sum_list (map (line_refused port) (lg_out (log_close wall now (log_run start evs)))) =
     length (filter (\<lambda>ev. ev = LogRefused port) evs) \<and>
   sum_list (map line_held (lg_out (log_close wall now (log_run start evs)))) =
     length (filter (\<lambda>ev. ev = LogHeld) evs)"
proof -
  have "refused_told port (log_step (LogClose wall now) (log_run start evs)) = length (filter (\<lambda>ev. ev = LogRefused port) evs)"
    "held_told (log_step (LogClose wall now) (log_run start evs)) = length (filter (\<lambda>ev. ev = LogHeld) evs)"
    unfolding log_run_def step_turned fold_turned
    by (simp_all add: refused_told_def held_told_def log_new_def turned_since_def refused_at_def)
  then show ?thesis by (simp add: refused_told_def held_told_def log_close_def turned_since_def refused_at_def)
qed

end
