(* ===== verification/Proxy_Secrets.thy ===== *)
theory Proxy_Secrets
  imports Proxy_Config "HOL-Library.List_Lexorder" "HOL-Library.Char_ord"
begin

text \<open>
  The resolution of secret values, \<^verbatim>\<open>crates/shuru-proxy/src/secrets.rs\<close>: the cache of minted values
  with its refresh window and its pause after a failure, the update of the secrets of a running guest,
  and the substitutions for a domain.

  What lies outside the crate is the record \<^verbatim>\<open>host\<close>: the environment, the provider of the embedder,
  the run of a command, the JSON parser and the RFC 3339 parser. Times are in nanoseconds.
\<close>

section \<open>The host\<close>

definition seconds :: "nat \<Rightarrow> nat" where
  "seconds n = n * 1000000000"

definition COMMAND_REFRESH_WINDOW :: nat where "COMMAND_REFRESH_WINDOW = seconds 60"
definition PROVIDED_REFRESH_WINDOW :: nat where "PROVIDED_REFRESH_WINDOW = seconds 300"
definition RETRY_PAUSE :: nat where "RETRY_PAUSE = seconds 30"
definition PROVIDED_MAX_AGE :: nat where "PROVIDED_MAX_AGE = seconds 3600"
definition STDERR_LIMIT :: nat where "STDERR_LIMIT = 4096"

datatype secret_error =
    NoProvider
  | RefusedBy string
  | ProviderFails
  | EmptyValue
  | ControlCharacters
  | LastAttemptFailed nat
  | CommandEmpty
  | CommandTimedOut
  | CommandNotRun
  | CommandFailed string
  | NotJson
  | UnsupportedVersion nat
  | NotRfc3339
  | InThePast

text \<open>
  The outcome of \<^verbatim>\<open>Command::output\<close> under the timeout: it did not end in time, could not run, or exited,
  successfully or not, with its output.
\<close>

datatype run_outcome = TimesOut | CannotRun | Exits bool bytes string

record provided =
  pd_value :: string
  pd_expires_in :: "nat option"

record provider_output =
  po_version :: nat
  po_value :: string
  po_expires_at :: "string option"

text \<open>
  \<open>ho_remaining\<close> is the signed time from the wall clock to an RFC 3339 stamp, \<open>None\<close> for one that does
  not parse; \<open>ho_env\<close> is a variable that is set and valid UTF-8.
\<close>

record host =
  ho_env :: "string \<Rightarrow> string option"
  ho_provide :: "string \<Rightarrow> secret_error + provided"
  ho_run :: "string list \<Rightarrow> string option \<Rightarrow> run_outcome"
  ho_json :: "bytes \<Rightarrow> provider_output option"
  ho_remaining :: "string \<Rightarrow> int option"

section \<open>The cache\<close>

record cache_entry =
  ce_value :: string
  ce_expires_at :: "nat option"
  ce_window :: nat

record slot =
  sl_entry :: "cache_entry option"
  sl_failed_at :: "nat option"

definition empty_slot :: slot where
  "empty_slot = \<lparr>sl_entry = None, sl_failed_at = None\<rparr>"

definition cache_entry_new :: "string \<Rightarrow> nat \<Rightarrow> nat option \<Rightarrow> nat \<Rightarrow> cache_entry" where
  "cache_entry_new v now expires_at window =
     \<lparr>ce_value = v, ce_expires_at = expires_at,
      ce_window = (case expires_at of Some t \<Rightarrow> min window ((t - now) div 2) | None \<Rightarrow> window)\<rparr>"

definition is_fresh :: "cache_entry \<Rightarrow> nat \<Rightarrow> bool" where
  "is_fresh e now = (case ce_expires_at e of None \<Rightarrow> True | Some t \<Rightarrow> now + ce_window e < t)"

definition is_usable :: "cache_entry \<Rightarrow> nat \<Rightarrow> bool" where
  "is_usable e now = (case ce_expires_at e of None \<Rightarrow> True | Some t \<Rightarrow> now < t)"

record minted =
  mi_value :: string
  mi_expires_at :: "nat option"

text \<open>The entry that may be served though a mint failed.\<close>

definition usable_entry :: "slot \<Rightarrow> nat \<Rightarrow> cache_entry option" where
  "usable_entry s now =
     (case sl_entry s of Some e \<Rightarrow> if is_usable e now then Some e else None | None \<Rightarrow> None)"

definition is_refusal :: "secret_error \<Rightarrow> bool" where
  "is_refusal e = (case e of RefusedBy _ \<Rightarrow> True | _ \<Rightarrow> False)"

text \<open>
  \<^verbatim>\<open>cached\<close> runs with the lock of the slot held. It returns the result, the slot, and whether it called
  \<open>mint\<close>.
\<close>

definition cached ::
  "nat \<Rightarrow> nat \<Rightarrow> (nat \<Rightarrow> secret_error + minted) \<Rightarrow> slot \<Rightarrow> (secret_error + string) \<times> slot \<times> bool" where
  "cached now window mint s =
     (let fresh = (case sl_entry s of Some e \<Rightarrow> is_fresh e now | None \<Rightarrow> False);
          paused = (case sl_failed_at s of Some failed \<Rightarrow> now < failed + RETRY_PAUSE | None \<Rightarrow> False)
      in if fresh then (Inr (ce_value (the (sl_entry s))), s, False)
         else if paused then
           (case usable_entry s now of
              Some e \<Rightarrow> (Inr (ce_value e), s, False)
            | None \<Rightarrow> (Inl (LastAttemptFailed ((now - the (sl_failed_at s)) div seconds 1)), s, False))
         else
           case mint now of
             Inr m \<Rightarrow>
               (Inr (mi_value m),
                s\<lparr>sl_entry := Some (cache_entry_new (mi_value m) now (mi_expires_at m) window),
                  sl_failed_at := None\<rparr>, True)
           | Inl e \<Rightarrow>
               (let s = s\<lparr>sl_failed_at := Some now\<rparr>;
                    s = (if is_refusal e then s\<lparr>sl_entry := None\<rparr> else s)
                in case usable_entry s now of
                     Some entry \<Rightarrow> (Inr (ce_value entry), s, True)
                   | None \<Rightarrow> (Inl e, s, True)))"

section \<open>Minting\<close>

definition control_char :: "char \<Rightarrow> bool" where
  "control_char c \<longleftrightarrow> code_of c < 0x20 \<or> code_of c = 0x7f"

definition mint_provided :: "host \<Rightarrow> string \<Rightarrow> nat \<Rightarrow> secret_error + minted" where
  "mint_provided h name now =
     (case ho_provide h name of
        Inl e \<Rightarrow> Inl e
      | Inr p \<Rightarrow>
          if pd_value p = [] then Inl EmptyValue
          else if list_ex control_char (pd_value p) then Inl ControlCharacters
          else
            let lives = min (case pd_expires_in p of Some d \<Rightarrow> d | None \<Rightarrow> PROVIDED_MAX_AGE) PROVIDED_MAX_AGE
            in Inr \<lparr>mi_value = pd_value p, mi_expires_at = Some (now + lives)\<rparr>)"

text \<open>\<^verbatim>\<open>trim_end_matches\<close> of line ends, and \<^verbatim>\<open>trim\<close> of ASCII white space.\<close>

definition trim_line_end :: "string \<Rightarrow> string" where
  "trim_line_end s = rev (dropWhile (\<lambda>c. c = CHR 0x0A \<or> c = CHR 0x0D) (rev s))"

definition remaining_until :: "host \<Rightarrow> string \<Rightarrow> secret_error + nat" where
  "remaining_until h stamp =
     (case ho_remaining h stamp of
        None \<Rightarrow> Inl NotRfc3339
      | Some d \<Rightarrow> if d \<le> 0 then Inl InThePast else Inr (nat d))"

definition parse_provider_output :: "host \<Rightarrow> bytes \<Rightarrow> nat option \<Rightarrow> nat \<Rightarrow> secret_error + minted" where
  "parse_provider_output h stdout ttl now =
     (case ho_json h stdout of
        None \<Rightarrow> Inl NotJson
      | Some parsed \<Rightarrow>
          if po_version parsed \<noteq> 1 then Inl (UnsupportedVersion (po_version parsed))
          else
            let v = trim_line_end (po_value parsed)
            in if v = [] then Inl EmptyValue
               else
                 case po_expires_at parsed of
                   Some stamp \<Rightarrow>
                     (case remaining_until h stamp of
                        Inl e \<Rightarrow> Inl e
                      | Inr d \<Rightarrow> Inr \<lparr>mi_value = v, mi_expires_at = Some (now + d)\<rparr>)
                 | None \<Rightarrow> Inr \<lparr>mi_value = v, mi_expires_at = map_option ((+) now) ttl\<rparr>)"

text \<open>
  \<open>stderr\<close> is the text after \<^verbatim>\<open>from_utf8_lossy\<close> and \<^verbatim>\<open>trim\<close>, as its characters: the limit counts
  characters, not bytes.
\<close>

definition truncated_stderr :: "string \<Rightarrow> string" where
  "truncated_stderr text =
     (if text = [] then ''<no stderr>''
      else if STDERR_LIMIT < length text then take STDERR_LIMIT text @ ''...'' else text)"

definition run_provider ::
  "host \<Rightarrow> string list \<Rightarrow> nat option \<Rightarrow> string option \<Rightarrow> nat \<Rightarrow> secret_error + minted" where
  "run_provider h command ttl cwd now =
     (case command of
        [] \<Rightarrow> Inl CommandEmpty
      | _ # _ \<Rightarrow>
          (case ho_run h command cwd of
             TimesOut \<Rightarrow> Inl CommandTimedOut
           | CannotRun \<Rightarrow> Inl CommandNotRun
           | Exits success stdout stderr \<Rightarrow>
               if \<not> success then Inl (CommandFailed (truncated_stderr stderr))
               else parse_provider_output h stdout ttl now))"

section \<open>The resolver\<close>

record resolver =
  re_table :: "(string \<times> secret_config) list"
  re_placeholders :: "(string \<times> string) list"
  re_provider :: bool
  re_config_dir :: "string option"
  re_slots :: "string \<rightharpoonup> slot"

definition resolver_new :: "proxy_config \<Rightarrow> (string \<times> string) list \<Rightarrow> resolver" where
  "resolver_new config placeholders =
     \<lparr>re_table = pc_secrets config, re_placeholders = placeholders, re_provider = pc_provider config,
      re_config_dir = pc_config_dir config, re_slots = Map.empty\<rparr>"

definition resolver_update :: "(string \<times> secret_config) list \<Rightarrow> resolver \<Rightarrow> string list \<times> resolver" where
  "resolver_update secrets r =
     (let has = (\<lambda>name. map_of (re_placeholders r) name \<noteq> None);
          pending = sort (filter (\<lambda>name. \<not> has name) (map fst secrets));
          secrets = filter (\<lambda>(name, _). has name) secrets;
          keep = (\<lambda>name. case map_of secrets name of
                   Some new \<Rightarrow> \<not> sc_provided new \<and> map_of (re_table r) name = Some new
                 | None \<Rightarrow> False)
      in (pending,
          r\<lparr>re_slots := (\<lambda>name. if keep name then re_slots r name else None), re_table := secrets\<rparr>))"

definition slot_of :: "resolver \<Rightarrow> string \<Rightarrow> slot" where
  "slot_of r name = (case re_slots r name of Some s \<Rightarrow> s | None \<Rightarrow> empty_slot)"

definition with_slot ::
  "resolver \<Rightarrow> string \<Rightarrow> nat \<Rightarrow> nat \<Rightarrow> (nat \<Rightarrow> secret_error + minted) \<Rightarrow>
   (secret_error + string option) \<times> resolver" where
  "with_slot r name now window mint =
     (case cached now window mint (slot_of r name) of
        (res, s, _) \<Rightarrow>
          (case res of Inl e \<Rightarrow> Inl e | Inr v \<Rightarrow> Inr (Some v), r\<lparr>re_slots := (re_slots r)(name \<mapsto> s)\<rparr>))"

definition resolve ::
  "host \<Rightarrow> nat \<Rightarrow> string \<Rightarrow> secret_config \<Rightarrow> resolver \<Rightarrow> (secret_error + string option) \<times> resolver" where
  "resolve h now name secret r =
     (case sc_value secret of
        Some v \<Rightarrow> (Inr (Some v), r)
      | None \<Rightarrow>
          (case sc_from secret of
             Some var \<Rightarrow> (Inr (ho_env h var), r)
           | None \<Rightarrow>
               if sc_provided secret then
                 if \<not> re_provider r then (Inl NoProvider, r)
                 else with_slot r name now PROVIDED_REFRESH_WINDOW (mint_provided h name)
               else
                 case sc_command secret of
                   Some command \<Rightarrow>
                     with_slot r name now COMMAND_REFRESH_WINDOW
                       (run_provider h command (sc_ttl secret) (re_config_dir r))
                 | None \<Rightarrow> (Inr None, r)))"

record substitution =
  su_placeholder :: string
  su_value :: string
  su_scope :: scope

text \<open>The loop over the table; time may pass between two secrets, so each has its own instant.\<close>

fun substitutions_from ::
  "host \<Rightarrow> (nat \<Rightarrow> nat) \<Rightarrow> string \<Rightarrow> (string \<times> secret_config) list \<Rightarrow> resolver \<Rightarrow>
   (secret_error + substitution list) \<times> resolver" where
  "substitutions_from h clock domain [] r = (Inr [], r)"
| "substitutions_from h clock domain ((name, secret) # table) r =
     (if \<not> matches_domain secret domain then substitutions_from h clock domain table r
      else
        case map_of (re_placeholders r) name of
          None \<Rightarrow> substitutions_from h clock domain table r
        | Some placeholder \<Rightarrow>
            (case resolve h (clock (length table)) name secret r of
               (Inl e, r) \<Rightarrow> (Inl e, r)
             | (Inr None, r) \<Rightarrow> substitutions_from h clock domain table r
             | (Inr (Some v), r) \<Rightarrow>
                 (case substitutions_from h clock domain table r of
                    (Inl e, r) \<Rightarrow> (Inl e, r)
                  | (Inr subs, r) \<Rightarrow>
                      (Inr (\<lparr>su_placeholder = placeholder, su_value = v, su_scope = sc_scope secret\<rparr> # subs), r))))"

definition substitutions_for_domain ::
  "host \<Rightarrow> (nat \<Rightarrow> nat) \<Rightarrow> string \<Rightarrow> resolver \<Rightarrow> (secret_error + substitution list) \<times> resolver" where
  "substitutions_for_domain h clock domain r = substitutions_from h clock domain (re_table r) r"

section \<open>A slot over time\<close>

text \<open>
  The calls a slot serves one after another: each has its instant and what a mint would give then.
  \<open>serve\<close> returns the answers with whether a mint ran.
\<close>

type_synonym call = "nat \<times> (nat \<Rightarrow> secret_error + minted)"

fun serve :: "nat \<Rightarrow> call list \<Rightarrow> slot \<Rightarrow> ((secret_error + string) \<times> bool) list \<times> slot" where
  "serve window [] s = ([], s)"
| "serve window ((now, mint) # calls) s =
     (case cached now window mint s of
        (res, s, called) \<Rightarrow> (case serve window calls s of (rs, s) \<Rightarrow> ((res, called) # rs, s)))"

text \<open>An entry that one of some calls minted, and a value such a call minted that is live at an instant.\<close>

definition minted_by :: "call \<Rightarrow> cache_entry \<Rightarrow> bool" where
  "minted_by c e \<longleftrightarrow> snd c (fst c) = Inr \<lparr>mi_value = ce_value e, mi_expires_at = ce_expires_at e\<rparr>"

definition live_value :: "call list \<Rightarrow> nat \<Rightarrow> string \<Rightarrow> bool" where
  "live_value calls now v \<longleftrightarrow>
     (\<exists>c \<in> set calls. \<exists>m. snd c (fst c) = Inr m \<and> mi_value m = v \<and>
        (fst c = now \<or> (case mi_expires_at m of None \<Rightarrow> True | Some t \<Rightarrow> now < t)))"

lemma fresh_usable: "is_fresh e now \<Longrightarrow> is_usable e now"
  by (auto simp: is_fresh_def is_usable_def split: option.splits)

lemma cached_value:
  assumes "cached now window mint s = (r, s', called)"
  shows "\<forall>e. sl_entry s' = Some e \<longrightarrow> sl_entry s = Some e \<or> minted_by (now, mint) e"
    and "r = Inr v \<Longrightarrow> (\<exists>e. sl_entry s = Some e \<and> ce_value e = v \<and> is_usable e now) \<or>
           (\<exists>m. mint now = Inr m \<and> mi_value m = v)"
  using assms fresh_usable
  by (auto simp: cached_def Let_def usable_entry_def minted_by_def cache_entry_new_def
      split: if_splits option.splits sum.splits)

lemma serve_live:
  assumes "serve window calls s = (rs, s')" "\<forall>e. sl_entry s = Some e \<longrightarrow> (\<exists>c \<in> set before. minted_by c e)"
    and "i < length rs" "fst (rs ! i) = Inr v"
  shows "live_value (before @ take (Suc i) calls) (fst (calls ! i)) v"
  using assms
proof (induction calls arbitrary: s rs i before)
  case (Cons call calls)
  obtain now mint where call: "call = (now, mint)" by fastforce
  obtain r s1 called rs1 where c: "cached now window mint s = (r, s1, called)"
    and rest: "serve window calls s1 = (rs1, s')" and rs: "rs = (r, called) # rs1"
    using Cons.prems(1) by (auto simp: call split: prod.splits)
  show ?case
  proof (cases i)
    case 0
    then have "r = Inr v" using Cons.prems(4) rs by simp
    from cached_value(2) [OF c this] consider
        (kept) e where "sl_entry s = Some e" "ce_value e = v" "is_usable e now"
      | (new) m where "mint now = Inr m" "mi_value m = v" by blast
    then show ?thesis
    proof cases
      case kept
      then obtain b where "b \<in> set before" "minted_by b e" using Cons.prems(2) by blast
      then have "live_value before now v"
        using kept unfolding live_value_def minted_by_def is_usable_def
        by (intro bexI [of _ b] exI [of _ "\<lparr>mi_value = ce_value e, mi_expires_at = ce_expires_at e\<rparr>"]) simp_all
      then show ?thesis by (auto simp: 0 call live_value_def)
    next
      case new
      then show ?thesis unfolding live_value_def 0 call by (intro bexI [of _ "(now, mint)"]) auto
    qed
  next
    case (Suc j)
    have "\<forall>e. sl_entry s1 = Some e \<longrightarrow> (\<exists>c \<in> set (before @ [call]). minted_by c e)"
      using cached_value(1) [OF c] Cons.prems(2) by (auto simp: call)
    from Cons.IH [OF rest this, of j] Cons.prems(3,4) Suc rs show ?thesis by simp
  qed
qed simp

text \<open>
  C27. No secret is served past its life. Whatever a fresh slot serves, at whatever instants and with
  mints that succeed, fail or are refused, a value it answers was minted by one of the calls up to then
  and either just now or with an expiry that is still ahead.
\<close>

theorem served_secrets_live:
  assumes "serve window calls empty_slot = (rs, s)" "i < length rs" "fst (rs ! i) = Inr v"
  shows "live_value (take (Suc i) calls) (fst (calls ! i)) v"
  using serve_live [OF assms(1), of "[]" i v] assms(2,3) by (simp add: empty_slot_def)

definition sample_calls :: "call list" where
  "sample_calls =
     [(0, \<lambda>now. Inr \<lparr>mi_value = ''a'', mi_expires_at = Some (now + seconds 100)\<rparr>),
      (seconds 70, \<lambda>_. Inl ProviderFails), (seconds 80, \<lambda>_. Inl ProviderFails),
      (seconds 101, \<lambda>_. Inl ProviderFails)]"

lemma sample_serve:
  "serve COMMAND_REFRESH_WINDOW sample_calls empty_slot =
   ([(Inr ''a'', True), (Inr ''a'', True), (Inr ''a'', False), (Inl ProviderFails, True)],
    snd (serve COMMAND_REFRESH_WINDOW sample_calls empty_slot))"
  by (simp add: sample_calls_def cached_def empty_slot_def cache_entry_new_def is_fresh_def is_usable_def
      usable_entry_def is_refusal_def seconds_def COMMAND_REFRESH_WINDOW_def RETRY_PAUSE_def Let_def)

theorem served_secrets_live_witness:
  "live_value (take 3 sample_calls) (seconds 80) ''a''"
  using served_secrets_live [OF sample_serve, of 2 "''a''"] by (simp add: sample_calls_def)

lemma cached_paused:
  assumes "sl_failed_at s = Some t" "now < t + RETRY_PAUSE"
  shows "\<exists>r. cached now window mint s = (r, s, False) \<and> (isl r \<longleftrightarrow> usable_entry s now = None)"
proof (cases "sl_entry s")
  case None
  then show ?thesis using assms by (simp add: cached_def usable_entry_def)
next
  case (Some e)
  then show ?thesis
    using assms fresh_usable [of e now]
    by (cases "is_fresh e now"; cases "is_usable e now") (simp_all add: cached_def usable_entry_def)
qed

lemma serve_paused:
  "sl_failed_at s = Some t \<Longrightarrow> list_all (\<lambda>c. fst c < t + RETRY_PAUSE) calls \<Longrightarrow>
   serve window calls s = (rs, s') \<Longrightarrow>
   s' = s \<and> list_all (\<lambda>r. \<not> snd r) rs \<and>
   list_all2 (\<lambda>c r. isl (fst r) \<longleftrightarrow> usable_entry s (fst c) = None) calls rs"
proof (induction calls arbitrary: rs)
  case (Cons c calls)
  obtain now mint where c: "c = (now, mint)" by fastforce
  obtain r where r: "cached now window mint s = (r, s, False)" "isl r \<longleftrightarrow> usable_entry s now = None"
    using cached_paused [of s t now window mint] Cons.prems(1,2) by (auto simp: c)
  obtain rs1 where rest: "serve window calls s = (rs1, s')" and rs: "rs = (r, False) # rs1"
    using Cons.prems(3) r by (auto simp: c split: prod.splits)
  then show ?case using Cons.IH [OF Cons.prems(1) _ rest] Cons.prems(2) r by (simp add: c)
qed simp

text \<open>
  C26. A failed mint is not repeated for \<open>RETRY_PAUSE\<close>: of all the calls less than that after it none
  runs a mint, the slot stays as it is, and they all get a value exactly while the cached one lives.
\<close>

theorem failed_mint_pauses:
  assumes "cached now window mint s = (r, s1, True)" "mint now = Inl e"
    and "list_all (\<lambda>c. fst c < now + RETRY_PAUSE) calls" "serve window calls s1 = (rs, s2)"
  shows "s2 = s1 \<and> list_all (\<lambda>r. \<not> snd r) rs \<and>
    list_all2 (\<lambda>c r. isl (fst r) \<longleftrightarrow> usable_entry s1 (fst c) = None) calls rs"
proof -
  have "sl_failed_at s1 = Some now"
    using assms(1,2) by (auto simp: cached_def Let_def split: if_splits option.splits)
  then show ?thesis using serve_paused assms(3,4) by blast
qed

definition stale_slot :: slot where
  "stale_slot = \<lparr>sl_entry = Some (cache_entry_new ''a'' 0 (Some (seconds 100)) COMMAND_REFRESH_WINDOW),
                 sl_failed_at = None\<rparr>"

theorem failed_mint_pauses_witness:
  "\<exists>s1 rs. cached (seconds 90) COMMAND_REFRESH_WINDOW (\<lambda>_. Inl ProviderFails) stale_slot = (Inr ''a'', s1, True) \<and>
     serve COMMAND_REFRESH_WINDOW [(seconds 95, \<lambda>_. Inl ProviderFails), (seconds 119, \<lambda>_. Inl ProviderFails)] s1 = (rs, s1) \<and>
     list_all (\<lambda>r. \<not> snd r) rs"
proof -
  let ?mint = "\<lambda>_. Inl ProviderFails" and ?w = COMMAND_REFRESH_WINDOW
  let ?s1 = "stale_slot\<lparr>sl_failed_at := Some (seconds 90)\<rparr>"
  let ?calls = "[(seconds 95, ?mint), (seconds 119, ?mint)]"
  have c: "cached (seconds 90) ?w ?mint stale_slot = (Inr ''a'', ?s1, True)"
    by (simp add: cached_def stale_slot_def cache_entry_new_def is_fresh_def is_usable_def usable_entry_def
        is_refusal_def seconds_def COMMAND_REFRESH_WINDOW_def Let_def)
  have p: "list_all (\<lambda>c. fst c < seconds 90 + RETRY_PAUSE) ?calls"
    by (simp add: seconds_def RETRY_PAUSE_def)
  obtain rs s2 where r: "serve ?w ?calls ?s1 = (rs, s2)" by fastforce
  from failed_mint_pauses [OF c refl p r] c r show ?thesis by auto
qed

text \<open>
  A refusal takes a secret away at once: the call that was refused fails, and whatever is served
  afterwards was minted after the refusal.
\<close>

theorem refusal_forgets_secret:
  assumes "cached now window mint s = (r, s1, True)" "mint now = Inl (RefusedBy why)"
    and "serve window calls s1 = (rs, s2)" "i < length rs" "fst (rs ! i) = Inr v"
  shows "r = Inl (RefusedBy why) \<and> live_value (take (Suc i) calls) (fst (calls ! i)) v"
proof -
  have "sl_entry s1 = None" "r = Inl (RefusedBy why)"
    using assms(1,2)
    by (auto simp: cached_def Let_def is_refusal_def usable_entry_def split: if_splits option.splits)
  then show ?thesis using serve_live [OF assms(3), of "[]" i v] assms(4,5) by simp
qed

definition later_call :: call where
  "later_call = (seconds 200, \<lambda>_. Inr \<lparr>mi_value = ''b'', mi_expires_at = None\<rparr>)"

theorem refusal_forgets_secret_witness:
  "\<exists>s1 s2. cached (seconds 90) COMMAND_REFRESH_WINDOW (\<lambda>_. Inl (RefusedBy ''gone'')) stale_slot =
       (Inl (RefusedBy ''gone''), s1, True) \<and>
     serve COMMAND_REFRESH_WINDOW [later_call] s1 = ([(Inr ''b'', True)], s2) \<and>
     live_value [later_call] (seconds 200) ''b''"
proof -
  let ?mint = "\<lambda>_. Inl (RefusedBy ''gone'')" and ?w = COMMAND_REFRESH_WINDOW
  let ?s1 = "\<lparr>sl_entry = None, sl_failed_at = Some (seconds 90)\<rparr>"
  have c: "cached (seconds 90) ?w ?mint stale_slot = (Inl (RefusedBy ''gone''), ?s1, True)"
    by (simp add: cached_def stale_slot_def cache_entry_new_def is_fresh_def is_usable_def usable_entry_def
        is_refusal_def seconds_def COMMAND_REFRESH_WINDOW_def Let_def)
  obtain s2 where r: "serve ?w [later_call] ?s1 = ([(Inr ''b'', True)], s2)"
    by (simp add: cached_def usable_entry_def seconds_def RETRY_PAUSE_def Let_def later_call_def)
  have "fst ([(Inr ''b'' :: secret_error + string, True)] ! 0) = Inr ''b''" by simp
  from refusal_forgets_secret [OF c refl r _ this]
  have "live_value [later_call] (seconds 200) ''b''" by (simp add: later_call_def)
  with c r show ?thesis by blast
qed

section \<open>The resolver over a domain\<close>

lemma with_slot_fields:
  "with_slot r name now window mint = (res, r') \<Longrightarrow>
   re_table r' = re_table r \<and> re_placeholders r' = re_placeholders r"
  by (auto simp: with_slot_def split: prod.splits)

lemma resolve_fields:
  "resolve h now name secret r = (res, r') \<Longrightarrow>
   re_table r' = re_table r \<and> re_placeholders r' = re_placeholders r"
  by (auto simp: resolve_def split: option.splits if_splits dest: with_slot_fields)

definition bound_to ::
  "string \<Rightarrow> (string \<times> secret_config) list \<Rightarrow> (string \<times> string) list \<Rightarrow> substitution \<Rightarrow> bool" where
  "bound_to domain table placeholders sub \<longleftrightarrow>
     (\<exists>name secret. (name, secret) \<in> set table \<and> matches_domain secret domain \<and>
        map_of placeholders name = Some (su_placeholder sub) \<and> su_scope sub = sc_scope secret)"

lemma bound_to_Cons: "bound_to domain table ps sub \<Longrightarrow> bound_to domain (entry # table) ps sub"
  unfolding bound_to_def by (meson list.set_intros(2))

lemma substitutions_from_bound:
  "substitutions_from h clock domain table r = (Inr subs, r') \<Longrightarrow>
   list_all (bound_to domain table (re_placeholders r)) subs"
proof (induction table arbitrary: r subs r')
  case (Cons entry table)
  obtain name secret where entry: "entry = (name, secret)" by fastforce
  have later: "list_all (bound_to domain (entry # table) (re_placeholders r)) subs'"
    if "substitutions_from h clock domain table r1 = (Inr subs', r')" "re_placeholders r1 = re_placeholders r"
    for r1 subs'
    using Cons.IH [OF that(1)] that(2) by (auto simp: list_all_iff intro: bound_to_Cons)
  show ?case
  proof (cases "matches_domain secret domain \<and> map_of (re_placeholders r) name \<noteq> None")
    case False
    then have "substitutions_from h clock domain table r = (Inr subs, r')"
      using Cons.prems by (auto simp: entry split: if_splits)
    then show ?thesis by (rule later) simp
  next
    case True
    then obtain placeholder where p: "map_of (re_placeholders r) name = Some placeholder" by blast
    obtain res r1 where res: "resolve h (clock (length table)) name secret r = (res, r1)" by fastforce
    note same = conjunct2 [OF resolve_fields [OF res]]
    show ?thesis
    proof (cases res)
      case (Inl e)
      then show ?thesis using Cons.prems True p res by (simp add: entry)
    next
      case (Inr v)
      show ?thesis
      proof (cases v)
        case None
        then have "substitutions_from h clock domain table r1 = (Inr subs, r')"
          using Cons.prems True p res Inr by (simp add: entry)
        then show ?thesis using same by (rule later)
      next
        case (Some v')
        then obtain subs' where s: "substitutions_from h clock domain table r1 = (Inr subs', r')"
          and subs: "subs = \<lparr>su_placeholder = placeholder, su_value = v', su_scope = sc_scope secret\<rparr> # subs'"
          using Cons.prems True p res Inr by (auto simp: entry split: prod.splits sum.splits)
        have "bound_to domain (entry # table) (re_placeholders r)
            \<lparr>su_placeholder = placeholder, su_value = v', su_scope = sc_scope secret\<rparr>"
          using True p by (auto simp: bound_to_def entry)
        then show ?thesis using later [OF s same] by (simp add: subs)
      qed
    qed
  qed
qed simp


definition bare_host :: host where
  "bare_host = \<lparr>ho_env = (\<lambda>_. None), ho_provide = (\<lambda>_. Inl ProviderFails), ho_run = (\<lambda>_ _. CannotRun),
                ho_json = (\<lambda>_. None), ho_remaining = (\<lambda>_. None)\<rparr>"

definition sample_secrets :: resolver where
  "sample_secrets = resolver_new
     (default_config\<lparr>pc_secrets := [(''KEY'', default_secret\<lparr>sc_value := Some ''s3'', sc_hosts := [''*.x.io'']\<rparr>),
                                   (''OTHER'', default_secret\<lparr>sc_value := Some ''s4'', sc_hosts := [''y.io'']\<rparr>)]\<rparr>)
     [(''KEY'', ''tok1''), (''OTHER'', ''tok2'')]"

lemma sample_substitutions:
  "substitutions_for_domain bare_host id ''api.x.io'' sample_secrets =
   (Inr [\<lparr>su_placeholder = ''tok1'', su_value = ''s3'', su_scope = ScopeHead\<rparr>], sample_secrets)"
  by (simp add: substitutions_for_domain_def sample_secrets_def resolver_new_def default_config_def
      default_secret_def matches_domain_def domain_matches_def strip_prefix_def suffix_def resolve_def)


text \<open>
  C29. Replacing the secrets of a running guest leaves no trace of the old ones: the table holds exactly
  the new secrets the guest has a placeholder for, the other names are returned in order, and a cached
  value survives only for a secret that is unchanged and not provided.
\<close>

theorem update_replaces_secrets:
  assumes "resolver_update secrets r = (pending, r')"
  shows "re_table r' = filter (\<lambda>(name, _). map_of (re_placeholders r) name \<noteq> None) secrets \<and>
    sorted pending \<and> set pending = {name \<in> fst ` set secrets. map_of (re_placeholders r) name = None} \<and>
    (\<forall>name s. re_slots r' name = Some s \<longrightarrow>
       re_slots r name = Some s \<and>
       (\<exists>secret. map_of (re_table r) name = Some secret \<and> map_of (re_table r') name = Some secret \<and>
          \<not> sc_provided secret))"
proof -
  have pending: "pending = sort (filter (\<lambda>name. map_of (re_placeholders r) name = None) (map fst secrets))"
    and table: "re_table r' = filter (\<lambda>(name, _). map_of (re_placeholders r) name \<noteq> None) secrets"
    using assms by (auto simp: resolver_update_def Let_def)
  have "\<forall>name s. re_slots r' name = Some s \<longrightarrow>
       re_slots r name = Some s \<and>
       (\<exists>secret. map_of (re_table r) name = Some secret \<and> map_of (re_table r') name = Some secret \<and>
          \<not> sc_provided secret)"
    using assms by (auto simp: resolver_update_def Let_def split: if_splits option.splits)
  moreover have "set pending = {name \<in> fst ` set secrets. map_of (re_placeholders r) name = None}"
    unfolding pending set_sort set_filter set_map by simp
  ultimately show ?thesis using table pending by simp
qed

theorem update_replaces_secrets_witness:
  "\<exists>pending r'. resolver_update [(''NEW'', default_secret)] sample_secrets = (pending, r') \<and>
     re_table r' = [] \<and> set pending = {''NEW''}"
proof -
  obtain pending r' where u: "resolver_update [(''NEW'', default_secret)] sample_secrets = (pending, r')"
    by fastforce
  have "map_of (re_placeholders sample_secrets) ''NEW'' = None"
    by (simp add: sample_secrets_def resolver_new_def)
  with update_replaces_secrets [OF u] u show ?thesis by auto
qed

end
