(* ===== verification/Proxy_Substitute.thy ===== *)
theory Proxy_Substitute
  imports Proxy_Secrets "HOL-Library.Monad_Syntax"
begin

text \<open>
  The rewriting of the request stream from the guest, \<^verbatim>\<open>crates/shuru-proxy/src/substitute.rs\<close>: heads are
  found, held and rewritten, bodies are followed to their end and forwarded as they are, and anything
  ambiguous becomes a plain tunnel.

  The HTTP parser and the base64 codec are third-party crates, the record \<open>codecs\<close>: a parse gives the
  method and the headers of a complete request with at most 96 headers.
\<close>

definition MAX_HEAD :: nat where "MAX_HEAD = 64 * 1024"
definition MAX_CHUNK_LINE :: nat where "MAX_CHUNK_LINE = 4096"
definition HEAD_END :: bytes where "HEAD_END = [13, 10, 13, 10]"

record codecs =
  co_parse :: "bytes \<Rightarrow> (string \<times> (string \<times> bytes) list) option"
  co_decode :: "bytes \<Rightarrow> bytes option"
  co_encode :: "bytes \<Rightarrow> bytes"

section \<open>Replacing bytes\<close>

type_synonym pairs = "(bytes \<times> bytes) list"

text \<open>The loop of \<^verbatim>\<open>replace_bytes\<close> over what is left of the data; \<open>from\<close> is not empty.\<close>

function replace_loop :: "bytes \<Rightarrow> bytes \<Rightarrow> bytes \<Rightarrow> bytes" where
  "replace_loop pat to data =
     (if pat = [] \<or> length data < length pat then data
      else if take (length pat) data = pat then to @ replace_loop pat to (drop (length pat) data)
      else hd data # replace_loop pat to (tl data))"
  by pat_completeness auto
termination
proof (relation "measure (\<lambda>(pat, to, data). length data)", goal_cases)
  case (2 pat to data)
  then show ?case by (cases pat) (auto simp: not_less)
next
  case (3 pat to data)
  then show ?case by (cases pat; cases data) auto
qed simp

declare replace_loop.simps [simp del]

definition replace_bytes :: "bytes \<Rightarrow> bytes \<Rightarrow> bytes \<Rightarrow> bytes" where
  "replace_bytes data pat to =
     (if pat = [] \<or> length data < length pat then data else replace_loop pat to data)"

definition replace_all :: "pairs \<Rightarrow> bytes \<Rightarrow> bytes" where
  "replace_all ps data = fold (\<lambda>(pat, to) out. replace_bytes out pat to) ps data"

text \<open>\<^verbatim>\<open>windows(n).position(..)\<close>: where a pattern first occurs.\<close>

fun find_sub :: "bytes \<Rightarrow> bytes \<Rightarrow> nat option" where
  "find_sub pat [] = (if pat = [] then Some 0 else None)"
| "find_sub pat (b # bs) =
     (if length pat \<le> Suc (length bs) \<and> take (length pat) (b # bs) = pat then Some 0
      else map_option Suc (find_sub pat bs))"

section \<open>Body framing\<close>

datatype chunked = ChunkSize bytes | ChunkData nat | DataEnd | Trailer bytes

datatype body = Exact nat | Chunked chunked

datatype stream_state = StateHead | StateBody body | StateTunnel

datatype framing = FramingNone | FramingExact nat | FramingChunked | Ambiguous

definition is_hex :: "byte \<Rightarrow> bool" where
  "is_hex b \<longleftrightarrow> (48 \<le> b \<and> b \<le> 57) \<or> (65 \<le> b \<and> b \<le> 70) \<or> (97 \<le> b \<and> b \<le> 102)"

definition hex_digit :: "byte \<Rightarrow> nat" where
  "hex_digit b = (if b \<le> 57 then unat b - 48 else if b \<le> 70 then unat b - 55 else unat b - 87)"

definition hex_value :: "bytes \<Rightarrow> nat" where
  "hex_value ds = foldl (\<lambda>v d. 16 * v + hex_digit d) 0 ds"

definition blank :: "byte \<Rightarrow> bool" where
  "blank b \<longleftrightarrow> b = 32 \<or> b = 9"

definition parse_chunk_size :: "bytes \<Rightarrow> nat option" where
  "parse_chunk_size line =
     (let digits = takeWhile is_hex (dropWhile blank line)
      in if digits = [] then None
         else if hex_value digits < 2 ^ 64 then Some (hex_value digits) else None)"

text \<open>
  \<^verbatim>\<open>consume\<close> returns how many bytes it took, whether the body ended within them, and the state. \<open>took\<close> adds
  the bytes of the rounds before.
\<close>

definition took :: "nat \<Rightarrow> nat \<times> bool \<times> chunked \<Rightarrow> nat \<times> bool \<times> chunked" where
  "took k r = (k + fst r, snd r)"

definition is_line_end :: "byte \<Rightarrow> bool" where
  "is_line_end b \<longleftrightarrow> b = 10"

definition blank_line :: "bytes \<Rightarrow> bool" where
  "blank_line line = list_all (\<lambda>b. b = 13 \<or> b = 10 \<or> b = 32 \<or> b = 9) line"

function chunked_consume :: "chunked \<Rightarrow> bytes \<Rightarrow> nat \<times> bool \<times> chunked" where
  "chunked_consume c data =
     (if data = [] then (0, False, c)
      else
        case c of
          ChunkSize line \<Rightarrow>
            (case position is_line_end data of
               Some i \<Rightarrow>
                 (case parse_chunk_size (line @ take (i + 1) data) of
                    Some n \<Rightarrow>
                      took (i + 1)
                        (chunked_consume (if n = 0 then Trailer [] else ChunkData n) (drop (i + 1) data))
                  | None \<Rightarrow> (i + 1, False, ChunkSize []))
             | None \<Rightarrow>
                 if MAX_CHUNK_LINE < length line + length data then (0, False, ChunkSize line)
                 else (length data, False, ChunkSize (line @ data)))
        | ChunkData n \<Rightarrow>
            (let k = min n (length data)
             in took k (chunked_consume (if n - k = 0 then DataEnd else ChunkData (n - k)) (drop k data)))
        | DataEnd \<Rightarrow>
            took 1 (chunked_consume (if hd data = 10 then ChunkSize [] else DataEnd) (tl data))
        | Trailer line \<Rightarrow>
            (case position is_line_end data of
               Some i \<Rightarrow>
                 if blank_line (line @ take (i + 1) data) then (i + 1, True, Trailer [])
                 else took (i + 1) (chunked_consume (Trailer []) (drop (i + 1) data))
             | None \<Rightarrow>
                 if MAX_CHUNK_LINE < length line + length data then (0, False, Trailer line)
                 else (length data, False, Trailer (line @ data))))"
  by pat_completeness auto
termination
  by (relation "measure (\<lambda>(c, data). 2 * length data + (case c of ChunkData _ \<Rightarrow> 1 | _ \<Rightarrow> 0))")
    (auto dest: position_SomeD simp: neq_Nil_conv)

declare chunked_consume.simps [simp del]

fun body_consume :: "body \<Rightarrow> bytes \<Rightarrow> nat \<times> bool \<times> body" where
  "body_consume (Exact n) data =
     (let k = min n (length data) in (k, n - k = 0, Exact (n - k)))"
| "body_consume (Chunked c) data =
     (case chunked_consume c data of (k, finished, c) \<Rightarrow> (k, finished, Chunked c))"

section \<open>Heads\<close>

text \<open>\<open>probe\<close> holds the end of what came before and the start of the new bytes.\<close>

definition head_end :: "bytes \<Rightarrow> bytes \<Rightarrow> nat option" where
  "head_end prev hay =
     (let n = length HEAD_END;
          back = min (length prev) (n - 1);
          probe = drop (length prev - back) prev @ take (min (length hay) (n - 1)) hay
      in case find (\<lambda>start. start + n \<le> length probe \<and> take n (drop start probe) = HEAD_END) [0..<back] of
           Some start \<Rightarrow> Some (start + n - back)
         | None \<Rightarrow> map_option (\<lambda>i. i + n) (find_sub HEAD_END hay))"

text \<open>\<^verbatim>\<open>rsplit(',').next()\<close>: what follows the last comma.\<close>

definition last_coding :: "bytes \<Rightarrow> bytes" where
  "last_coding v = rev (takeWhile (\<lambda>b. b \<noteq> 44) (rev v))"

text \<open>
  The headers one after another. An invalid byte of a \<^verbatim>\<open>Transfer-Encoding\<close> is replaced by
  \<^verbatim>\<open>from_utf8_lossy\<close>; it is left as it is here, since either way the value is not \<^verbatim>\<open>chunked\<close>.
\<close>

record headers_seen =
  hs_content_length :: "nat option"
  hs_conflicting_length :: bool
  hs_chunked :: bool
  hs_transfer_encoding :: bool
  hs_upgrade :: bool

definition no_headers :: headers_seen where
  "no_headers = \<lparr>hs_content_length = None, hs_conflicting_length = False, hs_chunked = False,
                 hs_transfer_encoding = False, hs_upgrade = False\<rparr>"

definition content_length :: "bytes \<Rightarrow> nat option" where
  "content_length v = (if utf8_valid v then parse_unsigned (2 ^ 64) (text_of (trim v)) else None)"

definition see_header :: "string \<times> bytes \<Rightarrow> headers_seen \<Rightarrow> headers_seen" where
  "see_header header seen =
     (let name = ascii (fst header); v = snd header
      in if eq_ignore_case name (ascii ''transfer-encoding'') then
           seen\<lparr>hs_transfer_encoding := True,
                hs_chunked := (trim (last_coding (map lower v)) = ascii ''chunked'')\<rparr>
         else if eq_ignore_case name (ascii ''content-length'') then
           (case content_length v of
              None \<Rightarrow> seen\<lparr>hs_conflicting_length := True\<rparr>
            | Some n \<Rightarrow>
                (case hs_content_length seen of
                   Some m \<Rightarrow> if n \<noteq> m then seen\<lparr>hs_conflicting_length := True\<rparr>
                             else seen\<lparr>hs_content_length := Some n\<rparr>
                 | None \<Rightarrow> seen\<lparr>hs_content_length := Some n\<rparr>))
         else if eq_ignore_case name (ascii ''upgrade'') then seen\<lparr>hs_upgrade := True\<rparr>
         else seen)"

definition classify :: "codecs \<Rightarrow> bytes \<Rightarrow> framing" where
  "classify co head =
     (case co_parse co head of
        None \<Rightarrow> Ambiguous
      | Some (meth, headers) \<Rightarrow>
          if eq_ignore_case (ascii meth) (ascii ''CONNECT'') then Ambiguous
          else
            let seen = fold see_header headers no_headers
            in if hs_upgrade seen \<or> hs_conflicting_length seen then Ambiguous
               else if hs_transfer_encoding seen then
                 if hs_content_length seen \<noteq> None \<or> \<not> hs_chunked seen then Ambiguous else FramingChunked
               else
                 case hs_content_length seen of
                   None \<Rightarrow> FramingNone
                 | Some n \<Rightarrow> if n = 0 then FramingNone else FramingExact n)"

section \<open>Authorization headers\<close>

definition basic :: "codecs \<Rightarrow> bytes \<Rightarrow> pairs \<Rightarrow> bytes option" where
  "basic co v ps =
     do { start \<leftarrow> position (\<lambda>b. \<not> blank b) v;
          scheme \<leftarrow> (if start + 6 \<le> length v then Some (take 6 (drop start v)) else None);
          (if \<not> eq_ignore_case (take 5 scheme) (ascii ''basic'') \<or> \<not> blank (scheme ! 5) then None
           else do {
             k \<leftarrow> position (\<lambda>b. \<not> blank b) (drop (start + 5) v);
             j \<leftarrow> position (\<lambda>b. \<not> (blank b \<or> b = 13 \<or> b = 10)) (rev v);
             let token_start = start + 5 + k;
             let token_end = length v - j;
             (if token_end \<le> token_start then None
              else do {
                decoded \<leftarrow> co_decode co (take (token_end - token_start) (drop token_start v));
                let swapped = replace_all ps decoded;
                (if swapped = decoded then None
                 else Some (take token_start v @ co_encode co swapped @ drop token_end v)) }) }) }"

definition is_authorization :: "bytes \<Rightarrow> bool" where
  "is_authorization line =
     (case position (\<lambda>b. b = 58) line of
        None \<Rightarrow> False
      | Some colon \<Rightarrow> eq_ignore_case (take colon line) (ascii ''authorization''))"

definition authorization_line :: "codecs \<Rightarrow> bytes \<Rightarrow> pairs \<Rightarrow> pairs \<Rightarrow> bytes option" where
  "authorization_line co line authorization ps =
     (case position (\<lambda>b. b = 58) line of
        None \<Rightarrow> None
      | Some colon \<Rightarrow>
          if \<not> eq_ignore_case (take colon line) (ascii ''authorization'') then None
          else
            let given = drop (colon + 1) line;
                v = replace_all authorization given;
                v = (case basic co v (authorization @ ps) of Some swapped \<Rightarrow> swapped | None \<Rightarrow> v)
            in if v = given then None else Some (take (colon + 1) line @ v))"

text \<open>The lines of a head, each with its line end.\<close>

function head_lines :: "bytes \<Rightarrow> bytes list" where
  "head_lines rest =
     (if rest = [] then []
      else
        let k = (case find_sub [13, 10] rest of Some i \<Rightarrow> i + 2 | None \<Rightarrow> length rest)
        in take k rest # head_lines (drop k rest))"
  by pat_completeness auto
termination
  by (relation "measure length") (auto split: option.splits)

declare head_lines.simps [simp del]

definition substitute_authorization :: "codecs \<Rightarrow> bytes \<Rightarrow> pairs \<Rightarrow> pairs \<Rightarrow> bytes option" where
  "substitute_authorization co head authorization ps =
     (let rewritten = map (\<lambda>line. (line, authorization_line co line authorization ps)) (head_lines head)
      in if list_ex (\<lambda>(_, r). r \<noteq> None) rewritten
         then Some (concat (map (\<lambda>(line, r). case r of Some l \<Rightarrow> l | None \<Rightarrow> line) rewritten))
         else None)"

section \<open>The request stream\<close>

record request_stream =
  rs_pairs :: pairs
  rs_authorization :: pairs
  rs_state :: stream_state
  rs_head :: bytes
  rs_held :: "bytes option"

definition split_pairs :: "substitution list \<Rightarrow> pairs \<times> pairs" where
  "split_pairs subs =
     (let pair = (\<lambda>s. (ascii (su_placeholder s), ascii (su_value s)))
      in (map pair (filter (\<lambda>s. su_scope s = ScopeHead) subs),
          map pair (filter (\<lambda>s. su_scope s = ScopeAuthorization) subs)))"

definition request_stream_new :: "substitution list \<Rightarrow> request_stream" where
  "request_stream_new subs =
     \<lparr>rs_pairs = fst (split_pairs subs), rs_authorization = snd (split_pairs subs),
      rs_state = StateHead, rs_head = [], rs_held = None\<rparr>"

definition stream_update :: "substitution list \<Rightarrow> request_stream \<Rightarrow> request_stream" where
  "stream_update subs s = s\<lparr>rs_pairs := fst (split_pairs subs), rs_authorization := snd (split_pairs subs)\<rparr>"

text \<open>The loop of \<^verbatim>\<open>advance\<close> over what is left of the chunk.\<close>

function advance :: "request_stream \<Rightarrow> bytes \<Rightarrow> bytes \<times> nat \<times> request_stream" where
  "advance s rest =
     (if rest = [] \<or> rs_held s \<noteq> None then ([], 0, s)
      else
        case rs_state s of
          StateTunnel \<Rightarrow> (rest, length rest, s)
        | StateBody b \<Rightarrow>
            (case body_consume b rest of
               (k, finished, b) \<Rightarrow>
                 let st = (if finished then StateHead else if k = 0 then StateTunnel else StateBody b);
                     (out, n, s') = advance (s\<lparr>rs_state := st\<rparr>) (drop k rest)
                 in (take k rest @ out, k + n, s'))
        | StateHead \<Rightarrow>
            (case head_end (rs_head s) rest of
               Some e \<Rightarrow>
                 ([], e, s\<lparr>rs_held := Some (rs_head s @ take e rest), rs_head := []\<rparr>)
             | None \<Rightarrow>
                 if MAX_HEAD < length (rs_head s @ rest)
                 then (rs_head s @ rest, length rest, s\<lparr>rs_head := [], rs_state := StateTunnel\<rparr>)
                 else ([], length rest, s\<lparr>rs_head := rs_head s @ rest\<rparr>)))"
  by pat_completeness auto
termination
  by (relation "measure (\<lambda>(s, rest). 2 * length rest + (case rs_state s of StateBody _ \<Rightarrow> 1 | _ \<Rightarrow> 0))")
    (auto split: if_splits)

declare advance.simps [simp del]

definition has_head :: "request_stream \<Rightarrow> bool" where
  "has_head s \<longleftrightarrow> rs_held s \<noteq> None"

definition rewrite_head :: "codecs \<Rightarrow> pairs \<Rightarrow> pairs \<Rightarrow> bytes \<Rightarrow> bytes" where
  "rewrite_head co ps authorization head =
     (let out = replace_all ps head
      in if ps = [] \<and> authorization = [] then out
         else
           case substitute_authorization co out authorization ps of
             Some rewritten \<Rightarrow> rewritten
           | None \<Rightarrow> out)"

definition finish_head :: "codecs \<Rightarrow> bytes \<Rightarrow> request_stream \<Rightarrow> bytes \<times> request_stream" where
  "finish_head co head s =
     (let st = (case classify co head of
                  FramingNone \<Rightarrow> StateHead
                | FramingExact n \<Rightarrow> StateBody (Exact n)
                | FramingChunked \<Rightarrow> StateBody (Chunked (ChunkSize []))
                | Ambiguous \<Rightarrow> StateTunnel)
      in (rewrite_head co (rs_pairs s) (rs_authorization s) head, s\<lparr>rs_state := st\<rparr>))"

definition release_head :: "codecs \<Rightarrow> request_stream \<Rightarrow> bytes \<times> request_stream" where
  "release_head co s =
     (case rs_held s of
        Some head \<Rightarrow> finish_head co head (s\<lparr>rs_held := None\<rparr>)
      | None \<Rightarrow> ([], s))"

definition take_pending :: "request_stream \<Rightarrow> bytes \<times> request_stream" where
  "take_pending s = (rs_head s, s\<lparr>rs_head := []\<rparr>)"

section \<open>Searching\<close>

definition occurs :: "bytes \<Rightarrow> bytes \<Rightarrow> nat \<Rightarrow> bool" where
  "occurs pat xs i \<longleftrightarrow> i + length pat \<le> length xs \<and> take (length pat) (drop i xs) = pat"

lemma occurs_Cons: "occurs pat (b # bs) (Suc i) = occurs pat bs i"
  by (simp add: occurs_def)

lemma find_sub_None: "find_sub pat xs = None \<longleftrightarrow> (\<forall>i. \<not> occurs pat xs i)"
proof (induction xs)
  case Nil
  then show ?case by (auto simp: occurs_def)
next
  case (Cons b bs)
  have "(\<forall>i. \<not> occurs pat (b # bs) i) \<longleftrightarrow> \<not> occurs pat (b # bs) 0 \<and> (\<forall>i. \<not> occurs pat bs i)"
    by (metis occurs_Cons not0_implies_Suc)
  then show ?case using Cons by (auto simp: occurs_def)
qed

lemma find_sub_Some: "find_sub pat xs = Some i \<longleftrightarrow> occurs pat xs i \<and> (\<forall>j < i. \<not> occurs pat xs j)"
proof (induction xs arbitrary: i)
  case Nil
  then show ?case by (auto simp: occurs_def)
next
  case (Cons b bs)
  show ?case
  proof (cases "occurs pat (b # bs) 0")
    case True
    then have "find_sub pat (b # bs) = Some 0" by (simp add: occurs_def)
    then show ?thesis using True by (cases i) auto
  next
    case False
    then have eq: "find_sub pat (b # bs) = map_option Suc (find_sub pat bs)" by (auto simp: occurs_def)
    show ?thesis
    proof (cases i)
      case 0
      then show ?thesis using False eq by auto
    next
      case (Suc k)
      have "(\<forall>j < Suc k. \<not> occurs pat (b # bs) j) \<longleftrightarrow> (\<forall>j < k. \<not> occurs pat bs j)"
        using False by (auto simp: less_Suc_eq_0_disj occurs_Cons)
      then show ?thesis using Cons Suc eq by (simp add: occurs_Cons)
    qed
  qed
qed

lemma occurs_append_right: "length xs \<le> i \<Longrightarrow> occurs pat (xs @ ys) i \<longleftrightarrow> occurs pat ys (i - length xs)"
  by (auto simp: occurs_def)

lemma occurs_append_left: "i + length pat \<le> length xs \<Longrightarrow> occurs pat (xs @ ys) i \<longleftrightarrow> occurs pat xs i"
  by (simp add: occurs_def)

lemma occurs_take: "occurs pat xs i \<Longrightarrow> occurs pat (take (i + length pat) xs) i"
  by (simp add: occurs_def drop_take)

lemma occurs_takeD: "occurs pat (take n xs) i \<Longrightarrow> occurs pat xs i"
  by (auto simp: occurs_def drop_take min_def split: if_splits)

text \<open>An occurrence across the boundary lies within the window around it.\<close>

lemma occurs_window:
  assumes "back \<le> length prev" "length prev - back \<le> i" "i < length prev" "length pat \<le> Suc k"
  shows "occurs pat (prev @ hay) i \<longleftrightarrow>
    occurs pat (drop (length prev - back) prev @ take k hay) (i - (length prev - back))"
proof -
  let ?d = "length prev - back" and ?n = "length pat - (length prev - i)"
  have n: "?n \<le> k" using assms(3,4) by simp
  have "drop i (prev @ hay) = drop i prev @ hay" using assms(3) by simp
  moreover have "drop (i - ?d) (drop ?d prev @ take k hay) = drop i prev @ take k hay"
    using assms(2,3) by simp
  moreover have "take ?n (take k hay) = take ?n hay" using n by (simp add: min_absorb1)
  moreover have "i + length pat \<le> length (prev @ hay) \<longleftrightarrow>
      i - ?d + length pat \<le> length (drop ?d prev @ take k hay)"
    using assms by (auto simp: min_def)
  ultimately show ?thesis by (simp add: occurs_def)
qed

lemma find_upt:
  "find P [0..<n] = Some i \<longleftrightarrow> i < n \<and> P i \<and> (\<forall>j < i. \<not> P j)"
  "find P [0..<n] = None \<longleftrightarrow> (\<forall>i < n. \<not> P i)"
  by (auto simp: find_Some_iff find_None_iff)

lemma head_end_search:
  assumes "find_sub HEAD_END prev = None"
  shows "head_end prev hay = map_option (\<lambda>i. i + 4 - length prev) (find_sub HEAD_END (prev @ hay))"
proof -
  define w where "w = min (length prev) 3"
  define probe where "probe = drop (length prev - w) prev @ take 3 hay"
  have none: "\<not> occurs HEAD_END prev i" for i using assms by (simp add: find_sub_None)
  have len: "length HEAD_END = 4" by (simp add: HEAD_END_def)
  have wle: "w \<le> length prev" "w \<le> 3" by (simp_all add: w_def)
  have early: "\<not> occurs HEAD_END (prev @ hay) i" if "i < length prev - w" for i
    using that none occurs_append_left [of i HEAD_END prev hay] by (auto simp: len w_def)
  have mid: "occurs HEAD_END (prev @ hay) (length prev - w + j) \<longleftrightarrow> occurs HEAD_END probe j" if "j < w" for j
    using occurs_window [of w prev "length prev - w + j" HEAD_END 3 hay] that wle
    by (simp add: len probe_def)
  have late: "occurs HEAD_END (prev @ hay) (length prev + j) \<longleftrightarrow> occurs HEAD_END hay j" for j
    using occurs_append_right [of prev "length prev + j"] by simp
  have eq: "head_end prev hay =
      (case find (occurs HEAD_END probe) [0..<w] of
         Some start \<Rightarrow> Some (start + 4 - w)
       | None \<Rightarrow> map_option (\<lambda>i. i + 4) (find_sub HEAD_END hay))"
  proof -
    have three: "(4 :: nat) - 1 = 3" by simp
    have cut: "take (min (length hay) 3) hay = take 3 hay" by (simp add: min_def)
    have occ: "occurs HEAD_END probe = (\<lambda>start. start + 4 \<le> length probe \<and> take 4 (drop start probe) = HEAD_END)"
      by (simp add: fun_eq_iff occurs_def len)
    show ?thesis
      by (simp only: head_end_def Let_def len three cut w_def [symmetric] probe_def [symmetric] occ)
  qed
  show ?thesis
  proof (cases "find (occurs HEAD_END probe) [0..<w]")
    case (Some start)
    then have st: "start < w" "occurs HEAD_END probe start" "\<forall>j < start. \<not> occurs HEAD_END probe j"
      by (auto simp: find_upt)
    have "\<not> occurs HEAD_END (prev @ hay) j" if "j < length prev - w + start" for j
    proof (cases "j < length prev - w")
      case False
      then show ?thesis using mid [of "j - (length prev - w)"] st that by auto
    qed (use early in auto)
    then have "find_sub HEAD_END (prev @ hay) = Some (length prev - w + start)"
      using mid [OF st(1)] st(2) by (simp add: find_sub_Some)
    moreover have "length prev - w + start + 4 - length prev = start + 4 - w" using wle(1) by simp
    ultimately show ?thesis using Some eq by simp
  next
    case None
    then have miss: "\<not> occurs HEAD_END (prev @ hay) j" if "j < length prev" for j
    proof (cases "j < length prev - w")
      case False
      then show ?thesis using None mid [of "j - (length prev - w)"] that wle(1) by (auto simp: find_upt)
    qed (use early in auto)
    show ?thesis
    proof (cases "find_sub HEAD_END hay")
      case no: None
      then have "\<not> occurs HEAD_END (prev @ hay) j" for j
        using miss [of j] late [of "j - length prev"] by (cases "j < length prev") (auto simp: find_sub_None)
      then have "find_sub HEAD_END (prev @ hay) = None" by (simp add: find_sub_None)
      then show ?thesis using None no eq by simp
    next
      case yes: (Some i)
      have "\<not> occurs HEAD_END (prev @ hay) j" if "j < length prev + i" for j
        using that miss [of j] late [of "j - length prev"] yes
        by (cases "j < length prev") (auto simp: find_sub_Some)
      then have "find_sub HEAD_END (prev @ hay) = Some (length prev + i)"
        using yes late by (simp add: find_sub_Some)
      then show ?thesis using None yes eq by simp
    qed
  qed
qed

section \<open>Nothing is lost or added\<close>

text \<open>
  The bytes received and not yet forwarded, and the invariant of a stream: a head in progress has no
  end in it, a head that is held ends where it first has one, and outside a head nothing is kept.
\<close>

definition pending :: "request_stream \<Rightarrow> bytes" where
  "pending s = (case rs_held s of Some h \<Rightarrow> h | None \<Rightarrow> rs_head s)"

definition whole_head :: "bytes \<Rightarrow> bool" where
  "whole_head h \<longleftrightarrow> find_sub HEAD_END h = Some (length h - 4)"

definition stream_ok :: "request_stream \<Rightarrow> bool" where
  "stream_ok s \<longleftrightarrow>
     find_sub HEAD_END (rs_head s) = None \<and> (rs_state s \<noteq> StateHead \<longrightarrow> rs_head s = []) \<and>
     (\<forall>h. rs_held s = Some h \<longrightarrow> whole_head h \<and> rs_head s = [] \<and> rs_state s = StateHead)"

lemma head_end_Some:
  assumes "find_sub HEAD_END prev = None" "head_end prev hay = Some e"
  shows "0 < e \<and> e \<le> length hay \<and> whole_head (prev @ take e hay)"
proof -
  obtain i where i: "find_sub HEAD_END (prev @ hay) = Some i" "e = i + 4 - length prev"
    using head_end_search [OF assms(1), of hay] assms(2) by (cases "find_sub HEAD_END (prev @ hay)") simp_all
  have occ: "occurs HEAD_END (prev @ hay) i" and first: "\<forall>j < i. \<not> occurs HEAD_END (prev @ hay) j"
    using i(1) by (auto simp: find_sub_Some)
  have len: "length HEAD_END = 4" by (simp add: HEAD_END_def)
  have bound: "i + 4 \<le> length prev + length hay" using occ by (simp add: occurs_def len)
  have past: "length prev < i + 4"
    using assms(1) occurs_append_left [of i HEAD_END prev hay] occ by (force simp: len find_sub_None)
  have cut: "prev @ take e hay = take (i + 4) (prev @ hay)" using i(2) past by simp
  have "occurs HEAD_END (take (i + 4) (prev @ hay)) i"
    using occurs_take [OF occ] by (simp add: len)
  moreover have "\<not> occurs HEAD_END (take (i + 4) (prev @ hay)) j" if "j < i" for j
    using first that occurs_takeD by blast
  ultimately have "find_sub HEAD_END (prev @ take e hay) = Some i" unfolding cut find_sub_Some by blast
  moreover have "length (prev @ take e hay) - 4 = i" unfolding cut using bound by simp
  ultimately show ?thesis using past bound i(2) by (auto simp: whole_head_def)
qed

lemma head_end_None:
  "find_sub HEAD_END prev = None \<Longrightarrow> head_end prev hay = None \<Longrightarrow> find_sub HEAD_END (prev @ hay) = None"
  using head_end_search by simp

text \<open>
  The end of a head is found wherever the chunks are cut: with a head so far that has no end in it,
  looking at the new bytes and a window of three bytes before them gives the same place as looking
  through everything received.
\<close>

theorem head_end_across_chunks:
  assumes "find_sub HEAD_END prev = None"
  shows "head_end prev hay = map_option (\<lambda>i. i + 4 - length prev) (find_sub HEAD_END (prev @ hay)) \<and>
    (\<forall>e. head_end prev hay = Some e \<longrightarrow> 0 < e \<and> e \<le> length hay \<and>
       find_sub HEAD_END (prev @ take e hay) = Some (length (prev @ take e hay) - 4))"
  using head_end_search [OF assms] head_end_Some [OF assms] by (simp add: whole_head_def)

theorem head_end_across_chunks_witness: "head_end [71, 13, 10, 13] [10, 88] = Some 1"
proof -
  have "find_sub HEAD_END [71, 13, 10, 13] = None" by (simp add: HEAD_END_def)
  from head_end_across_chunks [OF this, of "[10, 88]"] show ?thesis by (simp add: HEAD_END_def)
qed

lemma took_le: "fst r \<le> n - k \<Longrightarrow> k \<le> n \<Longrightarrow> fst (took k r) \<le> n"
  by (simp add: took_def)

lemma chunked_consume_le: "fst (chunked_consume c data) \<le> length data"
proof (induction c data rule: chunked_consume.induct)
  case (1 c data)
  show ?case
  proof (cases "data = []")
    case True
    then show ?thesis by (simp add: chunked_consume.simps)
  next
    case ne: False
    note step = chunked_consume.simps [of c data]
    show ?thesis
    proof (cases c)
      case (ChunkSize line)
      show ?thesis
      proof (cases "position is_line_end data")
        case None
        then show ?thesis using step ChunkSize by simp
      next
        case (Some i)
        then have i: "i + 1 \<le> length data" using position_SomeD by fastforce
        show ?thesis
        proof (cases "parse_chunk_size (line @ take (i + 1) data)")
          case None
          then show ?thesis using step ChunkSize Some i by simp
        next
          case n: (Some n)
          from "1.IH"(1) [OF ne ChunkSize Some n] show ?thesis
            using step ChunkSize Some n i ne by (auto intro!: took_le)
        qed
      qed
    next
      case (ChunkData n)
      define k where "k = min n (length data)"
      have "chunked_consume c data =
          took k (chunked_consume (if n - k = 0 then DataEnd else ChunkData (n - k)) (drop k data))"
        unfolding ChunkData
        by (subst chunked_consume.simps) (simp only: ne if_False chunked.case Let_def k_def)
      moreover have "k \<le> length data" by (simp add: k_def)
      ultimately show ?thesis using "1.IH"(2) [OF ne ChunkData k_def] by (simp only: took_le length_drop)
    next
      case DataEnd
      have "1 \<le> length data" using ne by (cases data) auto
      with "1.IH"(3) [OF ne DataEnd] show ?thesis
        using step DataEnd ne by (auto intro!: took_le)
    next
      case (Trailer line)
      show ?thesis
      proof (cases "position is_line_end data")
        case None
        then show ?thesis using step Trailer by simp
      next
        case (Some i)
        then have i: "i + 1 \<le> length data" using position_SomeD by fastforce
        show ?thesis
        proof (cases "blank_line (line @ take (i + 1) data)")
          case True
          then show ?thesis using step Trailer Some i ne by simp
        next
          case False
          from "1.IH"(4) [OF ne Trailer Some False] show ?thesis
            using step Trailer Some False i ne by (auto intro!: took_le)
        qed
      qed
    qed
  qed
qed

lemma body_consume_le: "body_consume b data = (k, finished, b') \<Longrightarrow> k \<le> length data"
proof (cases b)
  case (Chunked c)
  moreover assume "body_consume b data = (k, finished, b')"
  ultimately show ?thesis using chunked_consume_le [of c data] by (auto split: prod.splits)
qed (auto simp: Let_def)

definition advanced :: "request_stream \<Rightarrow> bytes \<Rightarrow> bytes \<times> nat \<times> request_stream \<Rightarrow> bool" where
  "advanced s rest r \<longleftrightarrow>
     (case r of (out, n, s') \<Rightarrow>
        n \<le> length rest \<and> stream_ok s' \<and> pending s @ take n rest = out @ pending s' \<and>
        (rs_held s' = None \<longrightarrow> n = length rest) \<and>
        (rs_held s = None \<and> rs_held s' \<noteq> None \<longrightarrow> 0 < n) \<and>
        rs_pairs s' = rs_pairs s \<and> rs_authorization s' = rs_authorization s)"

lemma advance_ok: "stream_ok s \<Longrightarrow> advanced s rest (advance s rest)"
proof (induction s rest rule: advance.induct)
  case (1 s rest)
  show ?case
  proof (cases "rest = [] \<or> rs_held s \<noteq> None")
    case True
    then show ?thesis using "1.prems" by (auto simp: advance.simps advanced_def)
  next
    case go: False
    then have held: "rs_held s = None" "rest \<noteq> []" by auto
    show ?thesis
    proof (cases "rs_state s")
      case StateHead
      have none: "find_sub HEAD_END (rs_head s) = None" using "1.prems" by (simp add: stream_ok_def)
      show ?thesis
      proof (cases "head_end (rs_head s) rest")
        case (Some e)
        from head_end_Some [OF none Some] show ?thesis
          using held StateHead Some
          by (simp add: advance.simps [of s rest] advanced_def stream_ok_def pending_def)
            (simp add: HEAD_END_def)
      next
        case None
        from head_end_None [OF none None] show ?thesis
          using held StateHead None
          by (auto simp: advance.simps [of s rest] advanced_def stream_ok_def pending_def HEAD_END_def)
      qed
    next
      case (StateBody b)
      obtain k finished b' where b: "body_consume b rest = (k, finished, b')" by (metis prod_cases3)
      define s1 where "s1 = s\<lparr>rs_state := if finished then StateHead else if k = 0 then StateTunnel else StateBody b'\<rparr>"
      obtain out n s' where rec: "advance s1 (drop k rest) = (out, n, s')" by (metis prod_cases3)
      have empty: "rs_head s = []" using "1.prems" StateBody by (simp add: stream_ok_def)
      have "stream_ok s1" using "1.prems" empty held by (simp add: stream_ok_def s1_def)
      then have "advanced s1 (drop k rest) (out, n, s')"
        using "1.IH" [OF go StateBody b [symmetric]] rec b by (simp add: s1_def)
      moreover have "advance s rest = (take k rest @ out, k + n, s')"
        using held StateBody b rec by (simp add: advance.simps [of s rest] Let_def s1_def)
      ultimately show ?thesis
        using body_consume_le [OF b] empty held
        by (auto simp: advanced_def pending_def s1_def take_add)
    next
      case StateTunnel
      then show ?thesis using "1.prems" held
        by (auto simp: advance.simps [of s rest] advanced_def pending_def stream_ok_def)
    qed
  qed
qed

section \<open>What rewriting does\<close>

lemma replace_loop_search:
  assumes "pat \<noteq> []"
  shows "replace_loop pat to data =
    (case find_sub pat data of
       None \<Rightarrow> data
     | Some i \<Rightarrow> take i data @ to @ replace_loop pat to (drop (i + length pat) data))"
proof (induction data)
  case Nil
  then show ?case using assms by (simp add: replace_loop.simps)
next
  case (Cons b bs)
  show ?case
  proof (cases "occurs pat (b # bs) 0")
    case True
    then have "find_sub pat (b # bs) = Some 0"
      unfolding find_sub_Some by blast
    then show ?thesis using True assms
      by (subst replace_loop.simps) (auto simp: occurs_def)
  next
    case False
    then have f: "find_sub pat (b # bs) = map_option Suc (find_sub pat bs)" by (auto simp: occurs_def)
    show ?thesis
    proof (cases "length (b # bs) < length pat")
      case True
      then have "find_sub pat (b # bs) = None" by (auto simp: find_sub_None occurs_def)
      then show ?thesis using True by (subst replace_loop.simps) simp
    next
      case long: False
      then have "replace_loop pat to (b # bs) = b # replace_loop pat to bs"
        using assms False by (subst replace_loop.simps) (auto simp: occurs_def)
      then show ?thesis using Cons.IH f by (simp split: option.split)
    qed
  qed
qed

lemma replace_bytes_loop: "pat \<noteq> [] \<Longrightarrow> replace_bytes data pat to = replace_loop pat to data"
  by (simp add: replace_bytes_def replace_loop.simps [of pat to data])

text \<open>
  Replacing works from left to right on whole occurrences: where the pattern does not occur nothing
  changes, and otherwise everything before its first occurrence stays, the occurrence becomes the value,
  and the same is done to what follows, so a value is never searched again.
\<close>

theorem replace_leftmost:
  assumes "pat \<noteq> []"
  shows "replace_bytes data pat to =
    (case find_sub pat data of
       None \<Rightarrow> data
     | Some i \<Rightarrow> take i data @ to @ replace_bytes (drop (i + length pat) data) pat to)"
  using replace_loop_search [OF assms, of to data]
  by (simp add: replace_bytes_loop [OF assms] split: option.splits)

theorem replace_leftmost_witness:
  "replace_bytes [1, 2, 2, 3, 2, 2] [2, 2] [2, 2, 2] = [1, 2, 2, 2, 3, 2, 2, 2]"
  using replace_leftmost [of "[2, 2]" "[1, 2, 2, 3, 2, 2]" "[2, 2, 2]"]
    replace_leftmost [of "[2, 2]" "[3, 2, 2]" "[2, 2, 2]"] replace_leftmost [of "[2, 2]" "[]" "[2, 2, 2]"]
  by simp

lemma concat_head_lines: "concat (head_lines rest) = rest"
  by (induction rest rule: head_lines.induct) (subst head_lines.simps, auto simp: Let_def)

lemma authorization_line_other: "\<not> is_authorization line \<Longrightarrow> authorization_line co line authorization ps = None"
  by (auto simp: authorization_line_def is_authorization_def split: option.splits)


section \<open>Framing\<close>

abbreviation te_header :: "string \<times> bytes \<Rightarrow> bool" where
  "te_header h \<equiv> eq_ignore_case (ascii (fst h)) (ascii ''transfer-encoding'')"

abbreviation cl_header :: "string \<times> bytes \<Rightarrow> bool" where
  "cl_header h \<equiv> eq_ignore_case (ascii (fst h)) (ascii ''content-length'')"

abbreviation up_header :: "string \<times> bytes \<Rightarrow> bool" where
  "up_header h \<equiv> eq_ignore_case (ascii (fst h)) (ascii ''upgrade'')"

definition chunked_header :: "string \<times> bytes \<Rightarrow> bool" where
  "chunked_header h \<longleftrightarrow> trim (last_coding (map lower (snd h))) = ascii ''chunked''"

lemma header_names:
  "\<not> (te_header h \<and> cl_header h)" "\<not> (te_header h \<and> up_header h)" "\<not> (cl_header h \<and> up_header h)"
  by (auto simp: eq_ignore_case_def ascii_def lower_def)

lemma headers_seen_te:
  "hs_transfer_encoding (fold see_header hs no_headers) \<longleftrightarrow> (\<exists>h \<in> set hs. te_header h)"
  "hs_upgrade (fold see_header hs no_headers) \<longleftrightarrow> (\<exists>h \<in> set hs. up_header h)"
  "hs_chunked (fold see_header hs no_headers) \<longleftrightarrow>
     (case filter te_header (rev hs) of h # _ \<Rightarrow> chunked_header h | [] \<Rightarrow> False)"
proof (induction hs rule: rev_induct)
  case Nil
  { case 1 show ?case by (simp add: no_headers_def) }
  { case 2 show ?case by (simp add: no_headers_def) }
  { case 3 show ?case by (simp add: no_headers_def) }
next
  case (snoc h hs)
  { case 1 show ?case using snoc header_names [of h]
      by (auto simp: see_header_def Let_def split: option.splits) }
  { case 2 show ?case using snoc header_names [of h]
      by (auto simp: see_header_def Let_def split: option.splits) }
  { case 3 show ?case using snoc header_names [of h]
      by (auto simp: see_header_def Let_def chunked_header_def split: option.splits) }
qed

lemma see_other_header:
  "\<not> cl_header h \<Longrightarrow> hs_content_length (see_header h seen) = hs_content_length seen"
  by (simp add: see_header_def Let_def)

lemma headers_seen_length:
  "hs_conflicting_length (fold see_header hs no_headers) \<or>
   (\<forall>h \<in> set hs. cl_header h \<longrightarrow>
      content_length (snd h) = hs_content_length (fold see_header hs no_headers) \<and>
      hs_content_length (fold see_header hs no_headers) \<noteq> None)"
  "hs_content_length (fold see_header hs no_headers) \<noteq> None \<Longrightarrow> \<exists>h \<in> set hs. cl_header h"
proof (induction hs rule: rev_induct)
  case (snoc h hs)
  { case 1 show ?case
    proof (cases "cl_header h")
      case True
      then show ?thesis using snoc(1) header_names [of h]
        by (auto simp: see_header_def Let_def split: option.splits)
    next
      case False
      then show ?thesis using snoc(1) by (auto simp: see_header_def Let_def)
    qed }
  { case 2 then show ?case
    proof (cases "cl_header h")
      case False
      then have "hs_content_length (fold see_header hs no_headers) \<noteq> None"
        using 2 by (simp add: see_other_header)
      then show ?thesis using snoc(2) by auto
    qed auto }
qed (simp_all add: no_headers_def)


text \<open>A parser that reads every head as a POST with both kinds of length.\<close>

definition smuggling_codecs :: codecs where
  "smuggling_codecs =
     \<lparr>co_parse = (\<lambda>_. Some (''POST'', [(''Content-Length'', ascii ''5''), (''Transfer-Encoding'', ascii ''chunked'')])),
      co_decode = Some, co_encode = id\<rparr>"


text \<open>
  The form of a chunked body: chunks of a size line, their data and a line end, then the line of the
  last chunk, trailer lines and a blank line. A line ends at its first line feed.
\<close>

definition is_line :: "bytes \<Rightarrow> bool" where
  "is_line line \<longleftrightarrow> position is_line_end line = Some (length line - 1)"

definition chunk_ok :: "bytes \<times> bytes \<Rightarrow> bool" where
  "chunk_ok c \<longleftrightarrow>
     is_line (fst c) \<and> snd c \<noteq> [] \<and> parse_chunk_size (fst c) = Some (length (snd c))"

definition chunks_bytes :: "(bytes \<times> bytes) list \<Rightarrow> bytes" where
  "chunks_bytes chunks = concat (map (\<lambda>(line, data). line @ data @ [13, 10]) chunks)"

definition trailer_ok :: "bytes list \<Rightarrow> bool" where
  "trailer_ok lines = list_all (\<lambda>line. is_line line \<and> \<not> blank_line line) lines"

lemma is_line_nonempty: "is_line line \<Longrightarrow> line \<noteq> []"
  by (auto simp: is_line_def)

lemma is_line_cut:
  assumes "is_line line"
  shows "position is_line_end (line @ rest) = Some (length line - 1)"
    "take (Suc (length line - 1)) (line @ rest) = line" "drop (Suc (length line - 1)) (line @ rest) = rest"
proof -
  have "position is_line_end line = Some (length line - 1)" using assms by (simp add: is_line_def)
  then show "position is_line_end (line @ rest) = Some (length line - 1)" by (simp add: position_append)
  have "0 < length line" using is_line_nonempty [OF assms] by simp
  then show "take (Suc (length line - 1)) (line @ rest) = line" "drop (Suc (length line - 1)) (line @ rest) = rest"
    by simp_all
qed

lemma consume_size_line:
  assumes "is_line line" "parse_chunk_size line = Some n"
  shows "chunked_consume (ChunkSize []) (line @ rest) =
    took (length line) (chunked_consume (if n = 0 then Trailer [] else ChunkData n) rest)"
  using is_line_cut [OF assms(1), of rest] is_line_nonempty [OF assms(1)] assms(2)
  by (subst chunked_consume.simps) simp

lemma consume_data:
  assumes "data \<noteq> []"
  shows "chunked_consume (ChunkData (length data)) (data @ rest) =
    took (length data) (chunked_consume DataEnd rest)"
  using assms by (subst chunked_consume.simps) (simp add: Let_def)

lemma consume_data_end:
  "chunked_consume DataEnd (13 # 10 # rest) = took 2 (chunked_consume (ChunkSize []) rest)"
  by (subst chunked_consume.simps, simp, subst chunked_consume.simps) (simp add: took_def)

lemma took_took: "took a (took b r) = took (a + b) r"
  by (simp add: took_def)

lemma consume_chunks:
  "list_all chunk_ok chunks \<Longrightarrow>
   chunked_consume (ChunkSize []) (chunks_bytes chunks @ rest) =
   took (length (chunks_bytes chunks)) (chunked_consume (ChunkSize []) rest)"
proof (induction chunks)
  case (Cons c chunks)
  obtain line data where c: "c = (line, data)" by fastforce
  have ok: "is_line line" "data \<noteq> []" "parse_chunk_size line = Some (length data)"
    using Cons.prems by (auto simp: c chunk_ok_def)
  have "chunked_consume (ChunkSize []) (line @ data @ 13 # 10 # chunks_bytes chunks @ rest) =
      took (length line + (length data + (2 + length (chunks_bytes chunks)))) (chunked_consume (ChunkSize []) rest)"
    using consume_size_line [OF ok(1,3)] consume_data [OF ok(2)] ok(2) Cons
    by (simp add: consume_data_end took_took)
  then show ?case by (simp add: c chunks_bytes_def algebra_simps)
qed (simp add: chunks_bytes_def took_def)

lemma consume_trailer:
  "trailer_ok lines \<Longrightarrow>
   chunked_consume (Trailer []) (concat lines @ 13 # 10 # rest) = (length (concat lines) + 2, True, Trailer [])"
proof (induction lines)
  case Nil
  have "position is_line_end (13 # 10 # rest) = Some 1" by (simp add: is_line_end_def)
  then show ?case by (subst chunked_consume.simps) (simp add: blank_line_def)
next
  case (Cons line lines)
  then have l: "is_line line" "\<not> blank_line line" by (auto simp: trailer_ok_def)
  have "chunked_consume (Trailer []) (line @ (concat lines @ 13 # 10 # rest)) =
      took (length line) (chunked_consume (Trailer []) (concat lines @ 13 # 10 # rest))"
    using is_line_cut [OF l(1), of "concat lines @ 13 # 10 # rest"] is_line_nonempty [OF l(1)] l(2)
    by (subst chunked_consume.simps) simp
  then show ?case using Cons by (simp add: trailer_ok_def took_def)
qed



text \<open>
  C26. A size line that cannot be read does not end the framing, though the framing can no longer be
  trusted: the line is taken and the next one is read as a size, so the stream stays in the body and
  does not become a tunnel.
\<close>

theorem unreadable_size_keeps_framing:
  assumes "is_line line" "parse_chunk_size line = None" "rs_held s = None"
    and "rs_state s = StateBody (Chunked (ChunkSize []))"
  shows "advance s line = (line, length line, s)"
proof -
  have "body_consume (Chunked (ChunkSize [])) line = (length line, False, Chunked (ChunkSize []))"
    using is_line_cut [OF assms(1), of "[]"] is_line_nonempty [OF assms(1)] assms(2)
    by (simp add: chunked_consume.simps)
  moreover have "line \<noteq> []" using is_line_nonempty [OF assms(1)] .
  ultimately show ?thesis
    using assms(3,4) by (subst advance.simps) (simp add: Let_def advance.simps [of _ "[]"])
qed

theorem unreadable_size_keeps_framing_witness:
  "\<exists>s. rs_state s = StateBody (Chunked (ChunkSize [])) \<and>
     advance s (ascii ''zz'' @ [13, 10]) = (ascii ''zz'' @ [13, 10], 4, s)"
proof -
  let ?s = "(request_stream_new [])\<lparr>rs_state := StateBody (Chunked (ChunkSize []))\<rparr>"
  have "is_line (ascii ''zz'' @ [13, 10])" by (simp add: is_line_def is_line_end_def ascii_def)
  moreover have "parse_chunk_size (ascii ''zz'' @ [13, 10]) = None"
    by (simp add: parse_chunk_size_def ascii_def blank_def is_hex_def)
  ultimately have "advance ?s (ascii ''zz'' @ [13, 10]) = (ascii ''zz'' @ [13, 10], 4, ?s)"
    using unreadable_size_keeps_framing [of "ascii ''zz'' @ [13, 10]" ?s] by (simp add: request_stream_new_def)
  then show ?thesis by (intro exI [of _ ?s]) simp
qed

end
