(* ===== verification/Proxy_Relay.thy ===== *)
theory Proxy_Relay
  imports Proxy_Substitute
begin

text \<open>
  The two relays of \<^verbatim>\<open>crates/shuru-proxy/src/proxy.rs\<close>, in the direction from the guest: \<^verbatim>\<open>blind_relay\<close> passes on what it
  is given, \<^verbatim>\<open>handle_mitm\<close> the plaintext of the guest with its request heads rewritten. The other direction copies bytes
  and can only end the relay; an end in the middle of a write is a write that fails after some of its bytes.
\<close>

section \<open>The upstream side\<close>

text \<open>\<open>uw_faults\<close> says of the coming writes whether they fail, and after how many bytes.\<close>

record up_writer =
  uw_out :: bytes
  uw_faults :: "nat option list"

fun up_write :: "bytes \<Rightarrow> up_writer \<Rightarrow> bool \<times> up_writer" where
  "up_write bs u =
     (case uw_faults u of
        [] \<Rightarrow> (True, u\<lparr>uw_out := uw_out u @ bs\<rparr>)
      | None # rest \<Rightarrow> (True, u\<lparr>uw_out := uw_out u @ bs, uw_faults := rest\<rparr>)
      | Some n # rest \<Rightarrow> (False, u\<lparr>uw_out := uw_out u @ take n bs, uw_faults := rest\<rparr>))"

declare up_write.simps [simp del]

lemma up_write_out:
  "up_write bs u = (ok, u') \<Longrightarrow>
     (ok \<longrightarrow> uw_out u' = uw_out u @ bs) \<and> prefix (uw_out u) (uw_out u') \<and> prefix (uw_out u') (uw_out u @ bs)"
  by (auto simp: up_write.simps take_is_prefix split: list.splits option.splits)

lemma up_write_sure: "uw_faults u = [] \<Longrightarrow> up_write bs u = (True, u\<lparr>uw_out := uw_out u @ bs\<rparr>)"
  by (simp add: up_write.simps)

section \<open>The blind relay\<close>

fun blind_relay :: "bytes list \<Rightarrow> up_writer \<Rightarrow> up_writer" where
  "blind_relay [] u = u"
| "blind_relay (payload # rest) u =
     (case up_write payload u of (ok, u) \<Rightarrow> if ok then blind_relay rest u else u)"

lemma blind_relay_prefix: "prefix (uw_out (blind_relay cs u)) (uw_out u @ concat cs) \<and> prefix (uw_out u) (uw_out (blind_relay cs u))"
proof (induction cs arbitrary: u)
  case (Cons c cs)
  obtain ok u1 where w: "up_write c u = (ok, u1)" by fastforce
  note o = up_write_out [OF w]
  show ?case
  proof (cases ok)
    case True
    then show ?thesis using Cons.IH [of u1] o w by (auto intro: prefix_order.trans)
  next
    case False
    then show ?thesis using o w by (auto intro: prefix_order.trans)
  qed
qed simp

section \<open>The rewriting relay\<close>

text \<open>
  \<open>fetch\<close> is \<^verbatim>\<open>substitutions_for_domain\<close> on whatever it reads: the secrets may change between two requests.
\<close>

type_synonym 'r fetch = "'r \<Rightarrow> (secret_error + substitution list) \<times> 'r"

record 'r relay =
  ry_stream :: request_stream
  ry_up :: up_writer
  ry_secrets :: 'r

lemma head_end_pos: "head_end prev hay = Some e \<Longrightarrow> 0 < e"
  by (auto simp: head_end_def Let_def HEAD_END_def split: option.splits)

lemma advance_progress: "advance s rest = (out, n, s') \<Longrightarrow> rs_held s' \<noteq> None \<Longrightarrow> 0 < n \<or> rs_held s \<noteq> None"
proof (induction s rest arbitrary: out n s' rule: advance.induct)
  case (1 s rest)
  show ?case
  proof (cases "rest = [] \<or> rs_held s \<noteq> None")
    case True
    then show ?thesis using "1.prems" by (auto simp: advance.simps [of s rest])
  next
    case go: False
    show ?thesis
    proof (cases "rs_state s")
      case StateTunnel
      then show ?thesis using "1.prems" go by (auto simp: advance.simps [of s rest])
    next
      case StateHead
      then show ?thesis using "1.prems" go
        by (auto simp: advance.simps [of s rest] dest: head_end_pos split: option.splits if_splits)
    next
      case (StateBody b)
      obtain k finished b' where b: "body_consume b rest = (k, finished, b')" by (metis prod_cases3)
      define s1 where "s1 = s\<lparr>rs_state := if finished then StateHead else if k = 0 then StateTunnel else StateBody b'\<rparr>"
      obtain out' n' s'' where rec: "advance s1 (drop k rest) = (out', n', s'')" by (metis prod_cases3)
      have eq: "advance s rest = (take k rest @ out', k + n', s'')"
        using go StateBody b rec by (simp add: advance.simps [of s rest] Let_def s1_def)
      have "0 < n' \<or> rs_held s1 \<noteq> None"
        using "1.IH" [OF go StateBody b [symmetric], of _ b'] rec b "1.prems" eq by (simp add: s1_def)
      then show ?thesis using eq "1.prems" by (auto simp: s1_def)
    qed
  qed
qed

lemma release_head_clears: "release_head co s = (h, s') \<Longrightarrow> rs_held s' = None"
  by (auto simp: release_head_def finish_head_def Let_def split: option.splits)

text \<open>
  One chunk of the guest. The answer is whether the relay goes on. Heads are released one at a time, each with the
  substitutions fetched for it.
\<close>

function relay_chunk :: "codecs \<Rightarrow> 'r fetch \<Rightarrow> bytes \<Rightarrow> 'r relay \<Rightarrow> bool \<times> 'r relay" where
  "relay_chunk co fetch data w =
     (case advance (ry_stream w) data of
        (out, taken, s) \<Rightarrow>
          (case (if out = [] then (True, ry_up w) else up_write out (ry_up w)) of
             (ok, u) \<Rightarrow>
               if \<not> ok then (False, w\<lparr>ry_stream := s, ry_up := u\<rparr>)
               else if \<not> has_head s then (True, w\<lparr>ry_stream := s, ry_up := u\<rparr>)
               else
                 (case fetch (ry_secrets w) of
                    (r, sec) \<Rightarrow>
                      (case r of
                         Inl e \<Rightarrow> (False, \<lparr>ry_stream = s, ry_up = u, ry_secrets = sec\<rparr>)
                       | Inr fresh \<Rightarrow>
                           (case release_head co (stream_update fresh s) of
                              (head, s) \<Rightarrow>
                                (case up_write head u of
                                   (ok, u) \<Rightarrow>
                                     if ok then relay_chunk co fetch (drop taken data) \<lparr>ry_stream = s, ry_up = u, ry_secrets = sec\<rparr>
                                     else (False, \<lparr>ry_stream = s, ry_up = u, ry_secrets = sec\<rparr>)))))))"
  by pat_completeness auto
termination
proof (relation "measures [\<lambda>(co, fetch, data, w). length data, \<lambda>(co, fetch, data, w). if has_head (ry_stream w) then 1 else 0]", goal_cases)
  case (2 co fetch data w out x taken s ok u r sec fresh head s' ok' u')
  then have "rs_held s' = None" by (metis release_head_clears)
  moreover have "0 < taken \<or> rs_held (ry_stream w) \<noteq> None"
    using 2 advance_progress [of "ry_stream w" data out taken s] by (auto simp: has_head_def)
  moreover have "data = [] \<Longrightarrow> rs_held (ry_stream w) \<noteq> None"
    using 2 by (auto simp: has_head_def advance.simps [of _ "[]"])
  ultimately show ?case by (cases "data = []") (auto simp: has_head_def)
qed simp

declare relay_chunk.simps [simp del]

fun mitm_relay :: "codecs \<Rightarrow> 'r fetch \<Rightarrow> bytes list \<Rightarrow> 'r relay \<Rightarrow> 'r relay" where
  "mitm_relay co fetch [] w =
     (case take_pending (ry_stream w) of
        (held, s) \<Rightarrow> w\<lparr>ry_stream := s, ry_up := if held = [] then ry_up w else snd (up_write held (ry_up w))\<rparr>)"
| "mitm_relay co fetch (chunk # rest) w =
     (case relay_chunk co fetch chunk w of (ok, w) \<Rightarrow> if ok then mitm_relay co fetch rest w else w)"

section \<open>What the relay forwards\<close>

text \<open>
  The stream of the guest as the relay cuts it: bytes passed on as they are, and whole heads, each rewritten with the
  substitutions fetched for it.
\<close>

datatype segment = Raw bytes | Head bytes "substitution list"

fun seg_in :: "segment \<Rightarrow> bytes" where
  "seg_in (Raw b) = b"
| "seg_in (Head h subs) = h"

fun seg_out :: "codecs \<Rightarrow> segment \<Rightarrow> bytes" where
  "seg_out co (Raw b) = b"
| "seg_out co (Head h subs) = rewrite_head co (fst (split_pairs subs)) (snd (split_pairs subs)) h"

fun seg_subs :: "segment \<Rightarrow> substitution list list" where
  "seg_subs (Raw b) = []"
| "seg_subs (Head h subs) = [subs]"

fun seg_ok :: "segment \<Rightarrow> bool" where
  "seg_ok (Raw b) \<longleftrightarrow> True"
| "seg_ok (Head h subs) \<longleftrightarrow> whole_head h"

text \<open>The substitutions a number of successful fetches give, one after another.\<close>

inductive fetched :: "'r fetch \<Rightarrow> 'r \<Rightarrow> substitution list list \<Rightarrow> 'r \<Rightarrow> bool" for fetch where
  fetched_none: "fetched fetch r [] r"
| fetched_one: "fetch r = (Inr subs, r1) \<Longrightarrow> fetched fetch r1 rest r2 \<Longrightarrow> fetched fetch r (subs # rest) r2"

lemma fetched_append: "fetched fetch r a r1 \<Longrightarrow> fetched fetch r1 b r2 \<Longrightarrow> fetched fetch r (a @ b) r2"
  by (induction rule: fetched.induct) (auto intro: fetched_one)

definition relayed :: "codecs \<Rightarrow> 'r fetch \<Rightarrow> 'r relay \<Rightarrow> bytes \<Rightarrow> bool \<times> 'r relay \<Rightarrow> bool" where
  "relayed co fetch w data res \<longleftrightarrow>
     (\<exists>segs rest r.
        pending (ry_stream w) @ data = concat (map seg_in segs) @ rest \<and> list_all seg_ok segs \<and>
        fetched fetch (ry_secrets w) (concat (map seg_subs segs)) r \<and>
        prefix (uw_out (ry_up w)) (uw_out (ry_up (snd res))) \<and>
        prefix (uw_out (ry_up (snd res))) (uw_out (ry_up w) @ concat (map (seg_out co) segs)) \<and>
        (fst res \<longrightarrow> stream_ok (ry_stream (snd res)) \<and> rs_held (ry_stream (snd res)) = None \<and>
           rest = pending (ry_stream (snd res)) \<and> r = ry_secrets (snd res) \<and>
           uw_out (ry_up (snd res)) = uw_out (ry_up w) @ concat (map (seg_out co) segs)))"

lemma relayed_step:
  assumes "relayed co fetch w1 rest res"
    and "pending (ry_stream w) @ data = concat (map seg_in segs) @ pending (ry_stream w1) @ rest" "list_all seg_ok segs"
    and "fetched fetch (ry_secrets w) (concat (map seg_subs segs)) (ry_secrets w1)"
    and "uw_out (ry_up w1) = uw_out (ry_up w) @ concat (map (seg_out co) segs)"
  shows "relayed co fetch w data res"
proof -
  from assms(1) obtain segs' rest' r where n: "pending (ry_stream w1) @ rest = concat (map seg_in segs') @ rest'" "list_all seg_ok segs'"
    "fetched fetch (ry_secrets w1) (concat (map seg_subs segs')) r"
    "prefix (uw_out (ry_up w1)) (uw_out (ry_up (snd res)))"
    "prefix (uw_out (ry_up (snd res))) (uw_out (ry_up w1) @ concat (map (seg_out co) segs'))"
    "fst res \<longrightarrow> stream_ok (ry_stream (snd res)) \<and> rs_held (ry_stream (snd res)) = None \<and>
           rest' = pending (ry_stream (snd res)) \<and> r = ry_secrets (snd res) \<and>
           uw_out (ry_up (snd res)) = uw_out (ry_up w1) @ concat (map (seg_out co) segs')"
    unfolding relayed_def by auto
  have "prefix (uw_out (ry_up w)) (uw_out (ry_up (snd res)))"
    using n(4) assms(5) by (metis append_prefixD)
  then show ?thesis
    unfolding relayed_def using n assms(2-5) fetched_append [OF assms(4) n(3)]
    by (intro exI [of _ "segs @ segs'"] exI [of _ rest'] exI [of _ r]) auto
qed

lemma release_head_ok:
  assumes "stream_ok s" "rs_held s = Some h" "release_head co (stream_update subs s) = (head, s')"
  shows "head = seg_out co (Head h subs) \<and> stream_ok s' \<and> rs_held s' = None \<and> pending s' = [] \<and> whole_head h"
  using assms by (auto simp: release_head_def finish_head_def stream_update_def stream_ok_def pending_def Let_def HEAD_END_def
      split: framing.splits)

lemma relay_chunk_relayed: "stream_ok (ry_stream w) \<Longrightarrow> relayed co fetch w data (relay_chunk co fetch data w)"
proof (induction co fetch data w rule: relay_chunk.induct)
  case (1 co fetch data w)
  obtain out taken s where a: "advance (ry_stream w) data = (out, taken, s)" by (metis prod_cases3)
  have adv: "taken \<le> length data" "stream_ok s" "pending (ry_stream w) @ take taken data = out @ pending s"
    "rs_held s = None \<longrightarrow> taken = length data"
    using advance_ok [OF "1.prems", of data] a by (simp_all add: advanced_def)
  have split: "pending (ry_stream w) @ data = out @ pending s @ drop taken data"
    using adv(3) by (metis append.assoc append_take_drop_id)
  obtain ok u where u: "(if out = [] then (True, ry_up w) else up_write out (ry_up w)) = (ok, u)" by fastforce
  then have o: "ok \<longrightarrow> uw_out u = uw_out (ry_up w) @ out" "prefix (uw_out (ry_up w)) (uw_out u)"
    "prefix (uw_out u) (uw_out (ry_up w) @ out)"
    using up_write_out [of out "ry_up w" ok u] by (auto split: if_splits)
  let ?w1 = "w\<lparr>ry_stream := s, ry_up := u\<rparr>"
  consider (cut) "\<not> ok" | (over) "ok" "\<not> has_head s" | (head) h where "ok" "rs_held s = Some h" by (auto simp: has_head_def)
  then show ?case
  proof cases
    case cut
    then show ?thesis using a u o split
      by (auto simp: relay_chunk.simps [of co fetch data w] relayed_def intro!: exI [of _ "[Raw out]"] fetched_none)
  next
    case over
    then show ?thesis using a u o split adv
      by (auto simp: relay_chunk.simps [of co fetch data w] relayed_def has_head_def intro!: exI [of _ "[Raw out]"] fetched_none)
  next
    case head
    obtain r sec where f: "fetch (ry_secrets w) = (r, sec)" by fastforce
    show ?thesis
    proof (cases r)
      case (Inl e)
      then show ?thesis using a u o split head f
        by (auto simp: relay_chunk.simps [of co fetch data w] relayed_def has_head_def intro!: exI [of _ "[Raw out]"] fetched_none)
    next
      case (Inr fresh)
      obtain hd' s' where h: "release_head co (stream_update fresh s) = (hd', s')" by fastforce
      note rel = release_head_ok [OF adv(2) head(2) h]
      obtain ok' u' where w: "up_write hd' u = (ok', u')" by fastforce
      note o' = up_write_out [OF w]
      have sub: "fetched fetch (ry_secrets w) (concat (map seg_subs [Raw out, Head h fresh])) sec"
        using f Inr by (auto intro: fetched_one fetched_none)
      have cut: "pending (ry_stream w) @ data = concat (map seg_in [Raw out, Head h fresh]) @ drop taken data"
        using split head(2) by (simp add: pending_def)
      let ?w2 = "\<lparr>ry_stream = s', ry_up = u', ry_secrets = sec\<rparr>"
      have out2: "prefix (uw_out u') (uw_out (ry_up w) @ concat (map (seg_out co) [Raw out, Head h fresh]))"
        "prefix (uw_out (ry_up w)) (uw_out u')" "ok' \<longrightarrow> uw_out u' = uw_out (ry_up w) @ concat (map (seg_out co) [Raw out, Head h fresh])"
        using o o' rel head(1) by (auto intro: prefix_order.trans dest: append_prefixD)
      show ?thesis
      proof (cases ok')
        case False
        then have "relay_chunk co fetch data w = (False, ?w2)"
          using a u head f Inr h w by (simp add: relay_chunk.simps [of co fetch data w] has_head_def)
        then show ?thesis unfolding relayed_def using cut sub out2 rel
          by (intro exI [of _ "[Raw out, Head h fresh]"] exI [of _ "drop taken data"] exI [of _ sec]) auto
      next
        case True
        then have "relay_chunk co fetch data w = relay_chunk co fetch (drop taken data) ?w2"
          using a u head f Inr h w by (simp add: relay_chunk.simps [of co fetch data w] has_head_def)
        moreover have "relayed co fetch ?w2 (drop taken data) (relay_chunk co fetch (drop taken data) ?w2)"
          using "1.IH" a u head f Inr h w True rel by (simp add: has_head_def)
        ultimately have "relayed co fetch ?w2 (drop taken data) (relay_chunk co fetch data w)" by simp
        then show ?thesis by (rule relayed_step [where segs = "[Raw out, Head h fresh]"]) (use cut sub out2(3) rel True in simp_all)
      qed
    qed
  qed
qed

lemma mitm_relay_relayed:
  assumes "stream_ok (ry_stream w)" "rs_held (ry_stream w) = None"
  shows "relayed co fetch w (concat chunks) (False, mitm_relay co fetch chunks w)"
  using assms
proof (induction chunks arbitrary: w)
  case Nil
  obtain u where u: "u = (if rs_head (ry_stream w) = [] then ry_up w else snd (up_write (rs_head (ry_stream w)) (ry_up w)))" by simp
  then have "prefix (uw_out (ry_up w)) (uw_out u) \<and> prefix (uw_out u) (uw_out (ry_up w) @ rs_head (ry_stream w))"
    using up_write_out [of "rs_head (ry_stream w)" "ry_up w"] by (cases "up_write (rs_head (ry_stream w)) (ry_up w)") auto
  then show ?case using Nil u
    by (auto simp: relayed_def take_pending_def pending_def intro!: exI [of _ "[Raw (rs_head (ry_stream w))]"] fetched_none)
next
  case (Cons c cs)
  obtain ok w1 where c: "relay_chunk co fetch c w = (ok, w1)" by fastforce
  then obtain segs rest r where r: "pending (ry_stream w) @ c = concat (map seg_in segs) @ rest" "list_all seg_ok segs"
    "fetched fetch (ry_secrets w) (concat (map seg_subs segs)) r" "prefix (uw_out (ry_up w)) (uw_out (ry_up w1))"
    "prefix (uw_out (ry_up w1)) (uw_out (ry_up w) @ concat (map (seg_out co) segs))"
    "ok \<longrightarrow> stream_ok (ry_stream w1) \<and> rs_held (ry_stream w1) = None \<and> rest = pending (ry_stream w1) \<and>
       r = ry_secrets w1 \<and> uw_out (ry_up w1) = uw_out (ry_up w) @ concat (map (seg_out co) segs)"
    using relay_chunk_relayed [OF Cons.prems(1), of co fetch c] unfolding relayed_def by auto
  show ?case
  proof (cases ok)
    case False
    have "pending (ry_stream w) @ concat (c # cs) = concat (map seg_in segs) @ rest @ concat cs" using r(1) by simp
    then show ?thesis using r(2-5) c False unfolding relayed_def
      by (intro exI [of _ segs] exI [of _ "rest @ concat cs"] exI [of _ r]) auto
  next
    case True
    then have "relayed co fetch w1 (concat cs) (False, mitm_relay co fetch cs w1)" using Cons.IH r(6) by blast
    moreover have "(pending (ry_stream w) @ c) @ concat cs = concat (map seg_in segs) @ pending (ry_stream w1) @ concat cs"
      unfolding r(1) using r(6) True by simp
    then have "pending (ry_stream w) @ concat (c # cs) = concat (map seg_in segs) @ pending (ry_stream w1) @ concat cs" by simp
    ultimately have "relayed co fetch w (concat (c # cs)) (False, mitm_relay co fetch cs w1)"
      by (rule relayed_step) (use r(2,3,6) True in blast)+
    then show ?thesis using c True by simp
  qed
qed

text \<open>When no write and no fetch fails the relay goes on to the end.\<close>

lemma relay_chunk_sure:
  assumes "uw_faults (ry_up w) = []" "\<forall>r. \<not> isl (fst (fetch r))"
  shows "fst (relay_chunk co fetch data w) \<and> uw_faults (ry_up (snd (relay_chunk co fetch data w))) = []"
  using assms
proof (induction co fetch data w rule: relay_chunk.induct)
  case (1 co fetch data w)
  obtain out taken s where a: "advance (ry_stream w) data = (out, taken, s)" by (metis prod_cases3)
  obtain u where u: "(if out = [] then (True, ry_up w) else up_write out (ry_up w)) = (True, u)" "uw_faults u = []"
    using "1.prems"(1) up_write_sure [OF "1.prems"(1), of out] by (cases "out = []") auto
  obtain fresh sec where f: "fetch (ry_secrets w) = (Inr fresh, sec)"
    using spec [OF "1.prems"(2), of "ry_secrets w"] by (cases "fetch (ry_secrets w)"; cases "fst (fetch (ry_secrets w))") auto
  obtain h s' where h: "release_head co (stream_update fresh s) = (h, s')" by fastforce
  show ?case
  proof (cases "has_head s")
    case False
    then show ?thesis using a u by (auto simp: relay_chunk.simps [of co fetch data w])
  next
    case True
    have w: "up_write h u = (True, u\<lparr>uw_out := uw_out u @ h\<rparr>)" by (rule up_write_sure [OF u(2)])
    let ?w2 = "\<lparr>ry_stream = s', ry_up = u\<lparr>uw_out := uw_out u @ h\<rparr>, ry_secrets = sec\<rparr>"
    have "relay_chunk co fetch data w = relay_chunk co fetch (drop taken data) ?w2"
      using a u(1) f h w True by (simp add: relay_chunk.simps [of co fetch data w])
    moreover have "fst (relay_chunk co fetch (drop taken data) ?w2) \<and> uw_faults (ry_up (snd (relay_chunk co fetch (drop taken data) ?w2))) = []"
      using "1.IH" a u f h w True "1.prems"(2) by simp
    ultimately show ?thesis by simp
  qed
qed

lemma mitm_relay_sure:
  assumes "uw_faults (ry_up w) = []" "\<forall>r. \<not> isl (fst (fetch r))" "stream_ok (ry_stream w)" "rs_held (ry_stream w) = None"
  shows "\<exists>segs r. pending (ry_stream w) @ concat chunks = concat (map seg_in segs) \<and> list_all seg_ok segs \<and>
    fetched fetch (ry_secrets w) (concat (map seg_subs segs)) r \<and>
    uw_out (ry_up (mitm_relay co fetch chunks w)) = uw_out (ry_up w) @ concat (map (seg_out co) segs)"
  using assms(1,3,4)
proof (induction chunks arbitrary: w)
  case Nil
  then show ?case using up_write_sure [OF Nil(1), of "rs_head (ry_stream w)"]
    by (auto simp: take_pending_def pending_def intro!: exI [of _ "[Raw (rs_head (ry_stream w))]"] fetched_none)
next
  case (Cons c cs)
  obtain ok w1 where c: "relay_chunk co fetch c w = (ok, w1)" by fastforce
  have sure: "ok" "uw_faults (ry_up w1) = []"
    using relay_chunk_sure [OF Cons.prems(1) assms(2), where co = co and data = c] c by simp_all
  obtain segs where r: "pending (ry_stream w) @ c = concat (map seg_in segs) @ pending (ry_stream w1)" "list_all seg_ok segs"
    "fetched fetch (ry_secrets w) (concat (map seg_subs segs)) (ry_secrets w1)" "stream_ok (ry_stream w1)"
    "rs_held (ry_stream w1) = None" "uw_out (ry_up w1) = uw_out (ry_up w) @ concat (map (seg_out co) segs)"
    using relay_chunk_relayed [OF Cons.prems(2), of co fetch c] c sure unfolding relayed_def by auto
  obtain segs' r' where n: "pending (ry_stream w1) @ concat cs = concat (map seg_in segs')" "list_all seg_ok segs'"
    "fetched fetch (ry_secrets w1) (concat (map seg_subs segs')) r'"
    "uw_out (ry_up (mitm_relay co fetch cs w1)) = uw_out (ry_up w1) @ concat (map (seg_out co) segs')"
    using Cons.IH [of w1] sure r(4,5) by blast
  have "pending (ry_stream w) @ concat (c # cs) = (pending (ry_stream w) @ c) @ concat cs" by simp
  also have "\<dots> = concat (map seg_in (segs @ segs'))" unfolding r(1) using n(1) by simp
  finally show ?case using r n sure c fetched_append [OF r(3) n(3)]
    by (intro exI [of _ "segs @ segs'"] exI [of _ r']) simp
qed


text \<open>A request in two chunks, its placeholder replaced by the value fetched for it.\<close>

definition plain_codecs :: codecs where
  "plain_codecs = \<lparr>co_parse = (\<lambda>_. None), co_decode = (\<lambda>_. None), co_encode = id\<rparr>"


end
