(* ===== verification/Proxy_Sni.thy ===== *)
theory Proxy_Sni
  imports Proxy_Config
begin

text \<open>
  The server name in a TLS ClientHello, \<^verbatim>\<open>extract_sni\<close> in \<^verbatim>\<open>crates/shuru-proxy/src/proxy.rs\<close>. An index out of
  range panics: the outer \<open>None\<close>.
\<close>

section \<open>Indexing\<close>

definition at :: "bytes \<Rightarrow> nat \<Rightarrow> byte option" where
  "at xs i = (if i < length xs then Some (xs ! i) else None)"

definition u16_at :: "bytes \<Rightarrow> nat \<Rightarrow> nat option" where
  "u16_at xs i =
     Option.bind (at xs i) (\<lambda>a. Option.bind (at xs (i + 1)) (\<lambda>b. Some (unat (from_be_bytes [a, b] :: u16))))"

lemma at_inside: "i < length xs \<Longrightarrow> at xs i = Some (xs ! i)"
  by (simp add: at_def)

lemma u16_at_inside: "i + 1 < length xs \<Longrightarrow> u16_at xs i = Some (unat (from_be_bytes [xs ! i, xs ! (i + 1)] :: u16))"
  by (simp add: u16_at_def at_def)

section \<open>The extensions\<close>

text \<open>\<^verbatim>\<open>String::from_utf8(..).ok()\<close> on the name, the slice with the check of its range.\<close>

definition sni_name :: "bytes \<Rightarrow> nat \<Rightarrow> nat \<Rightarrow> string option option" where
  "sni_name hs a b =
     (if a \<le> b \<and> b \<le> length hs then
        Some (let name = take (b - a) (drop a hs) in if utf8_valid name then Some (text_of name) else None)
      else None)"

definition sni_extension :: "bytes \<Rightarrow> nat \<Rightarrow> nat \<Rightarrow> string option option" where
  "sni_extension hs pos ext_data_len =
     (if 5 \<le> ext_data_len \<and> pos + ext_data_len \<le> length hs then
        Option.bind (at hs (pos + 2)) (\<lambda>name_type.
          if name_type = 0 then
            Option.bind (u16_at hs (pos + 3)) (\<lambda>name_len.
              if pos + 5 + name_len \<le> length hs then sni_name hs (pos + 5) (pos + 5 + name_len) else Some None)
          else Some None)
      else Some None)"

function sni_extensions :: "bytes \<Rightarrow> nat \<Rightarrow> nat \<Rightarrow> string option option" where
  "sni_extensions hs pos ext_end =
     (if pos + 4 \<le> ext_end \<and> pos + 4 \<le> length hs then
        Option.bind (u16_at hs pos) (\<lambda>ext_type.
        Option.bind (u16_at hs (pos + 2)) (\<lambda>ext_data_len.
          if ext_type = 0 then sni_extension hs (pos + 4) ext_data_len
          else sni_extensions hs (pos + 4 + ext_data_len) ext_end))
      else Some None)"
  by pat_completeness auto
termination
  by (relation "measure (\<lambda>(hs, pos, ext_end). length hs - pos)") auto

declare sni_extensions.simps [simp del]

section \<open>The fields before them\<close>

text \<open>The three variable fields of the handshake, each behind its length, and the length of the extensions.\<close>

definition sni_handshake :: "bytes \<Rightarrow> string option option" where
  "sni_handshake hs =
     (if length hs < 38 \<or> length hs \<le> 38 then Some None
      else
        Option.bind (at hs 38) (\<lambda>session_id_len.
          let pos = 38 + 1 + unat session_id_len
          in if length hs < pos + 2 then Some None
             else
               Option.bind (u16_at hs pos) (\<lambda>cs_len.
                 let pos = pos + 2 + cs_len
                 in if length hs \<le> pos then Some None
                    else
                      Option.bind (at hs pos) (\<lambda>cm_len.
                        let pos = pos + 1 + unat cm_len
                        in if length hs < pos + 2 then Some None
                           else
                             Option.bind (u16_at hs pos) (\<lambda>ext_len.
                               sni_extensions hs (pos + 2) (pos + 2 + ext_len))))))"

definition extract_sni :: "bytes \<Rightarrow> string option option" where
  "extract_sni data =
     (if length data < 5 then Some None
      else
        Option.bind (at data 0) (\<lambda>content_type.
          if content_type \<noteq> 0x16 then Some None
          else
            Option.bind (u16_at data 3) (\<lambda>record_len.
              if length data < 5 + record_len then Some None
              else
                let hs = drop 5 data
                in if hs = [] then Some None
                   else
                     Option.bind (at hs 0) (\<lambda>msg_type. if msg_type \<noteq> 1 then Some None else sni_handshake hs))))"

section \<open>Every read is in range\<close>

lemma sni_extension_total: "sni_extension hs pos n \<noteq> None"
  by (auto simp: sni_extension_def at_inside u16_at_inside sni_name_def)

lemma sni_extensions_total: "sni_extensions hs pos fin \<noteq> None"
proof (induction hs pos fin rule: sni_extensions.induct)
  case (1 hs pos fin)
  show ?case
  proof (cases "pos + 4 \<le> fin \<and> pos + 4 \<le> length hs")
    case True
    then obtain t n where tn: "u16_at hs pos = Some t" "u16_at hs (pos + 2) = Some n" by (simp add: u16_at_inside)
    show ?thesis
    proof (cases "t = 0")
      case True
      then show ?thesis using sni_extension_total tn by (subst sni_extensions.simps) auto
    next
      case False
      then have "sni_extensions hs (pos + 4 + n) fin \<noteq> None" using 1 True tn by blast
      then show ?thesis using False tn by (subst sni_extensions.simps) auto
    qed
  next
    case False
    then show ?thesis by (subst sni_extensions.simps) auto
  qed
qed

lemma sni_handshake_total: "sni_handshake hs \<noteq> None"
  using sni_extensions_total by (auto simp: sni_handshake_def Let_def at_inside u16_at_inside)

lemma extract_sni_total: "extract_sni data \<noteq> None"
proof (cases "length data < 5")
  case False
  then have "data \<noteq> []" by auto
  with False obtain t n where "at data 0 = Some t" "u16_at data 3 = Some n" by (auto simp: at_def u16_at_inside)
  then show ?thesis using sni_handshake_total by (auto simp: extract_sni_def Let_def at_def)
qed (simp add: extract_sni_def)

section \<open>A ClientHello\<close>

text \<open>
  The parts of a ClientHello as \<^verbatim>\<open>RFC 8446\<close> has them. The extensions before the server name may be of any other type.
\<close>

record client_hello =
  ch_prefix :: bytes
  ch_session_id :: bytes
  ch_cipher_suites :: bytes
  ch_compression :: bytes
  ch_before :: "(u16 \<times> bytes) list"
  ch_name :: string
  ch_after :: bytes

definition be16 :: "nat \<Rightarrow> bytes" where
  "be16 n = to_be_bytes (word_of_nat n :: u16)"

definition extension_bytes :: "u16 \<times> bytes \<Rightarrow> bytes" where
  "extension_bytes e = to_be_bytes (fst e) @ be16 (length (snd e)) @ snd e"

definition server_name :: "string \<Rightarrow> bytes" where
  "server_name name = extension_bytes (0, be16 (3 + length name) @ [0] @ be16 (length name) @ ascii name)"

definition hello_extensions :: "client_hello \<Rightarrow> bytes" where
  "hello_extensions c = concat (map extension_bytes (ch_before c)) @ server_name (ch_name c) @ ch_after c"

text \<open>The prefix is the type and length of the message, the version and the random.\<close>

definition hello_message :: "client_hello \<Rightarrow> bytes" where
  "hello_message c =
     ch_prefix c @ [word_of_nat (length (ch_session_id c))] @ ch_session_id c @
     be16 (length (ch_cipher_suites c)) @ ch_cipher_suites c @
     [word_of_nat (length (ch_compression c))] @ ch_compression c @
     be16 (length (hello_extensions c)) @ hello_extensions c"

definition record_bytes :: "bytes \<Rightarrow> bytes" where
  "record_bytes payload = [0x16, 3, 1] @ be16 (length payload) @ payload"

definition hello_ok :: "client_hello \<Rightarrow> bool" where
  "hello_ok c \<longleftrightarrow>
     length (ch_prefix c) = 38 \<and> hd (ch_prefix c) = 1 \<and> length (ch_session_id c) < 256 \<and>
     length (ch_compression c) < 256 \<and> length (hello_message c) < 2 ^ 16 \<and> utf8_valid (ascii (ch_name c)) \<and>
     list_all (\<lambda>e. fst e \<noteq> 0) (ch_before c)"

lemma length_be16 [simp]: "length (be16 n) = 2"
  by (simp add: be16_def)

lemma be16_pair: "n < 2 ^ 16 \<Longrightarrow> unat (from_be_bytes [be16 n ! 0, be16 n ! 1] :: u16) = n"
proof -
  have "[be16 n ! 0, be16 n ! 1] = be16 n" by (rule nth_equalityI) (auto simp: less_Suc_eq)
  moreover assume "n < 2 ^ 16"
  ultimately show ?thesis by (simp add: be16_def codec_simps unat_of_nat)
qed

lemma u16_at_be16: "n < 2 ^ 16 \<Longrightarrow> length xs = pos \<Longrightarrow> u16_at (xs @ be16 n @ ys) pos = Some n"
  using be16_pair [of n] by (simp add: u16_at_inside nth_append)

lemma u16_at_type: "length xs = pos \<Longrightarrow> u16_at (xs @ to_be_bytes (t :: u16) @ ys) pos = Some (unat t)"
  using u16_at_be16 [of "unat t" xs pos ys] unat_word_bound [of t] by (simp add: be16_def)

lemma at_byte: "length xs = pos \<Longrightarrow> at (xs @ b # ys) pos = Some b"
  by (simp add: at_def nth_append)

lemma skip_extension:
  assumes "length xs = pos" "fst e \<noteq> 0" "length (snd e) < 2 ^ 16" "pos + 4 \<le> fin"
  shows "sni_extensions (xs @ extension_bytes e @ ys) pos fin =
    sni_extensions (xs @ extension_bytes e @ ys) (pos + length (extension_bytes e)) fin"
proof -
  have e: "xs @ extension_bytes e @ ys = xs @ to_be_bytes (fst e) @ be16 (length (snd e)) @ snd e @ ys"
    "xs @ extension_bytes e @ ys = (xs @ to_be_bytes (fst e)) @ be16 (length (snd e)) @ snd e @ ys"
    by (simp_all add: extension_bytes_def)
  have "u16_at (xs @ extension_bytes e @ ys) pos = Some (unat (fst e))" unfolding e(1) by (rule u16_at_type [OF assms(1)])
  moreover have "u16_at (xs @ extension_bytes e @ ys) (pos + 2) = Some (length (snd e))"
    unfolding e(2) by (rule u16_at_be16 [OF assms(3)]) (simp add: assms(1))
  moreover have "unat (fst e) \<noteq> 0" using assms(2) by (simp add: unat_eq_0)
  moreover have "length (extension_bytes e) = 4 + length (snd e)" by (simp add: extension_bytes_def)
  ultimately show ?thesis using assms(1,4) by (subst sni_extensions.simps) (simp add: add.assoc)
qed

lemma skip_extensions:
  assumes "length xs = pos" "list_all (\<lambda>e. fst e \<noteq> 0) es" "pos + length (concat (map extension_bytes es)) \<le> fin"
    "\<forall>e \<in> set es. length (snd e) < 2 ^ 16"
  shows "sni_extensions (xs @ concat (map extension_bytes es) @ ys) pos fin =
    sni_extensions (xs @ concat (map extension_bytes es) @ ys) (pos + length (concat (map extension_bytes es))) fin"
  using assms
proof (induction es arbitrary: xs pos)
  case (Cons e es)
  have "pos + 4 \<le> fin" using Cons.prems(3) by (simp add: extension_bytes_def)
  then have "sni_extensions (xs @ extension_bytes e @ concat (map extension_bytes es) @ ys) pos fin =
      sni_extensions ((xs @ extension_bytes e) @ concat (map extension_bytes es) @ ys) (pos + length (extension_bytes e)) fin"
    using skip_extension [of xs pos e fin] Cons.prems by simp
  also have "\<dots> = sni_extensions ((xs @ extension_bytes e) @ concat (map extension_bytes es) @ ys)
      (pos + length (extension_bytes e) + length (concat (map extension_bytes es))) fin"
    using Cons.prems by (intro Cons.IH) simp_all
  finally show ?case by (simp add: add.assoc)
qed simp

lemma read_server_name:
  assumes "length xs = pos" "length name + 5 < 2 ^ 16" "utf8_valid (ascii name)" "pos + 4 \<le> fin"
  shows "sni_extensions (xs @ server_name name @ ys) pos fin = Some (Some name)"
proof -
  let ?n = "length name" and ?hs = "xs @ server_name name @ ys"
  have l: "length (be16 (3 + ?n) @ [0] @ be16 ?n @ ascii name) = ?n + 5" by simp
  have s: "?hs = xs @ to_be_bytes (0 :: u16) @ be16 (?n + 5) @ be16 (3 + ?n) @ [0] @ be16 ?n @ ascii name @ ys"
    "?hs = (xs @ to_be_bytes (0 :: u16)) @ be16 (?n + 5) @ be16 (3 + ?n) @ [0] @ be16 ?n @ ascii name @ ys"
    "?hs = (xs @ to_be_bytes (0 :: u16) @ be16 (?n + 5) @ be16 (3 + ?n)) @ 0 # be16 ?n @ ascii name @ ys"
    "?hs = (xs @ to_be_bytes (0 :: u16) @ be16 (?n + 5) @ be16 (3 + ?n) @ [0]) @ be16 ?n @ ascii name @ ys"
    "?hs = (xs @ to_be_bytes (0 :: u16) @ be16 (?n + 5) @ be16 (3 + ?n) @ [0] @ be16 ?n) @ ascii name @ ys"
    unfolding server_name_def extension_bytes_def fst_conv snd_conv l by simp_all
  have len: "length ?hs = pos + 9 + ?n + length ys" unfolding s(1) by (simp add: assms(1))
  have "u16_at ?hs pos = Some 0" unfolding s(1) using u16_at_type [OF assms(1), of 0] by simp
  moreover have "u16_at ?hs (pos + 2) = Some (?n + 5)"
    unfolding s(2) by (rule u16_at_be16) (use assms in simp_all)
  moreover have "at ?hs (pos + 4 + 2) = Some 0" unfolding s(3) by (rule at_byte) (simp add: assms(1))
  moreover have "u16_at ?hs (pos + 4 + 3) = Some ?n" unfolding s(4) by (rule u16_at_be16) (use assms in simp_all)
  moreover have "take ?n (drop (pos + 4 + 5) ?hs) = ascii name" unfolding s(5) by (simp add: assms(1))
  then have "sni_name ?hs (pos + 4 + 5) (pos + 4 + 5 + ?n) = Some (Some name)"
    using len assms(3) by (simp add: sni_name_def Let_def text_of_ascii)
  ultimately show ?thesis using len assms(4)
    by (subst sni_extensions.simps) (simp add: sni_extension_def)
qed

lemma hello_parts:
  assumes "hello_ok c"
  shows "length (hello_extensions c) < 2 ^ 16" "length (ch_cipher_suites c) < 2 ^ 16"
    "\<forall>e \<in> set (ch_before c). length (snd e) < 2 ^ 16" "length (ch_name c) + 5 < 2 ^ 16"
proof -
  have m: "length (hello_message c) < 2 ^ 16" using assms by (simp add: hello_ok_def)
  show "length (hello_extensions c) < 2 ^ 16" "length (ch_cipher_suites c) < 2 ^ 16"
    using m by (simp_all add: hello_message_def)
  then have e: "length (concat (map extension_bytes (ch_before c))) + length (server_name (ch_name c)) < 2 ^ 16"
    by (simp add: hello_extensions_def)
  show "\<forall>e \<in> set (ch_before c). length (snd e) < 2 ^ 16"
  proof
    fix e assume "e \<in> set (ch_before c)"
    then have "length (extension_bytes e) \<le> length (concat (map extension_bytes (ch_before c)))"
      by (simp add: length_concat member_le_sum_list)
    then show "length (snd e) < 2 ^ 16" using e by (simp add: extension_bytes_def)
  qed
  show "length (ch_name c) + 5 < 2 ^ 16" using e by (simp add: server_name_def extension_bytes_def)
qed

lemma handshake_sni:
  assumes "hello_ok c"
  shows "sni_handshake (hello_message c @ extra) = Some (Some (ch_name c))"
proof -
  note p = hello_parts [OF assms]
  have ok: "length (ch_prefix c) = 38" "length (ch_session_id c) < 256" "length (ch_compression c) < 256"
    "utf8_valid (ascii (ch_name c))" "list_all (\<lambda>e. fst e \<noteq> 0) (ch_before c)"
    using assms by (simp_all add: hello_ok_def)
  let ?hs = "hello_message c @ extra" and ?sid = "ch_session_id c" and ?cs = "ch_cipher_suites c" and ?cm = "ch_compression c"
  define a where "a = ch_prefix c @ [word_of_nat (length ?sid)] @ ?sid"
  define b where "b = a @ be16 (length ?cs) @ ?cs"
  define d where "d = b @ [word_of_nat (length ?cm)] @ ?cm"
  define x where "x = d @ be16 (length (hello_extensions c))"
  have h: "?hs = ch_prefix c @ word_of_nat (length ?sid) # drop 39 a @ be16 (length ?cs) @ ?cs @ [word_of_nat (length ?cm)] @ ?cm @
        be16 (length (hello_extensions c)) @ hello_extensions c @ extra"
    "?hs = a @ be16 (length ?cs) @ ?cs @ [word_of_nat (length ?cm)] @ ?cm @ be16 (length (hello_extensions c)) @ hello_extensions c @ extra"
    "?hs = b @ word_of_nat (length ?cm) # ?cm @ be16 (length (hello_extensions c)) @ hello_extensions c @ extra"
    "?hs = d @ be16 (length (hello_extensions c)) @ hello_extensions c @ extra"
    "?hs = x @ concat (map extension_bytes (ch_before c)) @ server_name (ch_name c) @ ch_after c @ extra"
    using ok(1) by (simp_all add: hello_message_def hello_extensions_def a_def b_def d_def x_def)
  have len: "length a = 38 + 1 + length ?sid" "length b = length a + 2 + length ?cs" "length d = length b + 1 + length ?cm"
    "length x = length d + 2" "length ?hs = length x + length (hello_extensions c) + length extra"
    unfolding h(4) by (simp_all add: a_def b_def d_def x_def ok(1))
  have r: "at ?hs 38 = Some (word_of_nat (length ?sid))" unfolding h(1) by (rule at_byte [OF ok(1)])
  have r2: "u16_at ?hs (length a) = Some (length ?cs)" unfolding h(2) by (rule u16_at_be16 [OF p(2) refl])
  have r3: "at ?hs (length b) = Some (word_of_nat (length ?cm))" unfolding h(3) by (rule at_byte [OF refl])
  have r4: "u16_at ?hs (length d) = Some (length (hello_extensions c))" unfolding h(4) by (rule u16_at_be16 [OF p(1) refl])
  have w: "unat (word_of_nat (length ?sid) :: byte) = length ?sid" "unat (word_of_nat (length ?cm) :: byte) = length ?cm"
    using ok(2,3) by (simp_all add: unat_of_nat)
  have "sni_handshake ?hs = sni_extensions ?hs (length x) (length x + length (hello_extensions c))"
    using r r2 r3 r4 len w by (simp add: sni_handshake_def Let_def flip: len)
  also have "\<dots> = Some (Some (ch_name c))"
  proof -
    let ?e = "concat (map extension_bytes (ch_before c))"
    have fin: "length x + length ?e + 4 \<le> length x + length (hello_extensions c)"
      by (simp add: hello_extensions_def server_name_def extension_bytes_def)
    have "sni_extensions ?hs (length x) (length x + length (hello_extensions c)) =
        sni_extensions ((x @ ?e) @ server_name (ch_name c) @ ch_after c @ extra) (length x + length ?e) (length x + length (hello_extensions c))"
      unfolding h(5) using fin by (subst skip_extensions [OF refl ok(5) _ p(3)]) simp_all
    also have "\<dots> = Some (Some (ch_name c))" by (rule read_server_name [OF _ p(4) ok(4) fin]) simp
    finally show ?thesis .
  qed
  finally show ?thesis .
qed

lemma extract_sni_message:
  assumes "hello_ok c" "n < 2 ^ 16" "n \<le> length (hello_message c @ extra)"
  shows "extract_sni ([0x16, 3, 1] @ be16 n @ hello_message c @ extra) = Some (Some (ch_name c))"
proof -
  let ?m = "hello_message c" and ?data = "[0x16, 3, 1] @ be16 n @ hello_message c @ extra"
  have p: "hd (ch_prefix c) = 1" "ch_prefix c \<noteq> []" using assms(1) by (auto simp: hello_ok_def)
  have "at ?data 0 = Some 0x16" by (simp add: at_def)
  moreover have "u16_at ?data 3 = Some n" by (rule u16_at_be16 [OF assms(2)]) simp
  moreover have "drop 5 ?data = ?m @ extra" by simp
  moreover have "at (?m @ extra) 0 = Some 1" "?m @ extra \<noteq> []"
    using p by (cases "ch_prefix c"; simp add: at_def hello_message_def)+
  moreover have "length ?data = 5 + length (?m @ extra)" by simp
  ultimately show ?thesis using handshake_sni [OF assms(1)] assms(3) by (simp add: extract_sni_def Let_def)
qed

lemma extract_sni_hello:
  "hello_ok c \<Longrightarrow> extract_sni (record_bytes (hello_message c) @ extra) = Some (Some (ch_name c))"
  using extract_sni_message [of c "length (hello_message c)" extra] by (simp add: record_bytes_def hello_ok_def)

text \<open>
  C4. The proxy reads the server name of every well-formed ClientHello in one record, whatever extensions come before it
  and whatever follows the record, and no input at all makes it read out of range.
\<close>

theorem sni_of_hello:
  assumes "hello_ok c"
  shows "extract_sni (record_bytes (hello_message c) @ extra) = Some (Some (ch_name c)) \<and> extract_sni data \<noteq> None"
  using extract_sni_hello [OF assms] extract_sni_total by blast

definition sample_hello :: client_hello where
  "sample_hello =
     \<lparr>ch_prefix = 1 # replicate 37 0, ch_session_id = [9], ch_cipher_suites = [0x13, 1], ch_compression = [0],
      ch_before = [(0xff01, [0])], ch_name = ''a.io'', ch_after = []\<rparr>"

lemma sample_hello_ok: "hello_ok sample_hello"
  by (simp add: hello_ok_def sample_hello_def hello_message_def hello_extensions_def server_name_def extension_bytes_def ascii_def)

theorem sni_of_hello_witness:
  "hello_ok sample_hello \<and> extract_sni (record_bytes (hello_message sample_hello) @ [0x14]) = Some (Some ''a.io'')"
proof -
  show ?thesis using sni_of_hello [OF sample_hello_ok, of "[0x14]" "[]"] sample_hello_ok by (simp add: sample_hello_def)
qed

lemma to_be_bytes_u16: "to_be_bytes (w :: u16) = [word_of_nat (unat w div 256), word_of_nat (unat w)]"
  by (simp add: to_be_bytes_def to_le_bytes_def numeral_2_eq_2)

lemma be16_small: "n < 256 \<Longrightarrow> be16 n = [0, word_of_nat n]"
  by (simp add: be16_def to_be_bytes_u16 unat_of_nat)

text \<open>
  A ClientHello for \<^verbatim>\<open>evil.io\<close>. Read five bytes late, the end of its first extension and the header of its second make up
  the header of a server name, \<^verbatim>\<open>ok.io\<close>.
\<close>

definition fronted_hello :: client_hello where
  "fronted_hello =
     \<lparr>ch_prefix = 1 # replicate 37 0, ch_session_id = [], ch_cipher_suites = [0x13, 1], ch_compression = [0],
      ch_before = [(0x1234, replicate 16 0xaa @ [0, 0, 0, 10, 0]), (0x0800, ascii ''ok.io'')],
      ch_name = ''evil.io'', ch_after = []\<rparr>"

lemma fronted_message:
  "hello_message fronted_hello =
     1 # replicate 37 0 @ [0, 0, 2, 0x13, 1, 1, 0, 0, 50, 0x12, 0x34, 0, 21] @ replicate 16 0xaa @
     [0, 0, 0, 10, 0, 8, 0, 0, 5, 111, 107, 46, 105, 111, 0, 0, 0, 12, 0, 10, 0, 0, 7, 101, 118, 105, 108, 46, 105, 111]"
  by (simp add: fronted_hello_def hello_message_def hello_extensions_def server_name_def extension_bytes_def ascii_def
      be16_small to_be_bytes_u16)

definition seen_hello :: client_hello where
  "seen_hello = fronted_hello
     \<lparr>ch_before := [(0x1234, replicate 9 0xaa @ [0x16, 3, 1, 0, 37] @ replicate 7 0xaa)],
      ch_name := ''ok.io'', ch_after := [0, 0, 0, 12, 0, 10, 0, 0, 7, 101, 118]\<rparr>"

lemma seen_message:
  "hello_message seen_hello =
     1 # replicate 37 0 @ [0, 0, 2, 0x13, 1, 1, 0, 0, 50, 0x12, 0x34, 0, 21] @
     replicate 9 0xaa @ [0x16, 3, 1, 0, 37] @ replicate 7 0xaa @
     [0, 0, 0, 10, 0, 8, 0, 0, 5, 111, 107, 46, 105, 111, 0, 0, 0, 12, 0, 10, 0, 0, 7, 101, 118]"
  by (simp add: seen_hello_def fronted_hello_def hello_message_def hello_extensions_def server_name_def extension_bytes_def
      ascii_def be16_small to_be_bytes_u16)

text \<open>
  C5. The name depends on how the handshake is cut into records: the header of a second record is taken for part of the
  first message, so a ClientHello for one host is read as one for another when it is split inside an extension.
\<close>

theorem split_hello_misread:
  "hello_ok fronted_hello \<and>
   extract_sni (record_bytes (hello_message fronted_hello)) = Some (Some ''evil.io'') \<and>
   extract_sni (record_bytes (take 60 (hello_message fronted_hello)) @ record_bytes (drop 60 (hello_message fronted_hello))) =
     Some (Some ''ok.io'')"
proof -
  let ?m = "hello_message fronted_hello"
  have ok: "hello_ok fronted_hello"
    unfolding hello_ok_def fronted_message by (simp add: fronted_hello_def ascii_def)
  have "extract_sni (record_bytes ?m @ []) = Some (Some ''evil.io'')"
    using extract_sni_hello [OF ok, of "[]"] by (simp add: fronted_hello_def)
  moreover have "record_bytes (take 60 ?m) @ record_bytes (drop 60 ?m) =
      [0x16, 3, 1] @ be16 60 @ hello_message seen_hello @ [105, 108, 46, 105, 111]"
    unfolding fronted_message seen_message record_bytes_def by (simp add: be16_small numeral_eq_Suc)
  moreover have name: "ch_name seen_hello = ''ok.io''" by (simp add: seen_hello_def)
  have len: "60 \<le> length (hello_message seen_hello)" unfolding seen_message by simp
  have "hello_ok seen_hello"
    unfolding hello_ok_def seen_message by (simp add: seen_hello_def fronted_hello_def ascii_def)
  then have "extract_sni ([0x16, 3, 1] @ be16 60 @ hello_message seen_hello @ [105, 108, 46, 105, 111]) = Some (Some ''ok.io'')"
    using extract_sni_message [of seen_hello 60 "[105, 108, 46, 105, 111]"] name len by simp
  ultimately show ?thesis using ok by simp
qed

end
