(* ===== verification/Proxy_Engine.thy ===== *)
theory Proxy_Engine
  imports Proxy_Relay Proxy_Sni
begin

text \<open>
  The decisions of the proxy: which connections of the guest \<^verbatim>\<open>handle_connection\<close> lets out and where to, and what
  \<^verbatim>\<open>crates/shuru-proxy/src/dns.rs\<close> answers and pins. \<^verbatim>\<open>simple_dns\<close> and the \<^verbatim>\<open>lru\<close> cache are parameters, as are the
  answers of the network and of TLS.
\<close>

section \<open>Parameters\<close>

record socket_addr =
  sa_ip :: ip_addr
  sa_port :: u16

text \<open>
  What the code reads of a packet, \<^verbatim>\<open>None\<close> for one that does not parse; \<open>dl_reply\<close> is the reply to a query with one
  A record, \<open>dl_forward\<close> the answer of the resolver.
\<close>

datatype qtype = TypeA | TypeAAAA | OtherType nat

record dns_packet =
  dp_questions :: "(string \<times> qtype) list"
  dp_answers :: "ipv4 list"

record dns_lib =
  dl_parse :: "bytes \<Rightarrow> dns_packet option"
  dl_reply :: "bytes \<Rightarrow> ipv4 \<Rightarrow> bytes option"
  dl_forward :: "bytes \<Rightarrow> ipv4 \<Rightarrow> io_error + bytes"

text \<open>
  The cache of addresses. What the proxy relies on: a lookup tells what the cache holds and adds nothing, and a put
  adds nothing but its address; either may evict.
\<close>

record 'c lru_ops =
  lru_get :: "ipv4 \<Rightarrow> 'c \<Rightarrow> bool \<times> 'c"
  lru_put :: "ipv4 \<Rightarrow> 'c \<Rightarrow> 'c"

definition lru_ok :: "'c lru_ops \<Rightarrow> ('c \<Rightarrow> ipv4 set) \<Rightarrow> bool" where
  "lru_ok ops holds \<longleftrightarrow>
     (\<forall>ip c. fst (lru_get ops ip c) = (ip \<in> holds c) \<and> holds (snd (lru_get ops ip c)) \<subseteq> holds c) \<and>
     (\<forall>ip c. holds (lru_put ops ip c) \<subseteq> insert ip (holds c))"

section \<open>DNS\<close>

datatype dns_error = BadPacket | EmptyQuery | QueryTooShort | ReplyFailed | ForwardFailed io_error

definition build_response_with_rcode :: "bytes \<Rightarrow> byte \<Rightarrow> dns_error + bytes" where
  "build_response_with_rcode query rcode =
     (if length query < 12 then Inl QueryTooShort
      else Inr (query[2 := query ! 2 OR 0x80, 3 := (query ! 3 AND 0xf0) OR (rcode AND 0x0f)]))"

definition build_empty_response :: "bytes \<Rightarrow> dns_error + bytes" where
  "build_empty_response query = build_response_with_rcode query 0"

definition build_refused_response :: "bytes \<Rightarrow> dns_error + bytes" where
  "build_refused_response query = build_response_with_rcode query 5"

definition build_a_response :: "dns_lib \<Rightarrow> bytes \<Rightarrow> ipv4 \<Rightarrow> dns_error + bytes" where
  "build_a_response lib query addr =
     (case dl_parse lib query of
        None \<Rightarrow> Inl BadPacket
      | Some p \<Rightarrow>
          if dp_questions p = [] then Inl EmptyQuery
          else (case dl_reply lib query addr of None \<Rightarrow> Inl ReplyFailed | Some bs \<Rightarrow> Inr bs))"

definition pin_resolved_ips :: "dns_lib \<Rightarrow> 'c lru_ops \<Rightarrow> bytes \<Rightarrow> 'c \<Rightarrow> 'c" where
  "pin_resolved_ips lib lru response c =
     (case dl_parse lib response of
        None \<Rightarrow> c
      | Some p \<Rightarrow> fold (lru_put lru) (dp_answers p) c)"

definition trim_dots :: "string \<Rightarrow> string" where
  "trim_dots s = rev (dropWhile (\<lambda>c. c = CHR ''.'') (rev s))"

definition resolve_query ::
  "dns_lib \<Rightarrow> 'c lru_ops \<Rightarrow> proxy_config \<Rightarrow> bytes \<Rightarrow> 'c \<Rightarrow> (dns_error + bytes) \<times> 'c"
where
  "resolve_query lib lru config query c =
     (case dl_parse lib query of
        None \<Rightarrow> (Inl BadPacket, c)
      | Some p \<Rightarrow>
          (case dp_questions p of
             [] \<Rightarrow> (Inl EmptyQuery, c)
           | (qname, qtype) # _ \<Rightarrow>
               let domain = trim_dots qname
               in if qtype = TypeAAAA then (build_empty_response query, c)
                  else if domain = ''host.shuru.internal'' then (build_a_response lib query gateway, c)
                  else if \<not> is_domain_allowed config domain then (build_refused_response query, c)
                  else
                    (case dl_forward lib query (pc_dns_resolver config) of
                       Inl e \<Rightarrow> (Inl (ForwardFailed e), c)
                     | Inr response \<Rightarrow>
                         (Inr response, if has_allowlist config then pin_resolved_ips lib lru response c else c))))"

text \<open>\<^verbatim>\<open>handle_dns_query\<close>: the response for the guest, if any.\<close>

definition handle_dns_query ::
  "dns_lib \<Rightarrow> 'c lru_ops \<Rightarrow> proxy_config \<Rightarrow> bytes \<Rightarrow> 'c \<Rightarrow> bytes option \<times> 'c"
where
  "handle_dns_query lib lru config query c =
     (case resolve_query lib lru config query c of
        (Inl e, c) \<Rightarrow> (None, c)
      | (Inr resp, c) \<Rightarrow> (Some resp, c))"

section \<open>A connection\<close>

text \<open>
  The answers the connection gets: \<open>on_connect\<close> of the network, \<open>on_acceptor\<close> of the certificate authority, \<open>on_accept\<close>
  the plaintext of the guest behind the TLS handshake on its chunks, \<open>on_upstream_tls\<close> of the handshake upstream,
  \<open>on_fetch\<close> what the secrets answer from one call to the next, \<open>on_faults\<close> of the writes upstream.
\<close>

record 'r outside =
  on_connect :: "socket_addr \<Rightarrow> io_error option"
  on_acceptor :: "string \<Rightarrow> bool"
  on_accept :: "bytes list \<Rightarrow> bytes list option"
  on_upstream_tls :: "string \<Rightarrow> bool"
  on_fetch :: "string \<Rightarrow> 'r fetch"
  on_faults :: "nat option list"

datatype conn_error =
    NotPublic
  | NotPinned
  | EarlyClose
  | Panicked
  | SniNotAllowed string
  | NoSni
  | SecretsFailed secret_error
  | ConnectFailed io_error
  | WriteFailed
  | NoAcceptor
  | AcceptFailed
  | UpstreamTlsFailed

text \<open>
  How a connection ended: the result, where it connected, what it wrote there, whether that was behind its own TLS, the
  name it told the log, and whether the guest was told to close.
\<close>

record outcome =
  oc_result :: "conn_error + unit"
  oc_upstream :: "socket_addr option"
  oc_sent :: bytes
  oc_mitm :: "string option"
  oc_host :: "string option"
  oc_closed :: bool

definition no_outcome :: outcome where
  "no_outcome = \<lparr>oc_result = Inr (), oc_upstream = None, oc_sent = [], oc_mitm = None, oc_host = None, oc_closed = False\<rparr>"

definition blocked :: "conn_error \<Rightarrow> outcome \<Rightarrow> outcome" where
  "blocked e out = out\<lparr>oc_result := Inl e, oc_closed := True\<rparr>"

definition failed :: "conn_error \<Rightarrow> outcome \<Rightarrow> outcome" where
  "failed e out = out\<lparr>oc_result := Inl e\<rparr>"

text \<open>\<^verbatim>\<open>TcpStream::connect\<close>, the bytes already read, then the relay.\<close>

definition tunnel :: "'r outside \<Rightarrow> socket_addr \<Rightarrow> bytes \<Rightarrow> bytes list \<Rightarrow> outcome \<Rightarrow> outcome" where
  "tunnel net dst first chunks out =
     (case on_connect net dst of
        Some e \<Rightarrow> failed (ConnectFailed e) out
      | None \<Rightarrow>
          (case (if first = [] then (True, \<lparr>uw_out = [], uw_faults = on_faults net\<rparr>)
                 else up_write first \<lparr>uw_out = [], uw_faults = on_faults net\<rparr>) of
             (ok, u) \<Rightarrow>
               if \<not> ok then failed WriteFailed (out\<lparr>oc_upstream := Some dst, oc_sent := uw_out u\<rparr>)
               else out\<lparr>oc_upstream := Some dst, oc_sent := uw_out (blind_relay chunks u), oc_closed := True\<rparr>))"

definition handle_mitm ::
  "codecs \<Rightarrow> 'r outside \<Rightarrow> socket_addr \<Rightarrow> string \<Rightarrow> bytes \<Rightarrow> substitution list \<Rightarrow> bytes list \<Rightarrow> outcome \<times> 'r \<Rightarrow> outcome \<times> 'r"
where
  "handle_mitm co net dst domain first substitutions chunks x =
     (case x of
        (out, r) \<Rightarrow>
          if \<not> on_acceptor net domain then (failed NoAcceptor out, r)
          else
            (case on_accept net (first # chunks) of
               None \<Rightarrow> (failed AcceptFailed out, r)
             | Some plain \<Rightarrow>
                 (case on_connect net dst of
                    Some e \<Rightarrow> (failed (ConnectFailed e) out, r)
                  | None \<Rightarrow>
                      if \<not> on_upstream_tls net domain then (failed UpstreamTlsFailed (out\<lparr>oc_upstream := Some dst\<rparr>), r)
                      else
                        let w = mitm_relay co (on_fetch net domain) plain
                              \<lparr>ry_stream = request_stream_new substitutions,
                               ry_up = \<lparr>uw_out = [], uw_faults = on_faults net\<rparr>, ry_secrets = r\<rparr>
                        in (out\<lparr>oc_upstream := Some dst, oc_sent := uw_out (ry_up w), oc_mitm := Some domain, oc_closed := True\<rparr>,
                            ry_secrets w))))"

text \<open>The loop that waits for the rest of the first TLS record.\<close>

fun read_record :: "bytes \<Rightarrow> bytes list \<Rightarrow> bytes \<times> bytes list" where
  "read_record buf [] = (buf, [])"
| "read_record buf (chunk # rest) =
     (if 5 \<le> length buf \<and> length buf < 5 + unat (from_be_bytes [buf ! 3, buf ! 4] :: u16)
      then read_record (buf @ chunk) rest
      else (buf, chunk # rest))"

definition handle_tls ::
  "codecs \<Rightarrow> proxy_config \<Rightarrow> 'r outside \<Rightarrow> socket_addr \<Rightarrow> bytes list \<Rightarrow> 'r \<Rightarrow> outcome \<times> 'r"
where
  "handle_tls co config net dst chunks r =
     (case chunks of
        [] \<Rightarrow> (failed EarlyClose no_outcome, r)
      | first # rest \<Rightarrow>
          (case read_record first rest of
             (buf, rest) \<Rightarrow>
               (case extract_sni buf of
                  None \<Rightarrow> (failed Panicked no_outcome, r)
                | Some None \<Rightarrow>
                    if has_allowlist config then (blocked NoSni no_outcome, r)
                    else (tunnel net dst buf rest no_outcome, r)
                | Some (Some domain) \<Rightarrow>
                    let out = no_outcome\<lparr>oc_host := Some domain\<rparr>
                    in if has_allowlist config \<and> \<not> is_domain_allowed config domain
                       then (blocked (SniNotAllowed domain) out, r)
                       else
                         (case on_fetch net domain r of
                            (Inl e, r) \<Rightarrow> (blocked (SecretsFailed e) out, r)
                          | (Inr subs, r) \<Rightarrow>
                              if subs = [] then (tunnel net dst buf rest out, r)
                              else handle_mitm co net dst domain buf subs rest (out, r)))))"

definition localhost :: ip_addr where
  "localhost = V4 (Ipv4 127 0 0 1)"

definition exposed :: "proxy_config \<Rightarrow> socket_addr \<Rightarrow> u16 option" where
  "exposed config dst = (case sa_ip dst of V4 ip \<Rightarrow> exposed_host_port config ip (sa_port dst) | _ \<Rightarrow> None)"

text \<open>The check against the pinned addresses: the lookup changes the recency of the cache.\<close>

definition check_pinned :: "'c lru_ops \<Rightarrow> proxy_config \<Rightarrow> socket_addr \<Rightarrow> 'c \<Rightarrow> bool \<times> 'c" where
  "check_pinned lru config dst c =
     (if has_allowlist config then
        case sa_ip dst of
          V4 ip \<Rightarrow> if ip = gateway then (True, c) else lru_get lru ip c
        | _ \<Rightarrow> (True, c)
      else (True, c))"

definition handle_connection ::
  "codecs \<Rightarrow> 'c lru_ops \<Rightarrow> proxy_config \<Rightarrow> 'r outside \<Rightarrow> socket_addr \<Rightarrow> bytes list \<Rightarrow> 'c \<times> 'r \<Rightarrow> outcome \<times> 'c \<times> 'r"
where
  "handle_connection co lru config net dst chunks x =
     (case x of
        (c, r) \<Rightarrow>
          if pc_public_only config \<and> \<not> is_public (sa_ip dst) then (blocked NotPublic no_outcome, c, r)
          else
            (case exposed config dst of
               Some host_port \<Rightarrow> (tunnel net \<lparr>sa_ip = localhost, sa_port = host_port\<rparr> [] chunks no_outcome, c, r)
             | None \<Rightarrow>
                 (case check_pinned lru config dst c of
                    (is_allowed, c) \<Rightarrow>
                      if \<not> is_allowed then (blocked NotPinned no_outcome, c, r)
                      else if sa_port dst = 443 then
                        (case handle_tls co config net dst chunks r of (out, r) \<Rightarrow> (out, c, r))
                      else (tunnel net dst [] chunks no_outcome, c, r))))"

section \<open>The engine\<close>

text \<open>
  What the engine is given, in the order the queries and the connections reach the cache of addresses: a DNS query, or a
  connection with what the guest sends on it.
\<close>

datatype 'r engine_event = DnsEv bytes | ConnEv socket_addr "bytes list" "'r outside"

fun engine_step ::
  "dns_lib \<Rightarrow> codecs \<Rightarrow> 'c lru_ops \<Rightarrow> proxy_config \<Rightarrow> 'r engine_event \<Rightarrow> 'c \<times> 'r \<Rightarrow> 'c \<times> 'r"
where
  "engine_step lib co lru config (DnsEv query) (c, r) = (snd (handle_dns_query lib lru config query c), r)"
| "engine_step lib co lru config (ConnEv dst chunks net) (c, r) =
     snd (handle_connection co lru config net dst chunks (c, r))"

definition engine_run ::
  "dns_lib \<Rightarrow> codecs \<Rightarrow> 'c lru_ops \<Rightarrow> proxy_config \<Rightarrow> 'r engine_event list \<Rightarrow> 'c \<times> 'r \<Rightarrow> 'c \<times> 'r"
where
  "engine_run lib co lru config = fold (engine_step lib co lru config)"

text \<open>An address that the resolver gave for a query of the guest about a domain it may reach.\<close>

definition answered :: "dns_lib \<Rightarrow> proxy_config \<Rightarrow> bytes \<Rightarrow> ipv4 \<Rightarrow> bool" where
  "answered lib config query ip \<longleftrightarrow>
     (\<exists>p qname qtype rest response p'.
        dl_parse lib query = Some p \<and> dp_questions p = (qname, qtype) # rest \<and> qtype \<noteq> TypeAAAA \<and>
        is_domain_allowed config (trim_dots qname) \<and> dl_forward lib query (pc_dns_resolver config) = Inr response \<and>
        dl_parse lib response = Some p' \<and> ip \<in> set (dp_answers p'))"

lemma fold_put_holds: "lru_ok lru holds \<Longrightarrow> holds (fold (lru_put lru) ips c) \<subseteq> set ips \<union> holds c"
proof (induction ips arbitrary: c)
  case (Cons ip ips)
  then have "holds (lru_put lru ip c) \<subseteq> insert ip (holds c)" by (simp add: lru_ok_def)
  then show ?case using Cons.IH [OF Cons.prems, of "lru_put lru ip c"] by auto
qed simp

lemma dns_pins:
  assumes "lru_ok lru holds" "ip \<in> holds (snd (handle_dns_query lib lru config query c))"
  shows "ip \<in> holds c \<or> answered lib config query ip"
proof (cases "ip \<in> holds c")
  case False
  obtain res c' where r: "resolve_query lib lru config query c = (res, c')" by fastforce
  then have "ip \<in> holds c'" using assms(2) by (cases res) (auto simp: handle_dns_query_def)
  then have "c' \<noteq> c" using False by auto
  with r obtain p qname qtype rest response p' where q: "dl_parse lib query = Some p" "dp_questions p = (qname, qtype) # rest"
    "qtype \<noteq> TypeAAAA" "is_domain_allowed config (trim_dots qname)" "dl_forward lib query (pc_dns_resolver config) = Inr response"
    "dl_parse lib response = Some p'" "c' = fold (lru_put lru) (dp_answers p') c"
    by (auto simp: resolve_query_def pin_resolved_ips_def Let_def split: option.splits list.splits if_splits sum.splits prod.splits)
  then have "ip \<in> set (dp_answers p')" using fold_put_holds [OF assms(1), of "dp_answers p'" c] \<open>ip \<in> holds c'\<close> False by auto
  then show ?thesis using q unfolding answered_def by blast
qed simp

lemma connection_pins:
  assumes "lru_ok lru holds"
  shows "holds (fst (snd (handle_connection co lru config net dst chunks (c, r)))) \<subseteq> holds c"
proof -
  have "holds (snd (check_pinned lru config dst c)) \<subseteq> holds c"
    using assms by (auto simp: check_pinned_def lru_ok_def split: ip_addr.splits)
  then show ?thesis by (auto simp: handle_connection_def split: option.splits prod.splits)
qed

lemma engine_pins:
  assumes "lru_ok lru holds" "ip \<in> holds (fst (engine_run lib co lru config events (c, r)))"
  shows "ip \<in> holds c \<or> (\<exists>query. DnsEv query \<in> set events \<and> answered lib config query ip)"
  using assms(2)
proof (induction events arbitrary: c r)
  case (Cons e events)
  obtain c1 r1 where s: "engine_step lib co lru config e (c, r) = (c1, r1)" by fastforce
  then have rest: "ip \<in> holds c1 \<or> (\<exists>query. DnsEv query \<in> set events \<and> answered lib config query ip)"
    using Cons by (auto simp: engine_run_def)
  show ?case
  proof (cases e)
    case (DnsEv query)
    then show ?thesis using rest s dns_pins [OF assms(1), of ip lib config query c] by auto
  next
    case (ConnEv dst chunks net)
    then have "c1 = fst (snd (handle_connection co lru config net dst chunks (c, r)))" using s by simp
    then have "holds c1 \<subseteq> holds c" using connection_pins [OF assms(1)] by simp
    then show ?thesis using rest by auto
  qed
qed (simp add: engine_run_def)

section \<open>Where a connection goes and what it sends\<close>

lemmas outcome_simps = no_outcome_def blocked_def failed_def

lemma tunnel_upstream: "oc_upstream (tunnel net dst first chunks out) = Some a \<Longrightarrow> oc_upstream out = None \<Longrightarrow> a = dst"
  by (auto simp: tunnel_def failed_def split: option.splits prod.splits if_splits)

lemma mitm_upstream: "oc_upstream (fst (handle_mitm co net dst domain first subs chunks (out, r))) = Some a \<Longrightarrow> oc_upstream out = None \<Longrightarrow> a = dst"
  by (auto simp: handle_mitm_def failed_def Let_def split: option.splits if_splits)

text \<open>The bytes the name is read from.\<close>

definition first_record :: "bytes list \<Rightarrow> bytes" where
  "first_record chunks = (case chunks of [] \<Rightarrow> [] | first # rest \<Rightarrow> fst (read_record first rest))"

lemma tls_upstream:
  assumes "oc_upstream (fst (handle_tls co config net dst chunks r)) = Some a"
  shows "a = dst \<and> (has_allowlist config \<longrightarrow>
    (\<exists>domain. extract_sni (first_record chunks) = Some (Some domain) \<and> is_domain_allowed config domain))"
proof -
  obtain first rest where c: "chunks = first # rest"
    using assms by (cases chunks) (auto simp: handle_tls_def outcome_simps)
  obtain buf rest' where b: "read_record first rest = (buf, rest')" by fastforce
  obtain sni where sni: "extract_sni buf = Some sni" using extract_sni_total [of buf] by auto
  show ?thesis
  proof (cases sni)
    case None
    then show ?thesis using assms c b sni
      by (auto simp: handle_tls_def first_record_def no_outcome_def blocked_def dest: tunnel_upstream split: if_splits)
  next
    case (Some domain)
    then show ?thesis using assms c b sni
      by (auto simp: handle_tls_def first_record_def Let_def no_outcome_def blocked_def dest!: tunnel_upstream mitm_upstream
          split: if_splits prod.splits sum.splits)
  qed
qed


text \<open>A name server that gives one address for every name, a cache that forgets nothing, and a network that lets everything through.\<close>

definition sample_lib :: dns_lib where
  "sample_lib = \<lparr>dl_parse = (\<lambda>_. Some \<lparr>dp_questions = [(''a.io.'', TypeA)], dp_answers = [Ipv4 93 184 216 34]\<rparr>),
                 dl_reply = (\<lambda>q _. Some q), dl_forward = (\<lambda>q _. Inr q)\<rparr>"

definition list_lru :: "ipv4 list lru_ops" where
  "list_lru = \<lparr>lru_get = (\<lambda>ip c. (ip \<in> set c, c)), lru_put = (#)\<rparr>"

definition open_net :: "unit outside" where
  "open_net = \<lparr>on_connect = (\<lambda>_. None), on_acceptor = (\<lambda>_. True), on_accept = Some, on_upstream_tls = (\<lambda>_. True),
               on_fetch = (\<lambda>_ _. (Inr [], ())), on_faults = []\<rparr>"


lemma tunnel_sent: "oc_sent out = [] \<Longrightarrow> prefix (oc_sent (tunnel net dst first chunks out)) (first @ concat chunks) \<and>
    oc_mitm (tunnel net dst first chunks out) = oc_mitm out"
proof -
  assume empty: "oc_sent out = []"
  let ?u = "\<lparr>uw_out = [], uw_faults = on_faults net\<rparr>"
  obtain ok u where u: "(if first = [] then (True, ?u) else up_write first ?u) = (ok, u)" by fastforce
  then have o: "ok \<longrightarrow> uw_out u = first" "prefix (uw_out u) first" using up_write_out [of first ?u ok u] by (auto split: if_splits)
  have "prefix (uw_out (blind_relay chunks u)) (uw_out u @ concat chunks)" using blind_relay_prefix by blast
  then show ?thesis using o u empty by (auto simp: tunnel_def failed_def split: option.splits)
qed

lemma read_record_concat: "read_record buf chunks = (buf', rest) \<Longrightarrow> buf' @ concat rest = buf @ concat chunks"
  by (induction buf chunks rule: read_record.induct) (auto split: if_splits)

lemma mitm_sent:
  assumes "handle_mitm co net dst domain first subs chunks (out, r) = (out', r')" "oc_sent out = []" "oc_mitm out = None"
  shows "oc_mitm out' = Some domain \<or> oc_mitm out' = None \<and> oc_sent out' = []"
  using assms by (auto simp: handle_mitm_def failed_def Let_def split: option.splits if_splits)


text \<open>A connection to a domain with a secret, which rewrites the one head the guest sends.\<close>

definition secret_net :: "unit outside" where
  "secret_net = open_net\<lparr>on_accept := (\<lambda>_. Some [ascii ''tok'' @ HEAD_END]),
     on_fetch := (\<lambda>_ _. (Inr [\<lparr>su_placeholder = ''tok'', su_value = ''v'', su_scope = ScopeHead\<rparr>], ()))\<rparr>"


text \<open>The errors the proxy decides on itself, as against those of a call that failed.\<close>

fun deliberate :: "conn_error \<Rightarrow> bool" where
  "deliberate NotPublic = True"
| "deliberate NotPinned = True"
| "deliberate (SniNotAllowed domain) = True"
| "deliberate NoSni = True"
| "deliberate (SecretsFailed e) = True"
| "deliberate e = False"

definition guest_told :: "outcome \<Rightarrow> bool" where
  "guest_told out \<longleftrightarrow> (case oc_result out of
     Inr _ \<Rightarrow> oc_closed out
   | Inl e \<Rightarrow> (oc_closed out \<longleftrightarrow> deliberate e) \<and> e \<noteq> Panicked \<and> (deliberate e \<longrightarrow> oc_upstream out = None \<and> oc_sent out = []))"

lemma blocked_told: "deliberate e \<Longrightarrow> oc_upstream out = None \<Longrightarrow> oc_sent out = [] \<Longrightarrow> guest_told (blocked e out)"
  by (auto simp: guest_told_def blocked_def)

lemma tunnel_told: "oc_result out = Inr () \<Longrightarrow> oc_closed out = False \<Longrightarrow> guest_told (tunnel net dst first chunks out)"
  by (auto simp: guest_told_def tunnel_def failed_def split: option.splits prod.splits)

lemma mitm_told: "oc_result out = Inr () \<Longrightarrow> oc_closed out = False \<Longrightarrow> guest_told (fst (handle_mitm co net dst domain first subs chunks (out, r)))"
  by (auto simp: guest_told_def handle_mitm_def failed_def Let_def split: option.splits)

lemma tls_told: "guest_told (fst (handle_tls co config net dst chunks r))"
proof (cases chunks)
  case (Cons first rest)
  obtain buf rest' where b: "read_record first rest = (buf, rest')" by fastforce
  obtain sni where sni: "extract_sni buf = Some sni" using extract_sni_total [of buf] by auto
  have new: "oc_result (no_outcome\<lparr>oc_host := h\<rparr>) = Inr ()" "oc_closed (no_outcome\<lparr>oc_host := h\<rparr>) = False"
    "oc_result no_outcome = Inr ()" "oc_closed no_outcome = False" "oc_upstream no_outcome = None" "oc_sent no_outcome = []" for h
    by (simp_all add: no_outcome_def)
  show ?thesis using Cons b sni new tunnel_told [of no_outcome] tunnel_told [of "no_outcome\<lparr>oc_host := sni\<rparr>"]
      mitm_told [of "no_outcome\<lparr>oc_host := sni\<rparr>"]
    by (cases sni) (auto simp: handle_tls_def Let_def intro!: blocked_told split: prod.splits sum.splits)
qed (simp add: handle_tls_def guest_told_def failed_def no_outcome_def)

text \<open>
  C6. The guest is told of the end of every connection that was relayed or that the proxy refused, and of no other: one whose
  connect, TLS handshake or first write fails ends without a close. A refused connection reached nothing and sent
  nothing, and none panics.
\<close>

theorem guest_told_unless_call_fails:
  "guest_told (fst (handle_connection co lru config net dst chunks (c, r)))"
proof -
  obtain ok c1 where p: "check_pinned lru config dst c = (ok, c1)" by fastforce
  have new: "oc_result no_outcome = Inr ()" "oc_closed no_outcome = False" by (simp_all add: no_outcome_def)
  have "guest_told (blocked NotPublic no_outcome)" "guest_told (blocked NotPinned no_outcome)"
    by (simp_all add: guest_told_def blocked_def no_outcome_def)
  then show ?thesis using p tunnel_told [OF new] tls_told [of co config net dst chunks r]
    by (auto simp: handle_connection_def split: option.splits prod.splits)
qed

text \<open>A query for a domain off the list is answered with its own bytes, marked a refusal, and pins nothing.\<close>

lemma refused_query:
  assumes "dl_parse lib query = Some p" "dp_questions p = (qname, qtype) # rest" "qtype \<noteq> TypeAAAA"
    "trim_dots qname \<noteq> ''host.shuru.internal''" "\<not> is_domain_allowed config (trim_dots qname)" "12 \<le> length query"
  shows "\<exists>resp. handle_dns_query lib lru config query c = (Some resp, c) \<and> length resp = length query \<and>
    (\<forall>i < length query. i \<noteq> 2 \<and> i \<noteq> 3 \<longrightarrow> resp ! i = query ! i) \<and> resp ! 3 AND 0x0f = 5"
proof -
  have "(x AND 0xf0 OR 5) AND 0x0f = 5" for x :: byte
    by (simp add: bit.conj_disj_distrib2 and.assoc)
  then show ?thesis using assms
    by (simp add: handle_dns_query_def resolve_query_def Let_def build_refused_response_def build_response_with_rcode_def)
qed

end
