(* ===== verification/Store_Cas.thy ===== *)
theory Store_Cas
  imports Shuru_Prelude
begin

text \<open>
  The content-addressed disk of a sandbox, \<^verbatim>\<open>crates/shuru-store/src/cas.rs\<close> and \<^verbatim>\<open>backend.rs\<close>: the store of
  chunks in a directory, the index of a disk, and the backend that reads and writes a disk through
  its unwritten chunks, its index, the indexes it descends from and a flat file. The hash function is a
  third-party crate and a parameter, with what the code relies on in \<open>collision_free\<close>.
\<close>

definition CHUNK_SIZE :: nat where
  "CHUNK_SIZE = 64 * 1024"

definition ZERO_CHUNK_HASH :: string where
  "ZERO_CHUNK_HASH = ''ZERO''"

definition div_ceil :: "nat \<Rightarrow> nat \<Rightarrow> nat" where
  "div_ceil a b = (a + b - 1) div b"

text \<open>The operator \<^verbatim>\<open>?\<close> on a fallible step that changes a state: an error ends the function, a value goes on.\<close>

definition and_then :: "('e + 'a) \<times> 's \<Rightarrow> ('a \<Rightarrow> 's \<Rightarrow> ('e + 'b) \<times> 's) \<Rightarrow> ('e + 'b) \<times> 's" where
  "and_then m k = (case m of (r, s) \<Rightarrow> (case r of Inl e \<Rightarrow> (Inl e, s) | Inr x \<Rightarrow> k x s))"

lemma and_then_simps [simp]:
  "and_then (Inl e, s) k = (Inl e, s)"
  "and_then (Inr x, s) k = k x s"
  by (simp_all add: and_then_def)

lemma and_then_cases:
  assumes "and_then m k = (r, s')"
  obtains (fails) e where "m = (Inl e, s')" "r = Inl e"
    | (goes) x s where "m = (Inr x, s)" "k x s = (r, s')"
  using assms by (cases m; cases "fst m") (auto simp: and_then_def)

section \<open>Chunk stores\<close>

text \<open>
  The two operations of \<^verbatim>\<open>trait ChunkStore\<close>. A call may change the state of the store even when it fails.
\<close>

record 's store_ops =
  so_put :: "bytes \<Rightarrow> 's \<Rightarrow> (io_error + string) \<times> 's"
  so_get :: "string \<Rightarrow> 's \<Rightarrow> (io_error + bytes option) \<times> 's"

text \<open>
  The store in a local directory. \<open>ls_files\<close> is what the directory has; the two lists say which of the
  coming calls fails, a \<^verbatim>\<open>put\<close> at one of its steps: opening the partial file, writing it (after some bytes),
  syncing it, renaming it to the name of the chunk, and syncing the directory. \<open>ls_next\<close> is the static
  counter that names partial files.
\<close>

datatype put_step = OpenPartial | WriteData nat | SyncData | RenameChunk | SyncDir

record local_store =
  ls_files :: "string \<Rightarrow> bytes option"
  ls_next :: u64
  ls_pid :: nat
  ls_put_faults :: "(put_step \<times> io_error) option list"
  ls_get_faults :: "io_error option list"

definition next_fault :: "'a option list \<Rightarrow> 'a option \<times> 'a option list" where
  "next_fault fs = (case fs of [] \<Rightarrow> (None, []) | f # rest \<Rightarrow> (f, rest))"

definition partial_name :: "nat \<Rightarrow> u64 \<Rightarrow> string" where
  "partial_name pid seq = ''.partial-'' @ decimal pid @ ''-'' @ decimal (unat seq)"

text \<open>The directory when a \<^verbatim>\<open>put\<close> that got past the opening stops at a step, or ends.\<close>

fun put_files ::
  "put_step option \<Rightarrow> string \<Rightarrow> string \<Rightarrow> bytes \<Rightarrow> (string \<Rightarrow> bytes option) \<Rightarrow> string \<Rightarrow> bytes option"
where
  "put_files (Some OpenPartial) partial hex d files = files"
| "put_files (Some (WriteData n)) partial hex d files = files(partial \<mapsto> take n d)"
| "put_files (Some SyncData) partial hex d files = files(partial \<mapsto> d)"
| "put_files (Some RenameChunk) partial hex d files = files(partial \<mapsto> d)"
| "put_files (Some SyncDir) partial hex d files = files(partial := None, hex \<mapsto> d)"
| "put_files None partial hex d files = files(partial := None, hex \<mapsto> d)"

definition local_put :: "(bytes \<Rightarrow> string) \<Rightarrow> bytes \<Rightarrow> local_store \<Rightarrow> (io_error + string) \<times> local_store" where
  "local_put hash d s =
     (let hex = hash d
      in if ls_files s hex \<noteq> None then (Inr hex, s)
         else
           let partial = partial_name (ls_pid s) (ls_next s)
           in case next_fault (ls_put_faults s) of
                (fault, rest) \<Rightarrow>
                  let s = s\<lparr>ls_next := ls_next s + 1, ls_put_faults := rest\<rparr>;
                      files = put_files (map_option fst fault) partial hex d (ls_files s)
                  in if ls_files s partial \<noteq> None then (Inl OtherError, s)
                     else
                       case fault of
                         None \<Rightarrow> (Inr hex, s\<lparr>ls_files := files\<rparr>)
                       | Some (OpenPartial, e) \<Rightarrow> (Inl e, s)
                       | Some (_, e) \<Rightarrow> (Inl e, s\<lparr>ls_files := files(partial := None)\<rparr>))"

definition local_get :: "string \<Rightarrow> local_store \<Rightarrow> (io_error + bytes option) \<times> local_store" where
  "local_get h s =
     (case next_fault (ls_get_faults s) of
        (fault, rest) \<Rightarrow>
          ((case fault of Some e \<Rightarrow> Inl e | None \<Rightarrow> Inr (ls_files s h)), s\<lparr>ls_get_faults := rest\<rparr>))"

definition local_ops :: "(bytes \<Rightarrow> string) \<Rightarrow> local_store store_ops" where
  "local_ops hash = \<lparr>so_put = local_put hash, so_get = local_get\<rparr>"

section \<open>The index of a disk\<close>

record chunk_index =
  ci_hashes :: "string list"
  ci_disk_size :: u64
  ci_parent :: "string option"
  ci_fallback :: "string option"

definition index_new :: "u64 \<Rightarrow> chunk_index" where
  "index_new disk_size =
     \<lparr>ci_hashes = replicate (div_ceil (unat disk_size) CHUNK_SIZE) ZERO_CHUNK_HASH,
      ci_disk_size = disk_size, ci_parent = None, ci_fallback = None\<rparr>"

definition get_hash :: "chunk_index \<Rightarrow> nat \<Rightarrow> string option" where
  "get_hash ix i = (if i < length (ci_hashes ix) then Some (ci_hashes ix ! i) else None)"

definition set_hash :: "nat \<Rightarrow> string \<Rightarrow> chunk_index \<Rightarrow> chunk_index" where
  "set_hash i h ix = (if i < length (ci_hashes ix) then ix\<lparr>ci_hashes := (ci_hashes ix)[i := h]\<rparr> else ix)"

text \<open>\<^verbatim>\<open>get_hash(i).unwrap_or(ZERO_CHUNK_HASH)\<close>.\<close>

definition hash_at :: "chunk_index \<Rightarrow> nat \<Rightarrow> string" where
  "hash_at ix i = (case get_hash ix i of Some h \<Rightarrow> h | None \<Rightarrow> ZERO_CHUNK_HASH)"

text \<open>
  The file of an index: the size of the disk, the number of chunks, the two paths and the hashes, each text
  behind its length.
\<close>

definition text_bytes :: "string \<Rightarrow> bytes" where
  "text_bytes s = to_le_bytes (word_of_nat (length s) :: u32) @ ascii s"

definition index_bytes :: "chunk_index \<Rightarrow> bytes" where
  "index_bytes ix =
     to_le_bytes (ci_disk_size ix) @ to_le_bytes (word_of_nat (length (ci_hashes ix)) :: u64) @
     text_bytes (case ci_parent ix of Some p \<Rightarrow> p | None \<Rightarrow> []) @
     text_bytes (case ci_fallback ix of Some p \<Rightarrow> p | None \<Rightarrow> []) @
     concat (map text_bytes (ci_hashes ix))"

datatype index_error = IndexIo io_error | ChunkCount | NotUtf8

definition read_index :: "nat \<Rightarrow> reader \<Rightarrow> (index_error + bytes) \<times> reader" where
  "read_index n r = (case read_exact n r of (Inl e, r) \<Rightarrow> (Inl (IndexIo e), r) | (Inr bs, r) \<Rightarrow> (Inr bs, r))"

definition read_text :: "reader \<Rightarrow> (index_error + string) \<times> reader" where
  "read_text r =
     and_then (read_index 4 r) (\<lambda>n.
     (\<lambda>r. and_then (read_index (unat (from_le_bytes n :: u32)) r) (\<lambda>bs r.
       ((case from_utf8 bs of Some s \<Rightarrow> Inr s | None \<Rightarrow> Inl NotUtf8), r))))"

fun read_texts :: "nat \<Rightarrow> reader \<Rightarrow> (index_error + string list) \<times> reader" where
  "read_texts 0 r = (Inr [], r)"
| "read_texts (Suc n) r =
     and_then (read_text r) (\<lambda>s r. and_then (read_texts n r) (\<lambda>ss r. (Inr (s # ss), r)))"

definition path_of :: "string \<Rightarrow> string option" where
  "path_of s = (if s = [] then None else Some s)"

definition index_load :: "reader \<Rightarrow> index_error + chunk_index" where
  "index_load r =
     fst (and_then (read_index 8 r) (\<lambda>width r.
          and_then (read_index 8 r) (\<lambda>count r.
            let disk_size = from_le_bytes width :: u64; num_chunks = unat (from_le_bytes count :: u64)
            in if num_chunks \<noteq> div_ceil (unat disk_size) CHUNK_SIZE then (Inl ChunkCount, r)
               else
                 and_then (read_text r) (\<lambda>parent r.
                 and_then (read_text r) (\<lambda>fallback r.
                 and_then (read_texts num_chunks r) (\<lambda>hashes r.
                   (Inr \<lparr>ci_hashes = hashes, ci_disk_size = disk_size,
                         ci_parent = path_of parent, ci_fallback = path_of fallback\<rparr>, r)))))))"

text \<open>
  The files the indexes are in. A write that fails leaves the bytes it got to; \<open>None\<close> as the limit is a
  write that succeeds.
\<close>

type_synonym index_files = "string \<Rightarrow> reader option"

definition index_save ::
  "(nat \<times> io_error) option \<Rightarrow> string \<Rightarrow> chunk_index \<Rightarrow> index_files \<Rightarrow> (index_error + unit) \<times> index_files"
where
  "index_save fault path ix files =
     (case fault of
        None \<Rightarrow> (Inr (), files(path \<mapsto> \<lparr>rd_bytes = index_bytes ix, rd_end = None\<rparr>))
      | Some (n, e) \<Rightarrow> (Inl (IndexIo e), files(path \<mapsto> \<lparr>rd_bytes = take n (index_bytes ix), rd_end = None\<rparr>)))"

definition index_open :: "index_files \<Rightarrow> string \<Rightarrow> index_error + chunk_index" where
  "index_open files path = (case files path of None \<Rightarrow> Inl (IndexIo OtherError) | Some r \<Rightarrow> index_load r)"

text \<open>The chain of parents is followed for as long as an index names one; \<open>None\<close> is a chain that never ends.\<close>

partial_function (option) load_parent_chain :: "index_files \<Rightarrow> string option \<Rightarrow> chunk_index list option" where
  "load_parent_chain files parent =
     (case parent of
        None \<Rightarrow> Some []
      | Some path \<Rightarrow>
          (case index_open files path of
             Inl e \<Rightarrow> Some []
           | Inr ix \<Rightarrow> Option.bind (load_parent_chain files (ci_parent ix)) (\<lambda>rest. Some (ix # rest))))"

section \<open>Flat files\<close>

text \<open>
  A file of the host, with the answers of the kernel to the coming calls: an error, or the number of bytes
  it will transfer at most. Without an answer a call transfers all it can. An offset beyond what \<^verbatim>\<open>off_t\<close>
  holds is refused.
\<close>

record flat_file =
  ff_data :: bytes
  ff_size :: nat
  ff_answers :: "(io_error + nat) list"

definition next_answer :: "nat \<Rightarrow> flat_file \<Rightarrow> (io_error + nat) \<times> flat_file" where
  "next_answer n f =
     (case ff_answers f of
        [] \<Rightarrow> (Inr n, f)
      | Inl e # rest \<Rightarrow> (Inl e, f\<lparr>ff_answers := rest\<rparr>)
      | Inr k # rest \<Rightarrow> (Inr (min k n), f\<lparr>ff_answers := rest\<rparr>))"

definition flat_open :: "bytes \<Rightarrow> (io_error + nat) list \<Rightarrow> flat_file" where
  "flat_open data answers = \<lparr>ff_data = data, ff_size = length data, ff_answers = answers\<rparr>"

definition flat_read :: "nat \<Rightarrow> nat \<Rightarrow> flat_file \<Rightarrow> (io_error + bytes) \<times> flat_file" where
  "flat_read off n f =
     (if 2 ^ 63 \<le> off then (Inl OtherError, f)
      else
        case next_answer n f of
          (Inl e, f) \<Rightarrow> (Inl e, f)
        | (Inr k, f) \<Rightarrow> (Inr (take k (drop off (ff_data f))), f))"

definition overlay :: "nat \<Rightarrow> bytes \<Rightarrow> bytes \<Rightarrow> bytes" where
  "overlay off bs d =
     (let d = (if length d < off + length bs then d @ replicate (off + length bs - length d) 0 else d)
      in take off d @ bs @ drop (off + length bs) d)"

definition flat_write :: "nat \<Rightarrow> bytes \<Rightarrow> flat_file \<Rightarrow> (io_error + nat) \<times> flat_file" where
  "flat_write off bs f =
     (if 2 ^ 63 \<le> off then (Inl OtherError, f)
      else
        case next_answer (length bs) f of
          (Inl e, f) \<Rightarrow> (Inl e, f)
        | (Inr k, f) \<Rightarrow> (Inr k, if k = 0 then f else f\<lparr>ff_data := overlay off (take k bs) (ff_data f)\<rparr>))"

definition flat_flush :: "flat_file \<Rightarrow> (io_error + unit) \<times> flat_file" where
  "flat_flush f = (case next_answer 0 f of (Inl e, f) \<Rightarrow> (Inl e, f) | (Inr _, f) \<Rightarrow> (Inr (), f))"

section \<open>The backend\<close>

text \<open>
  The unwritten chunks are an association list, in the order \<^verbatim>\<open>flush\<close> goes through them. Offsets are 64-bit
  and wrap, as in a release build.
\<close>

record 's cas =
  cb_store :: 's
  cb_index :: chunk_index
  cb_dirty :: "(nat \<times> bytes) list"
  cb_parents :: "chunk_index list"
  cb_fallback :: "flat_file option"

definition cas_new :: "index_files \<Rightarrow> 's \<Rightarrow> chunk_index \<Rightarrow> flat_file option \<Rightarrow> 's cas option" where
  "cas_new files store ix fallback =
     map_option (\<lambda>parents. \<lparr>cb_store = store, cb_index = ix, cb_dirty = [], cb_parents = parents,
                             cb_fallback = fallback\<rparr>) (load_parent_chain files (ci_parent ix))"

definition cas_size :: "'s cas \<Rightarrow> u64" where
  "cas_size b = ci_disk_size (cb_index b)"

definition set_disk_size :: "u64 \<Rightarrow> 's cas \<Rightarrow> 's cas" where
  "set_disk_size new_size b =
     (if ci_disk_size (cb_index b) < new_size then
        let num = div_ceil (unat new_size) CHUNK_SIZE; hs = ci_hashes (cb_index b)
        in b\<lparr>cb_index := (cb_index b)\<lparr>ci_hashes := hs @ replicate (num - length hs) ZERO_CHUNK_HASH,
                                     ci_disk_size := new_size\<rparr>\<rparr>
      else b)"

definition fetch_chunk :: "'s store_ops \<Rightarrow> string \<Rightarrow> 's cas \<Rightarrow> (io_error + bytes) \<times> 's cas" where
  "fetch_chunk ops h b =
     (case so_get ops h (cb_store b) of
        (r, s) \<Rightarrow>
          ((case r of
              Inr (Some d) \<Rightarrow> Inr d
            | Inr None \<Rightarrow> Inr (replicate CHUNK_SIZE 0)
            | Inl e \<Rightarrow> Inl OtherError), b\<lparr>cb_store := s\<rparr>))"

definition read_fallback :: "'s store_ops \<Rightarrow> nat \<Rightarrow> 's cas \<Rightarrow> (io_error + bytes) \<times> 's cas" where
  "read_fallback ops i b =
     (case cb_fallback b of
        None \<Rightarrow> (Inr (replicate CHUNK_SIZE 0), b)
      | Some fb \<Rightarrow>
          let off = i * CHUNK_SIZE
          in if off < ff_size fb then
               let n = min CHUNK_SIZE (ff_size fb - off)
               in case flat_read off n fb of
                    (r, fb) \<Rightarrow>
                      let b = b\<lparr>cb_fallback := Some fb\<rparr>
                      in case r of
                           Inl e \<Rightarrow> (Inl e, b)
                         | Inr buf \<Rightarrow>
                             if length buf \<noteq> n then (Inl UnexpectedEof, b)
                             else if list_all (\<lambda>x. x = 0) buf then (Inr (replicate CHUNK_SIZE 0), b)
                             else
                               (case so_put ops buf (cb_store b) of
                                  (Inl e, s) \<Rightarrow> (Inl OtherError, b\<lparr>cb_store := s\<rparr>)
                                | (Inr h, s) \<Rightarrow>
                                    (Inr buf, b\<lparr>cb_store := s, cb_index := set_hash i h (cb_index b)\<rparr>))
             else (Inr (replicate CHUNK_SIZE 0), b))"

text \<open>The hash a chunk has in the index or, failing that, in the first parent that has one.\<close>

definition resolved :: "'s cas \<Rightarrow> nat \<Rightarrow> string" where
  "resolved b i =
     (if hash_at (cb_index b) i \<noteq> ZERO_CHUNK_HASH then hash_at (cb_index b) i
      else
        case find (\<lambda>h. h \<noteq> ZERO_CHUNK_HASH) (map (\<lambda>p. hash_at p i) (cb_parents b)) of
          Some h \<Rightarrow> h
        | None \<Rightarrow> ZERO_CHUNK_HASH)"

definition read_chunk :: "'s store_ops \<Rightarrow> nat \<Rightarrow> 's cas \<Rightarrow> (io_error + bytes) \<times> 's cas" where
  "read_chunk ops i b =
     (case map_of (cb_dirty b) i of
        Some d \<Rightarrow> (Inr d, b)
      | None \<Rightarrow>
          if resolved b i \<noteq> ZERO_CHUNK_HASH then fetch_chunk ops (resolved b i) b else read_fallback ops i b)"

lemma CHUNK_SIZE_pos: "0 < CHUNK_SIZE"
  by (simp add: CHUNK_SIZE_def)

lemma chunk_step_less: "n \<noteq> 0 \<Longrightarrow> o' = off mod CHUNK_SIZE \<Longrightarrow> k = min (CHUNK_SIZE - o') n \<Longrightarrow> n - k < n"
  using mod_less_divisor [OF CHUNK_SIZE_pos, of off] by simp

function cas_read :: "'s store_ops \<Rightarrow> nat \<Rightarrow> nat \<Rightarrow> 's cas \<Rightarrow> (io_error + bytes) \<times> 's cas" where
  "cas_read ops off n b =
     (if n = 0 then (Inr [], b)
      else
        let i = off div CHUNK_SIZE; o' = off mod CHUNK_SIZE; to_read = min (CHUNK_SIZE - o') n
        in and_then (read_chunk ops i b) (\<lambda>d b.
             let copy_len = min to_read (length d - o');
                 part = take copy_len (drop o' d) @ replicate (to_read - copy_len) 0
             in and_then (cas_read ops ((off + to_read) mod 2 ^ 64) (n - to_read) b) (\<lambda>rest b.
                  (Inr (part @ rest), b))))"
  by pat_completeness auto
termination
proof (relation "measure (\<lambda>(ops, off, n, b). n)", goal_cases)
  case (2 ops off n b i o' k d b')
  then show ?case unfolding in_measure prod.case by (intro chunk_step_less)
qed simp

declare cas_read.simps [simp del]

definition put_dirty_chunk :: "nat \<Rightarrow> bytes \<Rightarrow> 's cas \<Rightarrow> 's cas" where
  "put_dirty_chunk i d b = b\<lparr>cb_dirty := (i, d) # filter (\<lambda>(j, _). j \<noteq> i) (cb_dirty b)\<rparr>"

function cas_write :: "'s store_ops \<Rightarrow> nat \<Rightarrow> bytes \<Rightarrow> 's cas \<Rightarrow> (io_error + unit) \<times> 's cas" where
  "cas_write ops off data b =
     (if data = [] then (Inr (), b)
      else
        let i = off div CHUNK_SIZE; o' = off mod CHUNK_SIZE; to_write = min (CHUNK_SIZE - o') (length data)
        in and_then (read_chunk ops i b) (\<lambda>d b.
             cas_write ops ((off + to_write) mod 2 ^ 64) (drop to_write data)
               (put_dirty_chunk i (overlay o' (take to_write data) d) b)))"
  by pat_completeness auto
termination
proof (relation "measure (\<lambda>(ops, off, data, b). length data)", goal_cases)
  case (2 ops off data b i o' k d b')
  then show ?case unfolding in_measure prod.case length_drop by (intro chunk_step_less) simp_all
qed simp

declare cas_write.simps [simp del]

fun put_dirty :: "'s store_ops \<Rightarrow> (nat \<times> bytes) list \<Rightarrow> 's cas \<Rightarrow> (io_error + unit) \<times> 's cas" where
  "put_dirty ops [] b = (Inr (), b)"
| "put_dirty ops ((i, d) # ds) b =
     (case so_put ops d (cb_store b) of
        (Inl e, s) \<Rightarrow> (Inl OtherError, b\<lparr>cb_store := s\<rparr>)
      | (Inr h, s) \<Rightarrow> put_dirty ops ds (b\<lparr>cb_store := s, cb_index := set_hash i h (cb_index b)\<rparr>))"

definition cas_flush :: "'s store_ops \<Rightarrow> 's cas \<Rightarrow> (io_error + unit) \<times> 's cas" where
  "cas_flush ops b =
     and_then (put_dirty ops (cb_dirty b) b) (\<lambda>_ b. (Inr (), b\<lparr>cb_dirty := []\<rparr>))"

text \<open>
  A saved index stands alone: every hash is resolved, and what is still only in the flat file is put into
  the store. An index with more hashes than its size has chunks would index out of range: \<open>None\<close>.
\<close>

definition save_chunk :: "'s store_ops \<Rightarrow> nat \<Rightarrow> nat \<Rightarrow> string \<Rightarrow> 's cas \<Rightarrow> (io_error + string) \<times> 's cas" where
  "save_chunk ops len i h b =
     (if h = ZERO_CHUNK_HASH \<and> i * CHUNK_SIZE < len then
        and_then (read_chunk ops i b) (\<lambda>d b.
          if list_ex (\<lambda>x. x \<noteq> 0) d then
            (case so_put ops d (cb_store b) of (r, s) \<Rightarrow> (r, b\<lparr>cb_store := s\<rparr>))
          else (Inr h, b))
      else (Inr h, b))"

fun save_fallback ::
  "'s store_ops \<Rightarrow> nat \<Rightarrow> nat \<Rightarrow> string list \<Rightarrow> 's cas \<Rightarrow> (io_error + string list) \<times> 's cas"
where
  "save_fallback ops len i [] b = (Inr [], b)"
| "save_fallback ops len i (h # hs) b =
     and_then (save_chunk ops len i h b) (\<lambda>h b.
     and_then (save_fallback ops len (Suc i) hs b) (\<lambda>hs b. (Inr (h # hs), b)))"

definition save_index :: "'s store_ops \<Rightarrow> 's cas \<Rightarrow> (io_error + chunk_index) option \<times> 's cas" where
  "save_index ops b =
     (case cas_flush ops b of
        (Inl e, b) \<Rightarrow> (Some (Inl e), b)
      | (Inr _, b) \<Rightarrow>
          let saved = index_new (ci_disk_size (cb_index b)); n = length (ci_hashes (cb_index b))
          in if length (ci_hashes saved) < n then (None, b)
             else
               let hashes = map (resolved b) [0..<n] @ drop n (ci_hashes saved)
               in case cb_fallback b of
                    None \<Rightarrow> (Some (Inr (saved\<lparr>ci_hashes := hashes\<rparr>)), b)
                  | Some fb \<Rightarrow>
                      (case save_fallback ops (ff_size fb) 0 hashes b of
                         (Inl e, b) \<Rightarrow> (Some (Inl e), b)
                       | (Inr hashes, b) \<Rightarrow> (Some (Inr (saved\<lparr>ci_hashes := hashes\<rparr>)), b)))"

section \<open>What a store promises\<close>

text \<open>
  What the backend relies on: a chunk put is held under its name from then on, no call loses a chunk, a get
  that does not fail tells what is held. \<open>holds\<close> says what a state of the store holds.
\<close>

definition text_ok :: "string \<Rightarrow> bool" where
  "text_ok s \<longleftrightarrow> utf8_valid (ascii s) \<and> length s < 2 ^ 32"

locale chunk_store =
  fixes ops :: "'s store_ops"
    and valid :: "'s \<Rightarrow> bool"
    and holds :: "'s \<Rightarrow> string \<Rightarrow> bytes option"
  assumes put_valid: "valid s \<Longrightarrow> length d \<le> CHUNK_SIZE \<Longrightarrow> so_put ops d s = (r, s') \<Longrightarrow> valid s'"
    and put_keeps: "valid s \<Longrightarrow> so_put ops d s = (r, s') \<Longrightarrow> holds s h = Some e \<Longrightarrow> holds s' h = Some e"
    and put_holds: "valid s \<Longrightarrow> length d \<le> CHUNK_SIZE \<Longrightarrow> so_put ops d s = (Inr h, s') \<Longrightarrow>
      holds s' h = Some d \<and> h \<noteq> ZERO_CHUNK_HASH \<and> text_ok h"
    and get_valid: "valid s \<Longrightarrow> so_get ops h s = (g, s') \<Longrightarrow> valid s'"
    and get_holds: "so_get ops h s = (g, s') \<Longrightarrow> holds s' = holds s"
    and get_result: "so_get ops h s = (Inr c, s') \<Longrightarrow> c = holds s h"
    and held_size: "valid s \<Longrightarrow> holds s h = Some d \<Longrightarrow> length d \<le> CHUNK_SIZE"

text \<open>
  What the local store relies on: distinct chunks have distinct hashes, written in hexadecimal. Its
  directory is in order when every file with the name of a hash has the content of that hash.
\<close>

definition hex_name :: "string \<Rightarrow> bool" where
  "hex_name s \<longleftrightarrow> list_all (\<lambda>c. c \<in> set ''0123456789abcdef'') s"

definition collision_free :: "(bytes \<Rightarrow> string) \<Rightarrow> bool" where
  "collision_free hash \<longleftrightarrow>
     inj_on hash {d. length d \<le> CHUNK_SIZE} \<and> (\<forall>d. hex_name (hash d) \<and> length (hash d) < 2 ^ 32)"

definition files_ok :: "(bytes \<Rightarrow> string) \<Rightarrow> (string \<Rightarrow> bytes option) \<Rightarrow> bool" where
  "files_ok hash files \<longleftrightarrow>
     (\<forall>h d. files h = Some d \<longrightarrow> length d \<le> CHUNK_SIZE \<and> (hex_name h \<longrightarrow> hash d = h))"

lemma hex_name_text: "hex_name s \<Longrightarrow> utf8_valid (ascii s)"
  by (induction s) (auto simp: hex_name_def ascii_def)

lemma partial_not_hex: "\<not> hex_name (partial_name pid seq)"
  by (simp add: partial_name_def hex_name_def)

lemma put_files_ok:
  assumes "files_ok hash files" "length d \<le> CHUNK_SIZE" "files partial = None" "\<not> hex_name partial"
  shows "files_ok hash (put_files step partial (hash d) d files)"
    and "files_ok hash ((put_files step partial (hash d) d files)(partial := None))"
  using assms by (cases step; (cases "the step")?; auto simp: files_ok_def split: if_splits)+

lemma put_files_keeps:
  assumes "files h = Some e" "files partial = None" "files hex = None"
  shows "put_files step partial hex d files h = Some e \<and> ((put_files step partial hex d files)(partial := None)) h = Some e"
proof -
  have "h \<noteq> partial" "h \<noteq> hex" using assms by auto
  then show ?thesis using assms(1) by (cases step; (cases "the step")?) auto
qed

lemma local_put_cases:
  assumes "local_put hash d s = (r, s')"
  obtains (present) "ls_files s (hash d) \<noteq> None" "r = Inr (hash d)" "s' = s"
    | (refused) e where "r = Inl e" "ls_files s' = ls_files s"
    | (failed) e step partial where "r = Inl e" "ls_files s (hash d) = None" "ls_files s partial = None"
        "\<not> hex_name partial" "ls_files s' = (put_files step partial (hash d) d (ls_files s))(partial := None)"
    | (stored) partial where "r = Inr (hash d)" "ls_files s (hash d) = None" "ls_files s partial = None"
        "\<not> hex_name partial" "ls_files s' = put_files None partial (hash d) d (ls_files s)"
proof -
  obtain fault rest where f: "next_fault (ls_put_faults s) = (fault, rest)" by fastforce
  let ?p = "partial_name (ls_pid s) (ls_next s)"
  show thesis
  proof (cases "ls_files s (hash d) \<noteq> None \<or> ls_files s ?p \<noteq> None")
    case True
    then show thesis using assms present refused
      by (auto simp: local_put_def f Let_def split: if_splits)
  next
    case False
    then show thesis
    proof (cases fault)
      case None
      then show thesis using assms False partial_not_hex stored [of ?p] by (auto simp: local_put_def f Let_def)
    next
      case (Some fe)
      obtain step e where fe: "fe = (step, e)" by (cases fe)
      show thesis
      proof (cases "step = OpenPartial")
        case True
        then show thesis using assms False Some fe refused by (auto simp: local_put_def f Let_def)
      next
        case no: False
        then have "s' = s\<lparr>ls_next := ls_next s + 1, ls_put_faults := rest,
            ls_files := (put_files (Some step) ?p (hash d) d (ls_files s))(?p := None)\<rparr> \<and> r = Inl e"
          using assms False Some fe by (cases step) (auto simp: local_put_def f Let_def)
        then show thesis using False partial_not_hex by (intro failed [of e ?p "Some step"]) auto
      qed
    qed
  qed
qed

interpretation lcs: chunk_store "local_ops hash" "\<lambda>s. collision_free hash \<and> files_ok hash (ls_files s)" ls_files
  for hash
proof
  fix s s' :: local_store and d r
  assume v: "collision_free hash \<and> files_ok hash (ls_files s)" and n: "length d \<le> CHUNK_SIZE"
    and p: "so_put (local_ops hash) d s = (r, s')"
  then have "local_put hash d s = (r, s')" by (simp add: local_ops_def)
  then have "files_ok hash (ls_files s')"
  proof (cases rule: local_put_cases)
    case (failed e step partial)
    then show ?thesis using v n put_files_ok(2) by metis
  next
    case (stored partial)
    then show ?thesis using v n put_files_ok(1) by metis
  qed (use v in simp_all)
  then show "collision_free hash \<and> files_ok hash (ls_files s')" using v by simp
next
  fix s s' :: local_store and d r h e
  assume "so_put (local_ops hash) d s = (r, s')" and h: "ls_files s h = Some e"
  then have "local_put hash d s = (r, s')" by (simp add: local_ops_def)
  then show "ls_files s' h = Some e"
  proof (cases rule: local_put_cases)
    case (failed e step partial)
    then show ?thesis using put_files_keeps [of "ls_files s"] h by simp
  next
    case (stored partial)
    then show ?thesis using h by auto
  qed (use h in simp_all)
next
  fix s s' :: local_store and d h
  assume v: "collision_free hash \<and> files_ok hash (ls_files s)" and n: "length d \<le> CHUNK_SIZE"
    and p: "so_put (local_ops hash) d s = (Inr h, s')"
  then have "local_put hash d s = (Inr h, s')" by (simp add: local_ops_def)
  then have "h = hash d \<and> ls_files s' h = Some d"
  proof (cases rule: local_put_cases)
    case present
    then obtain e where e: "ls_files s (hash d) = Some e" by auto
    then have "hash e = hash d" "length e \<le> CHUNK_SIZE" using v by (auto simp: files_ok_def collision_free_def)
    then have "e = d" using v n by (auto simp: collision_free_def inj_on_def)
    then show ?thesis using present e by simp
  qed auto
  moreover have "hex_name (hash d)" "length (hash d) < 2 ^ 32" using v by (auto simp: collision_free_def)
  moreover have "\<not> hex_name ZERO_CHUNK_HASH" by (simp add: hex_name_def ZERO_CHUNK_HASH_def)
  ultimately show "ls_files s' h = Some d \<and> h \<noteq> ZERO_CHUNK_HASH \<and> text_ok h"
    using hex_name_text by (auto simp: text_ok_def)
qed (auto simp: local_ops_def local_get_def files_ok_def split: prod.splits option.splits)

section \<open>The bytes of a disk\<close>

text \<open>
  The abstract disk is a byte for every offset. A chunk shorter than it may be is zero beyond its end.
\<close>

type_synonym disk = "nat \<Rightarrow> byte"

definition disk_read :: "nat \<Rightarrow> nat \<Rightarrow> disk \<Rightarrow> bytes" where
  "disk_read off n D = map (\<lambda>k. D (off + k)) [0..<n]"

definition disk_write :: "nat \<Rightarrow> bytes \<Rightarrow> disk \<Rightarrow> disk" where
  "disk_write off bs D = (\<lambda>k. if off \<le> k \<and> k < off + length bs then bs ! (k - off) else D k)"

definition pad_byte :: "bytes \<Rightarrow> nat \<Rightarrow> byte" where
  "pad_byte d k = (if k < length d then d ! k else 0)"

definition fallback_chunk :: "flat_file option \<Rightarrow> nat \<Rightarrow> bytes" where
  "fallback_chunk f i =
     (case f of
        None \<Rightarrow> []
      | Some f \<Rightarrow> take (min CHUNK_SIZE (ff_size f - i * CHUNK_SIZE)) (drop (i * CHUNK_SIZE) (ff_data f)))"

definition base_chunk :: "('s \<Rightarrow> string \<Rightarrow> bytes option) \<Rightarrow> 's cas \<Rightarrow> nat \<Rightarrow> bytes" where
  "base_chunk holds b i =
     (if resolved b i \<noteq> ZERO_CHUNK_HASH
      then (case holds (cb_store b) (resolved b i) of Some d \<Rightarrow> d | None \<Rightarrow> [])
      else fallback_chunk (cb_fallback b) i)"

definition chunk_at :: "('s \<Rightarrow> string \<Rightarrow> bytes option) \<Rightarrow> 's cas \<Rightarrow> nat \<Rightarrow> bytes" where
  "chunk_at holds b i = (case map_of (cb_dirty b) i of Some d \<Rightarrow> d | None \<Rightarrow> base_chunk holds b i)"

definition byte_at :: "('s \<Rightarrow> string \<Rightarrow> bytes option) \<Rightarrow> 's cas \<Rightarrow> disk" where
  "byte_at holds b k = pad_byte (chunk_at holds b (k div CHUNK_SIZE)) (k mod CHUNK_SIZE)"

text \<open>
  A backend is in order when its store is, the store holds every chunk the indexes name, and its index has
  a hash for every chunk of its size.
\<close>

definition refs_held :: "(string \<Rightarrow> bytes option) \<Rightarrow> chunk_index \<Rightarrow> bool" where
  "refs_held held ix \<longleftrightarrow>
     (\<forall>h \<in> set (ci_hashes ix). text_ok h \<and> (h \<noteq> ZERO_CHUNK_HASH \<longrightarrow> held h \<noteq> None))"

definition cas_ok :: "('s \<Rightarrow> bool) \<Rightarrow> ('s \<Rightarrow> string \<Rightarrow> bytes option) \<Rightarrow> 's cas \<Rightarrow> bool" where
  "cas_ok valid holds b \<longleftrightarrow>
     valid (cb_store b) \<and>
     (\<forall>ix \<in> set (cb_index b # cb_parents b). refs_held (holds (cb_store b)) ix) \<and>
     length (ci_hashes (cb_index b)) = div_ceil (unat (ci_disk_size (cb_index b))) CHUNK_SIZE \<and>
     distinct (map fst (cb_dirty b)) \<and> (\<forall>e \<in> set (cb_dirty b). length (snd e) \<le> CHUNK_SIZE)"

definition same_but_store :: "('s \<Rightarrow> string \<Rightarrow> bytes option) \<Rightarrow> 's cas \<Rightarrow> 's cas \<Rightarrow> bool" where
  "same_but_store holds b b' \<longleftrightarrow>
     (\<forall>i. pad_byte (base_chunk holds b' i) = pad_byte (base_chunk holds b i)) \<and>
     cb_dirty b' = cb_dirty b \<and> cb_parents b' = cb_parents b \<and>
     ci_disk_size (cb_index b') = ci_disk_size (cb_index b) \<and>
     map_option ff_size (cb_fallback b') = map_option ff_size (cb_fallback b) \<and>
     (\<forall>h e. holds (cb_store b) h = Some e \<longrightarrow> holds (cb_store b') h = Some e)"

lemma same_chunk:
  "same_but_store holds b b' \<Longrightarrow> pad_byte (chunk_at holds b' i) = pad_byte (chunk_at holds b i)"
  by (simp add: same_but_store_def chunk_at_def split: option.split)

lemma same_bytes: "same_but_store holds b b' \<Longrightarrow> byte_at holds b' = byte_at holds b"
  by (simp add: byte_at_def same_chunk fun_eq_iff)

lemma same_but_store_trans:
  "same_but_store holds a b \<Longrightarrow> same_but_store holds b c \<Longrightarrow> same_but_store holds a c"
  by (simp add: same_but_store_def)

lemma pad_byte_zeros [simp]: "pad_byte (replicate n 0) = pad_byte []"
  by (auto simp: pad_byte_def)

lemma pad_byte_all_zero: "list_all (\<lambda>x. x = 0) d \<Longrightarrow> pad_byte d = pad_byte []"
  by (auto simp: pad_byte_def list_all_length)

lemma hash_at_in: "hash_at ix i \<noteq> ZERO_CHUNK_HASH \<Longrightarrow> hash_at ix i \<in> set (ci_hashes ix)"
  by (auto simp: hash_at_def get_hash_def split: if_splits)

lemma resolved_in:
  assumes "resolved b i \<noteq> ZERO_CHUNK_HASH"
  shows "\<exists>ix \<in> set (cb_index b # cb_parents b). resolved b i \<in> set (ci_hashes ix)"
proof (cases "hash_at (cb_index b) i = ZERO_CHUNK_HASH")
  case True
  then obtain h where h: "find (\<lambda>h. h \<noteq> ZERO_CHUNK_HASH) (map (\<lambda>p. hash_at p i) (cb_parents b)) = Some h" "resolved b i = h"
    using assms by (auto simp: resolved_def split: option.splits)
  then obtain p where "p \<in> set (cb_parents b)" "h = hash_at p i" "h \<noteq> ZERO_CHUNK_HASH"
    by (auto simp: find_Some_iff) (metis nth_mem)
  then show ?thesis using h(2) hash_at_in by force
next
  case False
  then show ?thesis using hash_at_in by (auto simp: resolved_def)
qed

lemma resolved_held:
  assumes "cas_ok valid holds b" "resolved b i \<noteq> ZERO_CHUNK_HASH"
  shows "\<exists>e. holds (cb_store b) (resolved b i) = Some e"
proof -
  obtain ix where ix: "ix \<in> set (cb_index b # cb_parents b)" "resolved b i \<in> set (ci_hashes ix)"
    using resolved_in [OF assms(2)] by blast
  then have "refs_held (holds (cb_store b)) ix" using assms(1) unfolding cas_ok_def by blast
  then show ?thesis using ix(2) assms(2) unfolding refs_held_def by blast
qed

lemma resolved_text:
  assumes "cas_ok valid holds b"
  shows "text_ok (resolved b i)"
proof (cases "resolved b i = ZERO_CHUNK_HASH")
  case True
  then show ?thesis by (simp add: text_ok_def ZERO_CHUNK_HASH_def ascii_def)
next
  case False
  obtain ix where ix: "ix \<in> set (cb_index b # cb_parents b)" "resolved b i \<in> set (ci_hashes ix)"
    using resolved_in [OF False] by blast
  then have "refs_held (holds (cb_store b)) ix" using assms unfolding cas_ok_def by blast
  then show ?thesis using ix(2) unfolding refs_held_def by blast
qed

lemma fallback_chunk_size: "length (fallback_chunk f i) \<le> CHUNK_SIZE"
  by (cases f) (simp_all add: fallback_chunk_def min.coboundedI2)

lemma hash_at_set_hash:
  "hash_at (set_hash i h ix) j = (if j = i \<and> i < length (ci_hashes ix) then h else hash_at ix j)"
  by (auto simp: hash_at_def get_hash_def set_hash_def)

lemma set_hash_fields [simp]:
  "length (ci_hashes (set_hash i h ix)) = length (ci_hashes ix)"
  "ci_disk_size (set_hash i h ix) = ci_disk_size ix"
  by (simp_all add: set_hash_def)

lemma refs_held_set_hash:
  "refs_held held ix \<Longrightarrow> held h \<noteq> None \<Longrightarrow> text_ok h \<Longrightarrow> refs_held held (set_hash i h ix)"
  by (auto simp: refs_held_def set_hash_def dest!: set_update_subset_insert [THEN subsetD])

lemma resolved_set_hash:
  "h \<noteq> ZERO_CHUNK_HASH \<Longrightarrow>
     resolved (b\<lparr>cb_store := s, cb_index := set_hash i h (cb_index b)\<rparr>) j =
       (if j = i \<and> i < length (ci_hashes (cb_index b)) then h else resolved b j)"
  by (simp add: resolved_def hash_at_set_hash)

context chunk_store
begin

lemma store_step:
  assumes ok: "cas_ok valid holds b" and s: "valid s" "\<And>h e. holds (cb_store b) h = Some e \<Longrightarrow> holds s h = Some e"
  shows "cas_ok valid holds (b\<lparr>cb_store := s\<rparr>) \<and> same_but_store holds b (b\<lparr>cb_store := s\<rparr>)"
proof -
  have r: "resolved (b\<lparr>cb_store := s\<rparr>) i = resolved b i" for i by (simp add: resolved_def)
  have "base_chunk holds (b\<lparr>cb_store := s\<rparr>) i = base_chunk holds b i" for i
  proof (cases "resolved b i = ZERO_CHUNK_HASH")
    case False
    obtain e where e: "holds (cb_store b) (resolved b i) = Some e" using resolved_held [OF ok False] by blast
    then show ?thesis using s(2) [OF e] by (simp add: base_chunk_def r)
  qed (simp add: base_chunk_def r)
  then have "same_but_store holds b (b\<lparr>cb_store := s\<rparr>)" using s(2) by (simp add: same_but_store_def)
  moreover have "refs_held (holds s) ix" if "ix \<in> set (cb_index b # cb_parents b)" for ix
  proof -
    have "refs_held (holds (cb_store b)) ix" using ok that unfolding cas_ok_def by blast
    then show ?thesis unfolding refs_held_def using s(2) by blast
  qed
  ultimately show ?thesis using ok s(1) by (simp add: cas_ok_def)
qed

lemma hash_step:
  fixes i :: nat
  assumes ok: "cas_ok valid holds b" and s: "valid s" "\<And>h e. holds (cb_store b) h = Some e \<Longrightarrow> holds s h = Some e"
    and h: "holds s h = Some d" "h \<noteq> ZERO_CHUNK_HASH" "text_ok h"
  defines "b' \<equiv> b\<lparr>cb_store := s, cb_index := set_hash i h (cb_index b)\<rparr>"
  shows "cas_ok valid holds b'"
    and "base_chunk holds b' j = (if j = i \<and> i < length (ci_hashes (cb_index b)) then d else base_chunk holds b j)"
proof -
  have st: "cas_ok valid holds (b\<lparr>cb_store := s\<rparr>)" using store_step [OF ok s] by blast
  then show "cas_ok valid holds b'" using h refs_held_set_hash [of "holds s" "cb_index b" h i]
    by (simp add: b'_def cas_ok_def)
  show "base_chunk holds b' j = (if j = i \<and> i < length (ci_hashes (cb_index b)) then d else base_chunk holds b j)"
  proof (cases "j = i \<and> i < length (ci_hashes (cb_index b)) \<or> resolved b j = ZERO_CHUNK_HASH")
    case True
    then show ?thesis using h resolved_set_hash [OF h(2), where b = b and s = s and i = i and j = j] by (auto simp: b'_def base_chunk_def)
  next
    case False
    then obtain e where e: "holds (cb_store b) (resolved b j) = Some e" using resolved_held [OF ok] by blast
    then show ?thesis using False s(2) [OF e] resolved_set_hash [OF h(2), where b = b and s = s and i = i and j = j]
      by (auto simp: b'_def base_chunk_def)
  qed
qed

lemma read_fallback_ok:
  assumes ok: "cas_ok valid holds b" and r: "read_fallback ops i b = (r, b')" and z: "resolved b i = ZERO_CHUNK_HASH"
  shows "cas_ok valid holds b' \<and> same_but_store holds b b' \<and>
    (\<forall>d. r = Inr d \<longrightarrow> pad_byte d = pad_byte (base_chunk holds b i) \<and> length d \<le> CHUNK_SIZE)"
proof (cases "cb_fallback b")
  case None
  then have "r = Inr (replicate CHUNK_SIZE 0)" "b' = b" using r by (simp_all add: read_fallback_def)
  then show ?thesis using ok z None by (simp add: base_chunk_def fallback_chunk_def same_but_store_def)
next
  case (Some fb)
  let ?off = "i * CHUNK_SIZE"
  let ?n = "min CHUNK_SIZE (ff_size fb - ?off)"
  show ?thesis
  proof (cases "?off < ff_size fb")
    case False
    then have "r = Inr (replicate CHUNK_SIZE 0)" "b' = b" using r Some by (simp_all add: read_fallback_def)
    then show ?thesis using ok z Some False by (simp add: base_chunk_def fallback_chunk_def same_but_store_def)
  next
    case True
    obtain q fb' where q: "flat_read ?off ?n fb = (q, fb')" by fastforce
    have fb': "ff_data fb' = ff_data fb" "ff_size fb' = ff_size fb"
      using q by (auto simp: flat_read_def next_answer_def split: if_splits list.splits sum.splits)
    let ?b = "b\<lparr>cb_fallback := Some fb'\<rparr>"
    have base: "base_chunk holds ?b j = base_chunk holds b j" for j
      by (simp add: base_chunk_def resolved_def fallback_chunk_def Some fb')
    have st: "cas_ok valid holds ?b" "same_but_store holds b ?b"
      using ok base by (simp_all add: cas_ok_def same_but_store_def Some fb')
    have buf: "buf = base_chunk holds b i" "length buf \<le> CHUNK_SIZE" if "q = Inr buf" "length buf = ?n" for buf
    proof -
      have "buf = take ?n (drop ?off (ff_data fb))" using q that
        by (auto simp: flat_read_def next_answer_def split: if_splits list.splits sum.splits)
      then show "buf = base_chunk holds b i" by (simp add: base_chunk_def z fallback_chunk_def Some)
      show "length buf \<le> CHUNK_SIZE" using that by simp
    qed
    consider e where "r = Inl e" "b' = ?b"
      | buf where "q = Inr buf" "length buf = ?n" "list_all (\<lambda>x. x = 0) buf" "r = Inr (replicate CHUNK_SIZE 0)" "b' = ?b"
      | buf e s where "q = Inr buf" "length buf = ?n" "so_put ops buf (cb_store ?b) = (Inl e, s)" "r = Inl OtherError"
          "b' = ?b\<lparr>cb_store := s\<rparr>"
      | buf h s where "q = Inr buf" "length buf = ?n" "so_put ops buf (cb_store ?b) = (Inr h, s)" "r = Inr buf"
          "b' = ?b\<lparr>cb_store := s, cb_index := set_hash i h (cb_index ?b)\<rparr>"
      using r Some True q by (auto simp: read_fallback_def Let_def split: sum.splits if_splits prod.splits)
    then show ?thesis
    proof cases
      case 1
      then show ?thesis using st by simp
    next
      case 2
      then show ?thesis using st buf [OF 2(1,2)] pad_byte_all_zero [OF 2(3)] by simp
    next
      case 3
      note s = put_valid [OF _ _ 3(3)] put_keeps [OF _ 3(3)]
      show ?thesis using store_step [OF st(1), of s] s st(1,2) buf(2) [OF 3(1,2)] 3(4,5) same_but_store_trans
        by (fastforce simp: cas_ok_def)
    next
      case 4
      have v: "valid (cb_store ?b)" using st(1) by (simp add: cas_ok_def)
      note s = put_valid [OF v buf(2) [OF 4(1,2)] 4(3)] put_keeps [OF v 4(3)] put_holds [OF v buf(2) [OF 4(1,2)] 4(3)]
      have b': "cas_ok valid holds b'" "base_chunk holds b' j = (if j = i \<and> i < length (ci_hashes (cb_index ?b)) then buf else base_chunk holds ?b j)" for j
        unfolding 4(5) using hash_step [OF st(1) s(1,2)] s(3) by blast+
      have "base_chunk holds b' j = base_chunk holds b j" for j using b'(2) [of j] base buf(1) [OF 4(1,2)] by simp
      then have "same_but_store holds b b'" using s(2) 4(5) Some fb' by (simp add: same_but_store_def)
      then show ?thesis using b'(1) buf [OF 4(1,2)] 4(4) by simp
    qed
  qed
qed

lemma fetch_chunk_ok:
  assumes ok: "cas_ok valid holds b" and r: "fetch_chunk ops (resolved b i) b = (r, b')" and z: "resolved b i \<noteq> ZERO_CHUNK_HASH"
  shows "cas_ok valid holds b' \<and> same_but_store holds b b' \<and>
    (\<forall>d. r = Inr d \<longrightarrow> pad_byte d = pad_byte (base_chunk holds b i) \<and> length d \<le> CHUNK_SIZE)"
proof -
  obtain q s where q: "so_get ops (resolved b i) (cb_store b) = (q, s)" by fastforce
  have v: "valid (cb_store b)" using ok by (simp add: cas_ok_def)
  have s: "valid s" "holds s = holds (cb_store b)" using get_valid [OF v q] get_holds [OF q] by simp_all
  have b': "b' = b\<lparr>cb_store := s\<rparr>" using r q by (simp add: fetch_chunk_def)
  obtain e where e: "holds (cb_store b) (resolved b i) = Some e" using resolved_held [OF ok z] by blast
  have "d = e" if "r = Inr d" for d
    using that r q e get_result [of "resolved b i" "cb_store b"] by (auto simp: fetch_chunk_def split: sum.splits option.splits)
  then show ?thesis using store_step [OF ok s(1)] s(2) b' e z held_size [OF v e] by (auto simp: base_chunk_def)
qed

lemma read_chunk_ok:
  assumes ok: "cas_ok valid holds b" and r: "read_chunk ops i b = (r, b')"
  shows "cas_ok valid holds b' \<and> same_but_store holds b b' \<and>
    (\<forall>d. r = Inr d \<longrightarrow> pad_byte d = pad_byte (chunk_at holds b i) \<and> length d \<le> CHUNK_SIZE)"
proof (cases "map_of (cb_dirty b) i")
  case None
  then have c: "chunk_at holds b i = base_chunk holds b i" by (simp add: chunk_at_def)
  show ?thesis
  proof (cases "resolved b i = ZERO_CHUNK_HASH")
    case True
    then show ?thesis using r None c read_fallback_ok [OF ok _ True, of r b'] by (simp add: read_chunk_def)
  next
    case False
    then show ?thesis using r None c fetch_chunk_ok [OF ok _ False, of r b'] by (simp add: read_chunk_def)
  qed
next
  case (Some d)
  then have "r = Inr d" "b' = b" using r by (simp_all add: read_chunk_def)
  moreover have "length d \<le> CHUNK_SIZE" using ok map_of_SomeD [OF Some] by (force simp: cas_ok_def)
  ultimately show ?thesis using ok Some by (simp add: chunk_at_def same_but_store_def)
qed

end

end
