(* ===== verification/Store_Disk.thy ===== *)
theory Store_Disk
  imports Store_Cas "HOL-Library.Sublist"
begin

text \<open>
  The backend of \<open>Store_Cas\<close> is a disk: reads, writes, flushes and saved indexes in terms of the byte at
  every offset, over any chunk store and so over the local one. The codec of the index, and the disk that is
  opened from a saved one.
\<close>

section \<open>Chunks of a range\<close>

lemma in_chunk:
  assumes "off < 2 ^ 64" "off mod CHUNK_SIZE + k < CHUNK_SIZE"
  shows "off + k < 2 ^ 64 \<and> (off + k) div CHUNK_SIZE = off div CHUNK_SIZE \<and>
    (off + k) mod CHUNK_SIZE = off mod CHUNK_SIZE + k"
proof -
  let ?q = "off div CHUNK_SIZE"
  have split: "off + k = ?q * CHUNK_SIZE + (off mod CHUNK_SIZE + k)" by simp
  have pow: "(2 :: nat) ^ 64 = 2 ^ 48 * CHUNK_SIZE" by (simp add: CHUNK_SIZE_def)
  then have "?q < 2 ^ 48" using assms(1) by (simp add: less_mult_imp_div_less)
  then have "Suc ?q * CHUNK_SIZE \<le> 2 ^ 48 * CHUNK_SIZE" by (intro mult_le_mono1) simp
  moreover have "off + k < Suc ?q * CHUNK_SIZE" using split assms(2) unfolding mult_Suc by linarith
  ultimately have "off + k < 2 ^ 64" unfolding pow by (rule less_le_trans [rotated])
  moreover have "(?q * CHUNK_SIZE + x) div CHUNK_SIZE = ?q" "(?q * CHUNK_SIZE + x) mod CHUNK_SIZE = x"
    if "x < CHUNK_SIZE" for x using that by simp_all
  then have "(off + k) div CHUNK_SIZE = ?q" "(off + k) mod CHUNK_SIZE = off mod CHUNK_SIZE + k"
    using assms(2) split by metis+
  ultimately show ?thesis by simp
qed

lemma chunk_part:
  "take (min n (length d - o')) (drop o' d) @ replicate (n - min n (length d - o')) 0 = map (\<lambda>k. pad_byte d (o' + k)) [0..<n]"
  by (rule nth_equalityI) (auto simp: pad_byte_def nth_append)

lemma map_upt_split: "m \<le> n \<Longrightarrow> map f [0..<n] = map f [0..<m] @ map (\<lambda>k. f (m + k)) [0..<n - m]"
  by (rule nth_equalityI) (auto simp: nth_append)

lemma chunk_range:
  assumes "off mod CHUNK_SIZE + n \<le> CHUNK_SIZE"
  shows "off \<le> k \<and> k < off + n \<longleftrightarrow>
    k div CHUNK_SIZE = off div CHUNK_SIZE \<and> off mod CHUNK_SIZE \<le> k mod CHUNK_SIZE \<and> k mod CHUNK_SIZE < off mod CHUNK_SIZE + n"
    and "off \<le> k \<and> k < off + n \<Longrightarrow> k - off = k mod CHUNK_SIZE - off mod CHUNK_SIZE"
proof -
  let ?l = "off \<le> k \<and> k < off + n"
  let ?r = "k div CHUNK_SIZE = off div CHUNK_SIZE \<and> off mod CHUNK_SIZE \<le> k mod CHUNK_SIZE \<and> k mod CHUNK_SIZE < off mod CHUNK_SIZE + n"
  have o: "off = off div CHUNK_SIZE * CHUNK_SIZE + off mod CHUNK_SIZE" and k: "k = k div CHUNK_SIZE * CHUNK_SIZE + k mod CHUNK_SIZE"
    by simp_all
  have q: "k div CHUNK_SIZE = off div CHUNK_SIZE" if "?l"
  proof (rule div_nat_eqI)
    show "CHUNK_SIZE * (off div CHUNK_SIZE) \<le> k" using that o by (metis div_times_less_eq_dividend mult.commute order_trans)
    show "k < CHUNK_SIZE * Suc (off div CHUNK_SIZE)" using that o assms unfolding mult_Suc_right mult.commute [of CHUNK_SIZE] by linarith
  qed
  show "?l \<longleftrightarrow> ?r"
  proof
    assume l: ?l
    have "k = off div CHUNK_SIZE * CHUNK_SIZE + k mod CHUNK_SIZE" using k q [OF l] by simp
    then show ?r using q [OF l] l o by (intro conjI) linarith+
  next
    assume r: ?r
    then have "k = off div CHUNK_SIZE * CHUNK_SIZE + k mod CHUNK_SIZE" using k by simp
    then show ?l using o r by (intro conjI) linarith+
  qed
  show "k - off = k mod CHUNK_SIZE - off mod CHUNK_SIZE" if l: ?l
  proof -
    have "k = off div CHUNK_SIZE * CHUNK_SIZE + k mod CHUNK_SIZE" using k q [OF l] by simp
    then show ?thesis using o by linarith
  qed
qed

lemma length_overlay: "length (overlay off bs d) = max (length d) (off + length bs)"
  by (simp add: overlay_def Let_def)

lemma pad_byte_overlay:
  "pad_byte (overlay off bs d) k = (if off \<le> k \<and> k < off + length bs then bs ! (k - off) else pad_byte d k)"
  by (auto simp: pad_byte_def overlay_def Let_def nth_append min_def)

lemma disk_write_append:
  "disk_write (off + length xs) ys (disk_write off xs D) = disk_write off (xs @ ys) D"
  by (auto simp: disk_write_def nth_append fun_eq_iff)

lemma disk_write_nil [simp]: "disk_write off [] D = D"
  by (auto simp: disk_write_def fun_eq_iff)

text \<open>
  A hash saves the bytes \<open>P\<close> of a chunk when the store has them under it; no hash does when they are zero,
  or when the flat file still has them.
\<close>

definition saves :: "(string \<Rightarrow> bytes option) \<Rightarrow> bool \<Rightarrow> string \<Rightarrow> (nat \<Rightarrow> byte) \<Rightarrow> bool" where
  "saves held past h P \<longleftrightarrow>
     text_ok h \<and>
     (if h = ZERO_CHUNK_HASH then past \<longrightarrow> P = pad_byte [] else \<exists>d. held h = Some d \<and> pad_byte d = P)"

lemma saves_mono:
  "saves held past h P \<Longrightarrow> (\<And>h e. held h = Some e \<Longrightarrow> held' h = Some e) \<Longrightarrow> saves held' past h P"
  by (auto simp: saves_def split: if_splits)

text \<open>The backend on an index that stands alone.\<close>

definition opened :: "'s \<Rightarrow> chunk_index \<Rightarrow> 's cas" where
  "opened store ix = \<lparr>cb_store = store, cb_index = ix, cb_dirty = [], cb_parents = [], cb_fallback = None\<rparr>"

text \<open>An index that stands alone and has the bytes \<open>P\<close> in its chunks.\<close>

definition is_disk ::
  "('s \<Rightarrow> bool) \<Rightarrow> ('s \<Rightarrow> string \<Rightarrow> bytes option) \<Rightarrow> 's \<Rightarrow> u64 \<Rightarrow> nat \<Rightarrow> (nat \<Rightarrow> nat \<Rightarrow> byte) \<Rightarrow> chunk_index \<Rightarrow> bool"
where
  "is_disk valid holds s disk_size n P ix \<longleftrightarrow>
     cas_ok valid holds (opened s ix) \<and> ci_disk_size ix = disk_size \<and> ci_parent ix = None \<and> ci_fallback ix = None \<and>
     length (ci_hashes ix) = n \<and> (\<forall>i < n. pad_byte (chunk_at holds (opened s ix) i) = P i)"

section \<open>Reads and writes\<close>

text \<open>What a write leaves as it is, besides the chunks it changes.\<close>

definition same_shape :: "('s \<Rightarrow> string \<Rightarrow> bytes option) \<Rightarrow> 's cas \<Rightarrow> 's cas \<Rightarrow> bool" where
  "same_shape holds b b' \<longleftrightarrow>
     (\<forall>i. pad_byte (base_chunk holds b' i) = pad_byte (base_chunk holds b i)) \<and>
     cb_parents b' = cb_parents b \<and> ci_disk_size (cb_index b') = ci_disk_size (cb_index b) \<and>
     map_option ff_size (cb_fallback b') = map_option ff_size (cb_fallback b)"

lemma same_shape_trans: "same_shape holds a b \<Longrightarrow> same_shape holds b c \<Longrightarrow> same_shape holds a c"
  by (simp add: same_shape_def)

lemma same_but_store_shape: "same_but_store holds a b \<Longrightarrow> same_shape holds a b"
  by (simp add: same_shape_def same_but_store_def)

lemma resolved_other [simp]:
  "resolved (b\<lparr>cb_store := s\<rparr>) = resolved b"
  "resolved (b\<lparr>cb_dirty := ds\<rparr>) = resolved b"
  by (simp_all add: resolved_def fun_eq_iff)

lemma map_of_filter_key: "map_of (filter (\<lambda>(j, _). j \<noteq> i) xs) j = (if j = i then None else map_of xs j)"
  by (induction xs) auto

lemma chunk_at_put_dirty:
  "chunk_at holds (put_dirty_chunk i d b) j = (if j = i then d else chunk_at holds b j)"
  by (simp add: chunk_at_def put_dirty_chunk_def map_of_filter_key base_chunk_def resolved_def split: option.split)

lemma put_dirty_chunk_shape: "same_shape holds b (put_dirty_chunk i d b)"
  by (simp add: same_shape_def put_dirty_chunk_def base_chunk_def resolved_def)

lemma put_dirty_chunk_ok:
  "cas_ok valid holds b \<Longrightarrow> length d \<le> CHUNK_SIZE \<Longrightarrow> cas_ok valid holds (put_dirty_chunk i d b)"
  by (auto simp: cas_ok_def put_dirty_chunk_def distinct_map_filter)

lemma write_in_chunk:
  assumes "off mod CHUNK_SIZE + length bs \<le> CHUNK_SIZE"
    and "pad_byte d = pad_byte (chunk_at holds b (off div CHUNK_SIZE))"
  shows "byte_at holds (put_dirty_chunk (off div CHUNK_SIZE) (overlay (off mod CHUNK_SIZE) bs d) b) =
    disk_write off bs (byte_at holds b)"
proof
  fix k
  note r = chunk_range [OF assms(1), of k]
  show "byte_at holds (put_dirty_chunk (off div CHUNK_SIZE) (overlay (off mod CHUNK_SIZE) bs d) b) k =
      disk_write off bs (byte_at holds b) k"
  proof (cases "off \<le> k \<and> k < off + length bs")
    case True
    then show ?thesis using r by (simp add: byte_at_def chunk_at_put_dirty pad_byte_overlay disk_write_def)
  next
    case False
    then show ?thesis using r assms(2) by (auto simp: byte_at_def chunk_at_put_dirty pad_byte_overlay disk_write_def)
  qed
qed

context chunk_store
begin

lemma cas_read_ok:
  assumes "cas_ok valid holds b" "off < 2 ^ 64" "cas_read ops off n b = (r, b')"
  shows "cas_ok valid holds b' \<and> same_but_store holds b b' \<and>
    (\<forall>res. r = Inr res \<longrightarrow> res = map (\<lambda>k. byte_at holds b ((off + k) mod 2 ^ 64)) [0..<n])"
  using assms
proof (induction n arbitrary: off b r b' rule: less_induct)
  case (less n)
  show ?case
  proof (cases "n = 0")
    case True
    then show ?thesis using less.prems by (auto simp: cas_read.simps same_but_store_def)
  next
    case False
    define i o' m where "i = off div CHUNK_SIZE" and "o' = off mod CHUNK_SIZE" and "m = min (CHUNK_SIZE - o') n"
    obtain q b1 where q: "read_chunk ops i b = (q, b1)" by fastforce
    note c = read_chunk_ok [OF less.prems(1) q]
    have m: "m \<le> n" "n - m < n" "o' + k < CHUNK_SIZE" if "k < m" for k
      using that chunk_step_less [OF False o'_def m_def] by (auto simp: m_def)
    have mpos: "m \<le> n" "n - m < n" using chunk_step_less [OF False o'_def m_def] by (auto simp: m_def)
    show ?thesis
    proof (cases q)
      case (Inl e)
      then have "r = Inl e" "b' = b1" using less.prems(3) False q
        by (simp_all add: cas_read.simps [of ops off n b] Let_def i_def)
      then show ?thesis using c by simp
    next
      case (Inr d)
      obtain q2 b2 where q2: "cas_read ops ((off + m) mod 2 ^ 64) (n - m) b1 = (q2, b2)" by fastforce
      have step: "(r, b') = and_then (q2, b2) (\<lambda>rest b. (Inr (map (\<lambda>k. pad_byte d (o' + k)) [0..<m] @ rest), b))"
        using less.prems(3) False q q2 Inr
        by (simp add: cas_read.simps [of ops off n b] Let_def flip: i_def o'_def m_def chunk_part)
      have ih: "cas_ok valid holds b2" "same_but_store holds b1 b2"
        "\<And>res. q2 = Inr res \<Longrightarrow> res = map (\<lambda>k. byte_at holds b1 (((off + m) mod 2 ^ 64 + k) mod 2 ^ 64)) [0..<n - m]"
        using less.IH [OF mpos(2) _ _ q2] c by auto
      have s2: "same_but_store holds b b2" using same_but_store_trans [OF _ ih(2)] c by blast
      have part: "map (\<lambda>k. pad_byte d (o' + k)) [0..<m] = map (\<lambda>k. byte_at holds b ((off + k) mod 2 ^ 64)) [0..<m]"
      proof (rule map_cong [OF refl])
        fix k assume "k \<in> set [0..<m]"
        then have "o' + k < CHUNK_SIZE" using m(3) by simp
        then show "pad_byte d (o' + k) = byte_at holds b ((off + k) mod 2 ^ 64)"
          using in_chunk [OF less.prems(2), of k] c Inr by (simp add: byte_at_def o'_def i_def)
      qed
      have rest: "byte_at holds b1 (((off + m) mod 2 ^ 64 + k) mod 2 ^ 64) = byte_at holds b ((off + (m + k)) mod 2 ^ 64)" for k
        using same_bytes [of holds b b1] c by (simp add: mod_add_left_eq add.assoc)
      show ?thesis
      proof (cases q2)
        case (Inl e)
        then show ?thesis using step ih(1) s2 by (auto simp: and_then_def)
      next
        case (Inr res)
        then have b': "b' = b2" "r = Inr (map (\<lambda>k. pad_byte d (o' + k)) [0..<m] @ res)" using step by simp_all
        define F where "F = (\<lambda>k. byte_at holds b ((off + k) mod 2 ^ 64))"
        have "res = map (\<lambda>k. F (m + k)) [0..<n - m]"
          unfolding ih(3) [OF Inr] F_def by (rule map_cong [OF refl]) (rule rest)
        then have "map F [0..<n] = map F [0..<m] @ res" using map_upt_split [OF mpos(1), of F] by simp
        moreover have "r = Inr (map F [0..<m] @ res)" unfolding b'(2) part F_def ..
        ultimately have "r = Inr (map (\<lambda>k. byte_at holds b ((off + k) mod 2 ^ 64)) [0..<n])"
          unfolding F_def [symmetric] by simp
        then show ?thesis using ih(1) s2 b'(1) by blast
      qed
    qed
  qed
qed

lemma cas_write_ok:
  assumes "cas_ok valid holds b" "off + length data \<le> 2 ^ 64" "cas_write ops off data b = (r, b')"
  shows "cas_ok valid holds b' \<and> same_shape holds b b' \<and>
    (\<exists>m \<le> length data. (r = Inr () \<longrightarrow> m = length data) \<and>
       byte_at holds b' = disk_write off (take m data) (byte_at holds b))"
  using assms
proof (induction "length data" arbitrary: off data b r b' rule: less_induct)
  case less
  show ?case
  proof (cases "data = []")
    case True
    then show ?thesis using less.prems by (auto simp: cas_write.simps same_shape_def)
  next
    case False
    define i o' m where "i = off div CHUNK_SIZE" and "o' = off mod CHUNK_SIZE" and "m = min (CHUNK_SIZE - o') (length data)"
    have m: "m \<le> length data" "length data - m < length data" "o' + m \<le> CHUNK_SIZE"
      using chunk_step_less [OF _ o'_def m_def] False mod_less_divisor [OF CHUNK_SIZE_pos, of off] by (auto simp: m_def o'_def)
    obtain q b1 where q: "read_chunk ops i b = (q, b1)" by fastforce
    note c = read_chunk_ok [OF less.prems(1) q]
    show ?thesis
    proof (cases q)
      case (Inl e)
      then have "r = Inl e" "b' = b1" using less.prems(3) False q
        by (simp_all add: cas_write.simps [of ops off data b] Let_def i_def)
      then show ?thesis using c same_bytes [of holds b b1] same_but_store_shape by (intro conjI exI [of _ 0]) auto
    next
      case (Inr d)
      let ?b2 = "put_dirty_chunk i (overlay o' (take m data) d) b1"
      have w: "cas_write ops ((off + m) mod 2 ^ 64) (drop m data) ?b2 = (r, b')"
        using less.prems(3) False q Inr
        by (simp add: cas_write.simps [of ops off data b] Let_def flip: i_def o'_def m_def)
      have b2: "cas_ok valid holds ?b2" using c Inr m by (intro put_dirty_chunk_ok) (auto simp: length_overlay)
      have sh: "same_shape holds b ?b2"
        using same_shape_trans [OF same_but_store_shape put_dirty_chunk_shape] c by blast
      have pd: "pad_byte d = pad_byte (chunk_at holds b1 (off div CHUNK_SIZE))"
        using c Inr same_chunk [of holds b b1] by (simp add: i_def)
      have by2: "byte_at holds ?b2 = disk_write off (take m data) (byte_at holds b)"
        using write_in_chunk [of off "take m data" d holds b1] m pd c same_bytes [of holds b b1]
        by (simp add: o'_def i_def)
      have "(off + m) mod 2 ^ 64 + length (drop m data) \<le> 2 ^ 64 \<and> (drop m data = [] \<or> (off + m) mod 2 ^ 64 = off + m)"
        using less.prems(2) m(1) by (cases "off + m = 2 ^ 64") auto
      then have off': "(off + m) mod 2 ^ 64 + length (drop m data) \<le> 2 ^ 64" "drop m data = [] \<or> (off + m) mod 2 ^ 64 = off + m"
        by blast+
      obtain l where ih: "cas_ok valid holds b'" "same_shape holds ?b2 b'" "l \<le> length (drop m data)"
        "r = Inr () \<longrightarrow> l = length (drop m data)"
        "byte_at holds b' = disk_write ((off + m) mod 2 ^ 64) (take l (drop m data)) (byte_at holds ?b2)"
        using less.hyps [OF _ b2 off'(1) w] m(2) by auto
      have "byte_at holds b' = disk_write (off + m) (take l (drop m data)) (byte_at holds ?b2)"
        using ih(5) off'(2) by auto
      then have "byte_at holds b' = disk_write off (take (m + l) data) (byte_at holds b)"
        unfolding by2 take_add using disk_write_append [of off "take m data"] m(1) by simp
      then show ?thesis using ih m(1) same_shape_trans [OF sh ih(2)]
        by (intro conjI exI [of _ "m + l"]) auto
    qed
  qed
qed

lemma put_dirty_ok:
  assumes "cas_ok valid holds b" "distinct (map fst ds)" "\<forall>e \<in> set ds. length (snd e) \<le> CHUNK_SIZE"
    "put_dirty ops ds b = (r, b')"
  shows "cas_ok valid holds b' \<and> cb_dirty b' = cb_dirty b \<and> cb_parents b' = cb_parents b \<and>
    cb_fallback b' = cb_fallback b \<and> ci_disk_size (cb_index b') = ci_disk_size (cb_index b) \<and>
    length (ci_hashes (cb_index b')) = length (ci_hashes (cb_index b)) \<and>
    (\<forall>j. j \<notin> fst ` set ds \<or> length (ci_hashes (cb_index b)) \<le> j \<longrightarrow> base_chunk holds b' j = base_chunk holds b j) \<and>
    (r = Inr () \<longrightarrow> (\<forall>(j, d) \<in> set ds. j < length (ci_hashes (cb_index b)) \<longrightarrow> base_chunk holds b' j = d))"
  using assms
proof (induction ds arbitrary: b)
  case Nil
  then show ?case by auto
next
  case (Cons e ds)
  obtain i d where e: "e = (i, d)" by (cases e)
  obtain q s where q: "so_put ops d (cb_store b) = (q, s)" by fastforce
  have v: "valid (cb_store b)" and n: "length d \<le> CHUNK_SIZE"
    using Cons.prems(1,3) by (auto simp: cas_ok_def e)
  note s = put_valid [OF v n q] put_keeps [OF v q]
  show ?case
  proof (cases q)
    case (Inl x)
    then have b': "r = Inl OtherError" "b' = b\<lparr>cb_store := s\<rparr>" using Cons.prems(4) q by (auto simp: e)
    have "base_chunk holds b' j = base_chunk holds b j" for j
    proof (cases "resolved b j = ZERO_CHUNK_HASH")
      case False
      obtain c where c: "holds (cb_store b) (resolved b j) = Some c" using resolved_held [OF Cons.prems(1) False] by blast
      then show ?thesis using s(2) [OF c] False by (simp add: b' base_chunk_def)
    qed (simp add: b' base_chunk_def)
    then show ?thesis using store_step [OF Cons.prems(1) s] b' by simp
  next
    case (Inr h)
    let ?b1 = "b\<lparr>cb_store := s, cb_index := set_hash i h (cb_index b)\<rparr>"
    have h: "holds s h = Some d" "h \<noteq> ZERO_CHUNK_HASH" "text_ok h" using put_holds [OF v n] q Inr by blast+
    note st = hash_step [OF Cons.prems(1) s h, where i = i]
    have run: "put_dirty ops ds ?b1 = (r, b')" using Cons.prems(4) q Inr by (simp add: e)
    have ds: "distinct (map fst ds)" "\<forall>e \<in> set ds. length (snd e) \<le> CHUNK_SIZE" "i \<notin> fst ` set ds"
      using Cons.prems(2,3) by (simp_all add: e)
    note ih = Cons.IH [OF st(1) ds(1,2) run]
    have "base_chunk holds b' i = d" if "i < length (ci_hashes (cb_index b))"
      using ih ds(3) st(2) [of i] that by simp
    then show ?thesis using ih st(2) by (auto simp: e)
  qed
qed

lemma cas_flush_ok:
  assumes ok: "cas_ok valid holds b" and r: "cas_flush ops b = (r, b')"
  shows "cas_ok valid holds b' \<and> cb_parents b' = cb_parents b \<and> cb_fallback b' = cb_fallback b \<and>
    ci_disk_size (cb_index b') = ci_disk_size (cb_index b) \<and>
    (\<forall>i. i < length (ci_hashes (cb_index b)) \<or> r \<noteq> Inr () \<longrightarrow> chunk_at holds b' i = chunk_at holds b i) \<and>
    (\<forall>i. length (ci_hashes (cb_index b)) \<le> i \<and> r = Inr () \<longrightarrow> chunk_at holds b' i = base_chunk holds b i) \<and>
    (r = Inr () \<longrightarrow> cb_dirty b' = [])"
proof -
  obtain q b1 where q: "put_dirty ops (cb_dirty b) b = (q, b1)" by fastforce
  have p: "distinct (map fst (cb_dirty b))" "\<forall>e \<in> set (cb_dirty b). length (snd e) \<le> CHUNK_SIZE"
    using ok by (simp_all add: cas_ok_def)
  note d = put_dirty_ok [OF ok p q]
  show ?thesis
  proof (cases q)
    case (Inl e)
    then have b': "r = Inl e" "b' = b1" using r q by (simp_all add: cas_flush_def)
    have "chunk_at holds b1 i = chunk_at holds b i" for i
    proof (cases "map_of (cb_dirty b) i")
      case None
      then have "i \<notin> fst ` set (cb_dirty b)" by (simp add: map_of_eq_None_iff)
      then show ?thesis using d None by (simp add: chunk_at_def)
    qed (use d in \<open>simp add: chunk_at_def\<close>)
    then show ?thesis using d b' by simp
  next
    case (Inr u)
    then have b': "r = Inr ()" "b' = b1\<lparr>cb_dirty := []\<rparr>" using r q by (simp_all add: cas_flush_def)
    have base: "chunk_at holds b' i = base_chunk holds b1 i" for i by (simp add: b' chunk_at_def base_chunk_def)
    have "chunk_at holds b' i = chunk_at holds b i" if "i < length (ci_hashes (cb_index b))" for i
    proof (cases "map_of (cb_dirty b) i")
      case None
      then have "i \<notin> fst ` set (cb_dirty b)" by (simp add: map_of_eq_None_iff)
      then show ?thesis using d None base by (simp add: chunk_at_def)
    next
      case (Some c)
      then show ?thesis using d Inr base map_of_SomeD [OF Some] that by (auto simp: chunk_at_def)
    qed
    moreover have "cas_ok valid holds b'" using d by (simp add: b' cas_ok_def)
    ultimately show ?thesis using d base b' by simp
  qed
qed

lemma save_chunk_ok:
  assumes ok: "cas_ok valid holds b" and P: "\<And>j. pad_byte (chunk_at holds b j) = P j"
    and h: "saves (holds (cb_store b)) (len \<le> i * CHUNK_SIZE) h (P i)" and r: "save_chunk ops len i h b = (r, b')"
  shows "cas_ok valid holds b' \<and> same_but_store holds b b' \<and>
    (\<forall>h'. r = Inr h' \<longrightarrow> saves (holds (cb_store b')) True h' (P i))"
proof (cases "h = ZERO_CHUNK_HASH \<and> i * CHUNK_SIZE < len")
  case False
  then have "r = Inr h" "b' = b" using r by (auto simp: save_chunk_def)
  then show ?thesis using ok h False by (auto simp: same_but_store_def saves_def)
next
  case True
  obtain q b1 where q: "read_chunk ops i b = (q, b1)" by fastforce
  note c = read_chunk_ok [OF ok q]
  show ?thesis
  proof (cases q)
    case (Inl e)
    then show ?thesis using r True q c by (auto simp: save_chunk_def)
  next
    case (Inr d)
    then have d: "pad_byte d = P i" "length d \<le> CHUNK_SIZE" using c P by auto
    show ?thesis
    proof (cases "list_ex (\<lambda>x. x \<noteq> 0) d")
      case False
      then have "pad_byte d = pad_byte []" by (intro pad_byte_all_zero) (auto simp: list_ex_iff list_all_iff)
      moreover have "r = Inr h" "b' = b1" using r True q Inr False by (simp_all add: save_chunk_def)
      ultimately show ?thesis using c d h True by (auto simp: saves_def)
    next
      case any: True
      obtain p s where p: "so_put ops d (cb_store b1) = (p, s)" by fastforce
      have b': "r = p" "b' = b1\<lparr>cb_store := s\<rparr>" using r True q Inr any p by (simp_all add: save_chunk_def)
      have v: "valid (cb_store b1)" using c by (simp add: cas_ok_def)
      note s = put_valid [OF v d(2) p] put_keeps [OF v p]
      have st: "cas_ok valid holds b'" "same_but_store holds b1 b'" using store_step [of b1 s] c s b' by auto
      have "saves (holds (cb_store b')) True h' (P i)" if "r = Inr h'" for h'
        using put_holds [OF v d(2), of h' s] p b' that d by (simp add: saves_def)
      then show ?thesis using st same_but_store_trans [OF _ st(2)] c by blast
    qed
  qed
qed

lemma save_fallback_ok:
  assumes "cas_ok valid holds b" "\<And>j. pad_byte (chunk_at holds b j) = P j"
    "\<And>j. j < length hs \<Longrightarrow> saves (holds (cb_store b)) (len \<le> (i + j) * CHUNK_SIZE) (hs ! j) (P (i + j))"
    "save_fallback ops len i hs b = (r, b')"
  shows "cas_ok valid holds b' \<and> same_but_store holds b b' \<and>
    (\<forall>hs'. r = Inr hs' \<longrightarrow> length hs' = length hs \<and>
       (\<forall>j < length hs. saves (holds (cb_store b')) True (hs' ! j) (P (i + j))))"
  using assms
proof (induction hs arbitrary: i b r b')
  case Nil
  then show ?case by (auto simp: same_but_store_def)
next
  case (Cons h hs)
  have h0: "saves (holds (cb_store b)) (len \<le> i * CHUNK_SIZE) h (P i)" using Cons.prems(3) [of 0] by simp
  obtain q b1 where q: "save_chunk ops len i h b = (q, b1)" by fastforce
  note c = save_chunk_ok [OF Cons.prems(1,2) h0 q]
  show ?case
  proof (cases q)
    case (Inl e)
    then show ?thesis using Cons.prems(4) q c by auto
  next
    case (Inr h')
    obtain q2 b2 where q2: "save_fallback ops len (Suc i) hs b1 = (q2, b2)" by fastforce
    have P1: "pad_byte (chunk_at holds b1 j) = P j" for j using same_chunk [of holds b b1] c Cons.prems(2) by simp
    have keeps: "\<And>h e. holds (cb_store b) h = Some e \<Longrightarrow> holds (cb_store b1) h = Some e"
      using c by (simp add: same_but_store_def)
    have hs1: "saves (holds (cb_store b1)) (len \<le> (Suc i + j) * CHUNK_SIZE) (hs ! j) (P (Suc i + j))" if "j < length hs" for j
      using saves_mono [OF _ keeps] Cons.prems(3) [of "Suc j"] that by simp
    note ih = Cons.IH [OF _ P1 hs1 q2]
    have ih': "cas_ok valid holds b2" "same_but_store holds b1 b2"
      "\<And>hs'. q2 = Inr hs' \<Longrightarrow> length hs' = length hs \<and> (\<forall>j < length hs. saves (holds (cb_store b2)) True (hs' ! j) (P (Suc i + j)))"
      using ih c by blast+
    have keeps2: "\<And>h e. holds (cb_store b1) h = Some e \<Longrightarrow> holds (cb_store b2) h = Some e"
      using ih'(2) by (simp add: same_but_store_def)
    have "saves (holds (cb_store b1)) True h' (P i)" using c Inr by simp
    then have h2: "saves (holds (cb_store b2)) True h' (P i)" by (rule saves_mono) (rule keeps2)
    have step: "(r, b') = and_then (q2, b2) (\<lambda>hs b. (Inr (h' # hs), b))" using Cons.prems(4) q Inr q2 by simp
    have all: "saves (holds (cb_store b2)) True ((h' # hs') ! j) (P (i + j))" if "q2 = Inr hs'" "j < Suc (length hs)" for hs' j
      using ih'(3) [OF that(1)] h2 that(2) by (cases j) auto
    have same: "same_but_store holds b b2" using same_but_store_trans [OF _ ih'(2)] c by blast
    show ?thesis
    proof (cases q2)
      case (Inl e)
      then have "r = Inl e" "b' = b2" using step by simp_all
      then show ?thesis using ih'(1) same by simp
    next
      case (Inr hs')
      then have "r = Inr (h' # hs')" "b' = b2" using step by simp_all
      then show ?thesis using ih'(1) same ih'(3) [OF Inr] all [OF Inr] by simp
    qed
  qed
qed

lemma opened_saves:
  assumes "valid s" "length hs = div_ceil (unat disk_size) CHUNK_SIZE"
    "\<And>j. j < length hs \<Longrightarrow> saves (holds s) True (hs ! j) (P j)"
  defines "ix \<equiv> (index_new disk_size)\<lparr>ci_hashes := hs\<rparr>"
  shows "cas_ok valid holds (opened s ix)"
    and "j < length hs \<Longrightarrow> pad_byte (chunk_at holds (opened s ix) j) = P j"
proof -
  have "text_ok h \<and> (h \<noteq> ZERO_CHUNK_HASH \<longrightarrow> holds s h \<noteq> None)" if "h \<in> set hs" for h
  proof -
    obtain j where "j < length hs" "h = hs ! j" using \<open>h \<in> set hs\<close> by (auto simp: in_set_conv_nth)
    then show ?thesis using assms(3) [of j] by (auto simp: saves_def split: if_splits)
  qed
  then show "cas_ok valid holds (opened s ix)"
    using assms(1,2) by (simp add: cas_ok_def opened_def ix_def refs_held_def index_new_def)
  assume j: "j < length hs"
  then have "resolved (opened s ix) j = hs ! j"
    by (simp add: resolved_def opened_def ix_def hash_at_def get_hash_def)
  then show "pad_byte (chunk_at holds (opened s ix) j) = P j"
    using assms(3) [OF j] by (auto simp: chunk_at_def base_chunk_def opened_def saves_def fallback_chunk_def split: if_splits)
qed

lemma resolved_saves:
  assumes ok: "cas_ok valid holds b" and clean: "cb_dirty b = []"
    and past: "past \<longrightarrow> fallback_chunk (cb_fallback b) i = []"
  shows "saves (holds (cb_store b)) past (resolved b i) (pad_byte (chunk_at holds b i))"
proof (cases "resolved b i = ZERO_CHUNK_HASH")
  case True
  then show ?thesis using resolved_text [OF ok, of i] clean past by (simp add: saves_def chunk_at_def base_chunk_def)
next
  case False
  then show ?thesis using resolved_held [OF ok False] resolved_text [OF ok, of i] clean
    by (auto simp: saves_def chunk_at_def base_chunk_def)
qed

lemma saved_index_ok:
  assumes "valid s" "length hs = div_ceil (unat disk_size) CHUNK_SIZE"
    "\<And>j. j < length hs \<Longrightarrow> saves (holds s) True (hs ! j) (P j)"
  shows "is_disk valid holds s disk_size (length hs) P ((index_new disk_size)\<lparr>ci_hashes := hs\<rparr>)"
  using opened_saves [OF assms] unfolding is_disk_def by (simp add: index_new_def)

lemma save_index_ok:
  assumes ok: "cas_ok valid holds b" and r: "save_index ops b = (q, b')"
  shows "q \<noteq> None \<and> cas_ok valid holds b' \<and>
    (\<forall>i < length (ci_hashes (cb_index b)). pad_byte (chunk_at holds b' i) = pad_byte (chunk_at holds b i)) \<and>
    (\<forall>ix. q = Some (Inr ix) \<longrightarrow>
       is_disk valid holds (cb_store b') (ci_disk_size (cb_index b)) (length (ci_hashes (cb_index b)))
         (\<lambda>i. pad_byte (chunk_at holds b i)) ix)"
proof -
  obtain f b1 where f: "cas_flush ops b = (f, b1)" by fastforce
  note fl = cas_flush_ok [OF ok f]
  show ?thesis
  proof (cases f)
    case (Inl e)
    then show ?thesis using r f fl by (auto simp: save_index_def)
  next
    case (Inr u)
    let ?n = "length (ci_hashes (cb_index b1))" and ?size = "ci_disk_size (cb_index b1)"
    let ?hs = "map (resolved b1) [0..<?n]"
    define P where "P i = pad_byte (chunk_at holds b1 i)" for i
    have len: "?n = div_ceil (unat ?size) CHUNK_SIZE" "length (ci_hashes (cb_index b)) = ?n" "cb_dirty b1 = []"
      "cas_ok valid holds b1" "ci_disk_size (cb_index b) = ?size" "valid (cb_store b1)"
      using fl ok Inr by (simp_all add: cas_ok_def)
    have P: "P i = pad_byte (chunk_at holds b i)" if "i < ?n" for i using fl that len(2) Inr by (simp add: P_def)
    have hs: "?hs @ drop ?n (ci_hashes (index_new ?size)) = ?hs" "\<not> length (ci_hashes (index_new ?size)) < ?n"
      by (simp_all add: index_new_def len(1))
    note unfold_save = save_index_def f Inr Let_def hs
    show ?thesis
    proof (cases "cb_fallback b1")
      case None
      then have q: "q = Some (Inr ((index_new ?size)\<lparr>ci_hashes := ?hs\<rparr>))" "b' = b1"
        using r by (auto simp: unfold_save)
      have "saves (holds (cb_store b1)) True (?hs ! j) (P j)" if "j < length ?hs" for j
        using resolved_saves [OF len(4,3), of True j] None that by (simp add: P_def fallback_chunk_def)
      then have "is_disk valid holds (cb_store b1) ?size (length ?hs) P ((index_new ?size)\<lparr>ci_hashes := ?hs\<rparr>)"
        by (intro saved_index_ok len(6)) (simp_all add: len(1))
      then show ?thesis using len(4) P unfolding q len(2,5) by (simp add: is_disk_def P_def)
    next
      case (Some fb)
      obtain p b2 where p: "save_fallback ops (ff_size fb) 0 ?hs b1 = (p, b2)" by fastforce
      have pre: "saves (holds (cb_store b1)) (ff_size fb \<le> (0 + j) * CHUNK_SIZE) (?hs ! j) (P (0 + j))"
        if "j < length ?hs" for j
        using resolved_saves [OF len(4,3), of "ff_size fb \<le> j * CHUNK_SIZE" j] Some that by (simp add: P_def fallback_chunk_def)
      have "cas_ok valid holds b2 \<and> same_but_store holds b1 b2 \<and>
          (\<forall>hs'. p = Inr hs' \<longrightarrow> length hs' = length ?hs \<and>
             (\<forall>j < length ?hs. saves (holds (cb_store b2)) True (hs' ! j) (P (0 + j))))"
        by (rule save_fallback_ok [OF len(4) P_def [symmetric] _ p]) (rule pre)
      then have sf: "cas_ok valid holds b2" "same_but_store holds b1 b2"
        "\<And>hs'. p = Inr hs' \<Longrightarrow> length hs' = ?n \<and> (\<forall>j < ?n. saves (holds (cb_store b2)) True (hs' ! j) (P j))"
        by simp_all
      have chunks: "pad_byte (chunk_at holds b2 i) = pad_byte (chunk_at holds b i)" if "i < ?n" for i
        using same_chunk [OF sf(2), of i] P [OF that] by (simp add: P_def)
      show ?thesis
      proof (cases p)
        case (Inl e)
        then have "q = Some (Inl e)" "b' = b2" using r p Some by (simp_all add: unfold_save)
        then show ?thesis using sf(1) chunks len(2) by simp
      next
        case hs': (Inr hs')
        then have q: "q = Some (Inr ((index_new ?size)\<lparr>ci_hashes := hs'\<rparr>))" "b' = b2"
          using r p Some by (simp_all add: unfold_save)
        have s: "length hs' = ?n" "\<And>j. j < length hs' \<Longrightarrow> saves (holds (cb_store b2)) True (hs' ! j) (P j)" "valid (cb_store b2)"
          using sf(1) sf(3) [OF hs'] by (simp_all add: cas_ok_def)
        have "is_disk valid holds (cb_store b2) ?size (length hs') P ((index_new ?size)\<lparr>ci_hashes := hs'\<rparr>)"
          using s len(1) by (intro saved_index_ok) simp_all
        then show ?thesis using sf(1) chunks P s(1) unfolding q len(2,5) by (simp add: is_disk_def)
      qed
    qed
  qed
qed

end

section \<open>The file of an index\<close>

text \<open>
  A reader of part of a file is exact for some bytes when it reads the value off their front and, given only
  some of them, ends with the end of the file.
\<close>

definition exact_for :: "(reader \<Rightarrow> (index_error + 'a) \<times> reader) \<Rightarrow> bytes \<Rightarrow> 'a \<Rightarrow> bool" where
  "exact_for p xs v \<longleftrightarrow>
     (\<forall>ys. p \<lparr>rd_bytes = xs @ ys, rd_end = None\<rparr> = (Inr v, \<lparr>rd_bytes = ys, rd_end = None\<rparr>)) \<and>
     (\<forall>ys. strict_prefix ys xs \<longrightarrow> fst (p \<lparr>rd_bytes = ys, rd_end = None\<rparr>) = Inl (IndexIo UnexpectedEof))"

lemma exact_and_then:
  assumes "exact_for p xs v" "exact_for (k v) ys w"
  shows "exact_for (\<lambda>r. and_then (p r) k) (xs @ ys) w"
proof -
  have "fst (and_then (p \<lparr>rd_bytes = zs, rd_end = None\<rparr>) k) = Inl (IndexIo UnexpectedEof)" if "strict_prefix zs (xs @ ys)" for zs
  proof (cases "strict_prefix zs xs")
    case True
    then show ?thesis using assms(1) by (cases "p \<lparr>rd_bytes = zs, rd_end = None\<rparr>") (auto simp: exact_for_def and_then_def)
  next
    case False
    have "prefix zs (xs @ ys)" "zs \<noteq> xs @ ys" using that by (simp_all add: strict_prefix_def)
    then have "\<exists>us. zs = xs @ us \<and> strict_prefix us ys"
      using False by (cases "zs = xs") (auto simp: prefix_append strict_prefix_def)
    then obtain us where us: "zs = xs @ us" "strict_prefix us ys" by blast
    then show ?thesis using assms by (simp add: exact_for_def)
  qed
  then show ?thesis using assms by (simp add: exact_for_def)
qed

lemma exact_return: "exact_for (\<lambda>r. (Inr v, r)) [] v"
  by (simp add: exact_for_def)

lemma exact_read: "length xs = n \<Longrightarrow> exact_for (read_index n) xs xs"
  using prefix_length_less by (fastforce simp: exact_for_def read_index_def read_exact_def)

lemma exact_text:
  assumes "text_ok s"
  shows "exact_for read_text (text_bytes s) s"
proof -
  let ?n = "to_le_bytes (word_of_nat (length s) :: u32)"
  have n: "unat (from_le_bytes ?n :: u32) = length s"
    using assms by (simp add: from_to_le_bytes text_ok_def unat_of_nat)
  have "from_utf8 (ascii s) = Some s" using assms by (simp add: from_utf8_def text_ok_def text_of_ascii)
  then have r: "exact_for (\<lambda>r. ((case from_utf8 (ascii s) of Some s \<Rightarrow> Inr s | None \<Rightarrow> Inl NotUtf8), r)) [] s"
    by (simp add: exact_for_def)
  have "exact_for (\<lambda>r. and_then (read_index (unat (from_le_bytes ?n :: u32)) r) (\<lambda>bs r.
      ((case from_utf8 bs of Some s \<Rightarrow> Inr s | None \<Rightarrow> Inl NotUtf8), r))) (ascii s @ []) s"
    by (rule exact_and_then [OF exact_read]) (simp add: n, rule r)
  then have "exact_for (\<lambda>r. and_then (read_index 4 r) (\<lambda>n r. and_then (read_index (unat (from_le_bytes n :: u32)) r) (\<lambda>bs r.
      ((case from_utf8 bs of Some s \<Rightarrow> Inr s | None \<Rightarrow> Inl NotUtf8), r)))) (?n @ ascii s @ []) s"
    by (rule exact_and_then [OF exact_read, rotated]) simp
  then show ?thesis by (simp add: read_text_def [abs_def] text_bytes_def)
qed

lemma exact_texts:
  assumes "\<forall>s \<in> set ss. text_ok s"
  shows "exact_for (read_texts (length ss)) (concat (map text_bytes ss)) ss"
  using assms
proof (induction ss)
  case Nil
  then show ?case using exact_return [of "[]"] by (simp add: exact_for_def)
next
  case (Cons s ss)
  have "exact_for (\<lambda>r. and_then (read_texts (length ss) r) (\<lambda>ss r. (Inr (s # ss), r))) (concat (map text_bytes ss) @ []) (s # ss)"
    using Cons by (intro exact_and_then [where v = ss and k = "\<lambda>ss r. (Inr (s # ss), r)"] exact_return) simp
  then have "exact_for (\<lambda>r. and_then (read_text r) (\<lambda>s r. and_then (read_texts (length ss) r) (\<lambda>ss r. (Inr (s # ss), r))))
      (text_bytes s @ concat (map text_bytes ss) @ []) (s # ss)"
    using Cons.prems exact_text [of s] by (intro exact_and_then) simp_all
  then show ?case by (simp add: exact_for_def)
qed

definition path_ok :: "string option \<Rightarrow> bool" where
  "path_ok p \<longleftrightarrow> (case p of None \<Rightarrow> True | Some s \<Rightarrow> text_ok s \<and> s \<noteq> [])"

definition index_ok :: "chunk_index \<Rightarrow> bool" where
  "index_ok ix \<longleftrightarrow>
     (\<forall>h \<in> set (ci_hashes ix). text_ok h) \<and> length (ci_hashes ix) = div_ceil (unat (ci_disk_size ix)) CHUNK_SIZE \<and>
     path_ok (ci_parent ix) \<and> path_ok (ci_fallback ix)"

lemma path_text:
  "path_ok p \<Longrightarrow> text_ok (case p of Some s \<Rightarrow> s | None \<Rightarrow> []) \<and> path_of (case p of Some s \<Rightarrow> s | None \<Rightarrow> []) = p"
  by (cases p) (simp_all add: path_ok_def path_of_def text_ok_def ascii_def)

lemma div_ceil_less: "div_ceil (unat (n :: u64)) CHUNK_SIZE < 2 ^ 64"
proof -
  have "(unat n + CHUNK_SIZE - 1) div CHUNK_SIZE < 2 ^ 64"
    using unat_word_bound [of n] by (intro less_mult_imp_div_less) (simp add: CHUNK_SIZE_def)
  then show ?thesis by (simp add: div_ceil_def)
qed

lemma index_load_exact:
  assumes "index_ok ix"
  obtains p where "exact_for p (index_bytes ix) ix" "\<And>r. index_load r = fst (p r)"
proof -
  let ?par = "case ci_parent ix of Some p \<Rightarrow> p | None \<Rightarrow> []" and ?fb = "case ci_fallback ix of Some p \<Rightarrow> p | None \<Rightarrow> []"
  let ?w = "to_le_bytes (ci_disk_size ix)" and ?c = "to_le_bytes (word_of_nat (length (ci_hashes ix)) :: u64)"
  have w: "from_le_bytes ?w = ci_disk_size ix" by (simp add: from_to_le_bytes)
  have c: "unat (from_le_bytes ?c :: u64) = length (ci_hashes ix)"
    using assms div_ceil_less [of "ci_disk_size ix"] by (simp add: from_to_le_bytes index_ok_def unat_of_nat)
  have par: "text_ok ?par" "path_of ?par = ci_parent ix" "text_ok ?fb" "path_of ?fb = ci_fallback ix"
    using path_text assms by (auto simp: index_ok_def)
  have hs: "\<forall>h \<in> set (ci_hashes ix). text_ok h" "length (ci_hashes ix) = div_ceil (unat (ci_disk_size ix)) CHUNK_SIZE"
    using assms by (auto simp: index_ok_def)
  define texts where "texts width n r =
    and_then (read_text r) (\<lambda>parent r. and_then (read_text r) (\<lambda>fallback r. and_then (read_texts n r) (\<lambda>hashes r.
      (Inr \<lparr>ci_hashes = hashes, ci_disk_size = from_le_bytes width,
            ci_parent = path_of parent, ci_fallback = path_of fallback\<rparr>, r))))" for width n r
  define p where "p r = and_then (read_index 8 r) (\<lambda>width r. and_then (read_index 8 r) (\<lambda>count r.
    if unat (from_le_bytes count :: u64) \<noteq> div_ceil (unat (from_le_bytes width :: u64)) CHUNK_SIZE then (Inl ChunkCount, r)
    else texts width (unat (from_le_bytes count :: u64)) r))" for r
  have eq: "index_load r = fst (p r)" for r unfolding index_load_def p_def texts_def Let_def ..
  have ix: "\<lparr>ci_hashes = ci_hashes ix, ci_disk_size = from_le_bytes ?w, ci_parent = path_of ?par, ci_fallback = path_of ?fb\<rparr> = ix"
    by (simp add: w par)
  have "exact_for (texts ?w (length (ci_hashes ix))) (text_bytes ?par @ text_bytes ?fb @ concat (map text_bytes (ci_hashes ix)) @ [])
      \<lparr>ci_hashes = ci_hashes ix, ci_disk_size = from_le_bytes ?w, ci_parent = path_of ?par, ci_fallback = path_of ?fb\<rparr>"
    unfolding texts_def [abs_def]
    by (rule exact_and_then [OF exact_text [OF par(1)]], rule exact_and_then [OF exact_text [OF par(3)]],
        rule exact_and_then [OF exact_texts [OF hs(1)]], rule exact_return)
  then have "exact_for p (?w @ ?c @ text_bytes ?par @ text_bytes ?fb @ concat (map text_bytes (ci_hashes ix)) @ []) ix"
    unfolding p_def [abs_def] ix by (intro exact_and_then [OF exact_read]) (simp_all add: w c flip: hs(2))
  then show thesis by (intro that [OF _ eq]) (simp add: index_bytes_def)
qed

section \<open>The disk on the local store\<close>

abbreviation disk_ok :: "(bytes \<Rightarrow> string) \<Rightarrow> local_store cas \<Rightarrow> bool" where
  "disk_ok hash \<equiv> cas_ok (\<lambda>s. collision_free hash \<and> files_ok hash (ls_files s)) ls_files"

text \<open>
  A hash without collisions, for the examples: the chunk itself in hexadecimal. The sample disk has one chunk,
  with three bytes in the store.
\<close>

definition hex_byte :: "byte \<Rightarrow> string" where
  "hex_byte b = [''0123456789abcdef'' ! (unat b div 16), ''0123456789abcdef'' ! (unat b mod 16)]"

definition sample_hash :: "bytes \<Rightarrow> string" where
  "sample_hash d = concat (map hex_byte (take CHUNK_SIZE d))"

definition sample_store :: local_store where
  "sample_store = \<lparr>ls_files = [''010203'' \<mapsto> [1, 2, 3]], ls_next = 0, ls_pid = 1, ls_put_faults = [], ls_get_faults = []\<rparr>"

definition sample_disk :: "local_store cas" where
  "sample_disk = opened sample_store ((index_new 0x10000)\<lparr>ci_hashes := [''010203'']\<rparr>)"

lemma hex_digit_eq:
  assumes "m < 16" "n < 16"
  shows "''0123456789abcdef'' ! m = ''0123456789abcdef'' ! n \<longleftrightarrow> m = n"
  by (rule nth_eq_iff_index_eq) (use assms in simp_all)

lemma hex_byte_inject: "hex_byte a = hex_byte b \<longleftrightarrow> a = b"
proof
  assume eq: "hex_byte a = hex_byte b"
  have lt: "unat a div 16 < 16" "unat b div 16 < 16" using unat_word_bound [of a] unat_word_bound [of b] by simp_all
  have "unat a div 16 = unat b div 16" "unat a mod 16 = unat b mod 16"
    using eq hex_digit_eq [OF lt] hex_digit_eq [of "unat a mod 16" "unat b mod 16"] unfolding hex_byte_def by simp_all
  then have "unat a = unat b" by (metis div_mult_mod_eq)
  then show "a = b" by (simp add: word_unat_eq_iff)
qed simp

lemma hex_bytes_inject: "concat (map hex_byte xs) = concat (map hex_byte ys) \<longleftrightarrow> xs = ys"
proof (induction xs arbitrary: ys)
  case Nil
  then show ?case by (cases ys) (simp_all add: hex_byte_def)
next
  case (Cons x xs)
  have len: "length (hex_byte b) = 2" for b by (simp add: hex_byte_def)
  show ?case
  proof (cases ys)
    case Nil
    then show ?thesis by (simp add: hex_byte_def)
  next
    case (Cons y ys')
    then show ?thesis using Cons.IH [of ys'] len hex_byte_inject [of x y] by (simp add: append_eq_append_conv)
  qed
qed

lemma sample_hash_ok: "collision_free sample_hash"
proof -
  have "hex_name (hex_byte b)" for b
  proof -
    have "unat b div 16 < 16" using unat_word_bound [of b] by simp
    then have "''0123456789abcdef'' ! k \<in> set ''0123456789abcdef''" if "k = unat b div 16 \<or> k = unat b mod 16" for k
      using that by (intro nth_mem) auto
    then show ?thesis unfolding hex_name_def hex_byte_def by simp
  qed
  then have "hex_name (concat (map hex_byte d))" for d by (induction d) (simp_all add: hex_name_def)
  moreover have "length (concat (map hex_byte d)) = 2 * length d" for d by (induction d) (simp_all add: hex_byte_def)
  ultimately show ?thesis
    by (auto simp: collision_free_def sample_hash_def inj_on_def hex_bytes_inject CHUNK_SIZE_def)
qed

lemma sample_disk_ok: "disk_ok sample_hash sample_disk"
proof -
  have "sample_hash [1, 2, 3] = ''010203''" by (simp add: sample_hash_def hex_byte_def CHUNK_SIZE_def)
  then have "files_ok sample_hash (ls_files sample_store)"
    by (auto simp: files_ok_def sample_store_def CHUNK_SIZE_def split: if_splits)
  moreover have "text_ok ''010203''" by (simp add: text_ok_def ascii_def)
  ultimately show ?thesis using sample_hash_ok
    by (simp add: cas_ok_def sample_disk_def opened_def refs_held_def index_new_def sample_store_def div_ceil_def CHUNK_SIZE_def)
qed

text \<open>
  C35. The backend is a disk: a read that succeeds gives the bytes of its range and changes none, and a write puts its
  bytes into the range and changes no other, up to a prefix when it fails. Both keep the backend in order,
  whichever calls to the store fail.
\<close>

theorem disk_reads_and_writes:
  assumes "disk_ok hash b" "off < 2 ^ 64" "off + n \<le> 2 ^ 64" "off + length data \<le> 2 ^ 64"
    "cas_read (local_ops hash) off n b = (r, b1)" "cas_write (local_ops hash) off data b = (w, b2)"
  shows "disk_ok hash b1 \<and> byte_at ls_files b1 = byte_at ls_files b \<and>
    (\<forall>res. r = Inr res \<longrightarrow> res = disk_read off n (byte_at ls_files b)) \<and>
    disk_ok hash b2 \<and>
    (\<exists>m \<le> length data. (w = Inr () \<longrightarrow> m = length data) \<and>
       byte_at ls_files b2 = disk_write off (take m data) (byte_at ls_files b))"
proof -
  have "map (\<lambda>k. byte_at ls_files b ((off + k) mod 2 ^ 64)) [0..<n] = disk_read off n (byte_at ls_files b)"
    unfolding disk_read_def using assms(3) by (intro map_cong) auto
  then show ?thesis
    using lcs.cas_read_ok [OF assms(1,2,5)] lcs.cas_write_ok [OF assms(1,4,6)] same_bytes [of ls_files b b1] by auto
qed

text \<open>Two bytes of the stored chunk are read.\<close>

theorem disk_reads_and_writes_witness:
  "disk_ok sample_hash sample_disk \<and> (1 :: nat) + 2 \<le> 2 ^ 64 \<and>
   (\<exists>b1 b2. cas_read (local_ops sample_hash) 1 2 sample_disk = (Inr [2, 3], b1) \<and>
      cas_write (local_ops sample_hash) 1 [] sample_disk = (Inr (), b2) \<and>
      [2, 3] = disk_read 1 2 (byte_at ls_files sample_disk) \<and> disk_ok sample_hash b1 \<and>
      byte_at ls_files b2 = byte_at ls_files sample_disk)"
proof -
  have chunk: "read_chunk (local_ops sample_hash) 0 sample_disk = (Inr [1, 2, 3], sample_disk)"
    by (simp add: read_chunk_def sample_disk_def opened_def resolved_def hash_at_def get_hash_def fetch_chunk_def
        local_ops_def local_get_def next_fault_def sample_store_def ZERO_CHUNK_HASH_def)
  have r: "cas_read (local_ops sample_hash) 1 2 sample_disk = (Inr [2, 3], sample_disk)"
    by (simp add: cas_read.simps [of _ "Suc 0" 2] cas_read.simps [of _ _ 0] chunk CHUNK_SIZE_def)
  have w: "cas_write (local_ops sample_hash) 1 [] sample_disk = (Inr (), sample_disk)" by (simp add: cas_write.simps)
  show ?thesis using disk_reads_and_writes [OF sample_disk_ok _ _ _ r w] r w sample_disk_ok by auto
qed

lemma chunk_inside:
  assumes "cas_ok valid holds b" "k < unat (cas_size b)"
  shows "k div CHUNK_SIZE < length (ci_hashes (cb_index b))"
proof -
  have "Suc (k div CHUNK_SIZE) * CHUNK_SIZE \<le> unat (cas_size b) + CHUNK_SIZE - 1"
    using assms(2) div_times_less_eq_dividend [of k CHUNK_SIZE] CHUNK_SIZE_pos unfolding mult_Suc by linarith
  moreover have "length (ci_hashes (cb_index b)) = div_ceil (unat (cas_size b)) CHUNK_SIZE"
    using assms(1) by (simp add: cas_ok_def cas_size_def)
  ultimately show ?thesis using CHUNK_SIZE_pos
    by (simp add: div_ceil_def less_eq_div_iff_mult_less_eq flip: Suc_le_eq)
qed

text \<open>
  C36. A flush loses nothing of the disk, whether it succeeds or not; what was written past the end of the disk it
  drops when it succeeds.
\<close>

theorem flush_keeps_disk:
  assumes "disk_ok hash b" "cas_flush (local_ops hash) b = (r, b')"
  shows "disk_ok hash b' \<and> cas_size b' = cas_size b \<and>
    (\<forall>k < unat (cas_size b). byte_at ls_files b' k = byte_at ls_files b k) \<and>
    (r \<noteq> Inr () \<longrightarrow> byte_at ls_files b' = byte_at ls_files b) \<and>
    (r = Inr () \<longrightarrow> (\<forall>k \<ge> length (ci_hashes (cb_index b)) * CHUNK_SIZE.
       byte_at ls_files b' k = pad_byte (base_chunk ls_files b (k div CHUNK_SIZE)) (k mod CHUNK_SIZE)))"
proof -
  note f = lcs.cas_flush_ok [OF assms]
  note inside = chunk_inside [OF assms(1)]
  have outside: "length (ci_hashes (cb_index b)) \<le> k div CHUNK_SIZE" if "length (ci_hashes (cb_index b)) * CHUNK_SIZE \<le> k" for k
    using that CHUNK_SIZE_pos by (simp add: less_eq_div_iff_mult_less_eq)
  show ?thesis using f inside outside by (simp add: byte_at_def fun_eq_iff cas_size_def)
qed

text \<open>A byte written past the end of the one-chunk disk reads as zero after the flush.\<close>

definition past_end :: "local_store cas" where
  "past_end = put_dirty_chunk 1 [7] sample_disk"

theorem flush_keeps_disk_witness:
  "disk_ok sample_hash past_end \<and> byte_at ls_files past_end 65536 = 7 \<and>
   (\<exists>b'. cas_flush (local_ops sample_hash) past_end = (Inr (), b') \<and> disk_ok sample_hash b' \<and>
      byte_at ls_files b' 65536 = 0 \<and> byte_at ls_files b' 0 = byte_at ls_files past_end 0)"
proof -
  have ok: "disk_ok sample_hash past_end"
    unfolding past_end_def by (rule put_dirty_chunk_ok [OF sample_disk_ok]) (simp add: CHUNK_SIZE_def)
  have d: "cb_dirty past_end = [(1, [7])]" by (simp add: past_end_def put_dirty_chunk_def sample_disk_def opened_def)
  have "sample_hash [7] = ''07''" by (simp add: sample_hash_def hex_byte_def CHUNK_SIZE_def)
  then obtain b' where f: "cas_flush (local_ops sample_hash) past_end = (Inr (), b')"
    by (auto simp: cas_flush_def d local_ops_def local_put_def past_end_def put_dirty_chunk_def sample_disk_def opened_def
        sample_store_def next_fault_def partial_name_def Let_def)
  have n: "length (ci_hashes (cb_index past_end)) = 1" "unat (cas_size past_end) = 65536"
    by (simp_all add: past_end_def put_dirty_chunk_def sample_disk_def opened_def index_new_def cas_size_def)
  have base: "base_chunk ls_files past_end 1 = []"
    by (simp add: base_chunk_def past_end_def put_dirty_chunk_def sample_disk_def opened_def resolved_def hash_at_def
        get_hash_def fallback_chunk_def)
  note k = flush_keeps_disk [OF ok f]
  have "byte_at ls_files b' 65536 = pad_byte (base_chunk ls_files past_end (65536 div CHUNK_SIZE)) (65536 mod CHUNK_SIZE)"
    using k n by (simp add: CHUNK_SIZE_def)
  then have "byte_at ls_files b' 65536 = 0" using base by (simp add: CHUNK_SIZE_def pad_byte_def)
  moreover have "byte_at ls_files past_end 65536 = 7" by (simp add: byte_at_def chunk_at_def d CHUNK_SIZE_def pad_byte_def)
  ultimately show ?thesis using ok f k n by auto
qed

text \<open>
  C39. The file of an index is read back as the index it was written from, and a file cut anywhere, as a crash may
  leave it, is refused at its end.
\<close>

theorem index_file_codec:
  assumes "index_ok ix" "strict_prefix part (index_bytes ix)"
  shows "index_load \<lparr>rd_bytes = index_bytes ix, rd_end = None\<rparr> = Inr ix \<and>
    index_load \<lparr>rd_bytes = part, rd_end = None\<rparr> = Inl (IndexIo UnexpectedEof)"
proof -
  obtain p where p: "exact_for p (index_bytes ix) ix" "\<And>r. index_load r = fst (p r)"
    using index_load_exact [OF assms(1)] by blast
  have "p \<lparr>rd_bytes = index_bytes ix @ [], rd_end = None\<rparr> = (Inr ix, \<lparr>rd_bytes = [], rd_end = None\<rparr>)"
    "fst (p \<lparr>rd_bytes = part, rd_end = None\<rparr>) = Inl (IndexIo UnexpectedEof)"
    using p(1) assms(2) unfolding exact_for_def by blast+
  then show ?thesis by (simp add: p(2))
qed

text \<open>The index of the sample disk, and its file cut after the size.\<close>

theorem index_file_codec_witness:
  "index_ok (cb_index sample_disk) \<and> strict_prefix (to_le_bytes (0x10000 :: u64)) (index_bytes (cb_index sample_disk)) \<and>
   index_load \<lparr>rd_bytes = index_bytes (cb_index sample_disk), rd_end = None\<rparr> = Inr (cb_index sample_disk)"
proof -
  have ok: "index_ok (cb_index sample_disk)"
    by (simp add: index_ok_def sample_disk_def opened_def index_new_def path_ok_def div_ceil_def CHUNK_SIZE_def text_ok_def ascii_def)
  have cut: "strict_prefix (to_le_bytes (0x10000 :: u64)) (index_bytes (cb_index sample_disk))"
    by (simp add: index_bytes_def sample_disk_def opened_def index_new_def strict_prefix_def prefix_def text_bytes_def ascii_def)
  show ?thesis using index_file_codec [OF ok cut] ok cut by simp
qed

text \<open>
  A checkpoint restores the disk: the index a save writes, read back from its file, opens without any parent or
  base file and has every byte the disk had, and the save changes no byte of the disk itself.
\<close>

lemma saved_index_opens:
  assumes "disk_ok hash b" "save_index (local_ops hash) b = (Some (Inr ix), b')"
    "index_save None path ix files = (Inr (), files')"
  shows "index_open files' path = Inr ix \<and>
    (\<exists>d. cas_new files' (cb_store b') ix None = Some d \<and> disk_ok hash d \<and> cas_size d = cas_size b \<and>
       (\<forall>k < unat (cas_size b). byte_at ls_files d k = byte_at ls_files b k \<and> byte_at ls_files b' k = byte_at ls_files b k))"
proof -
  note s = lcs.save_index_ok [OF assms(1,2)]
  then have d: "disk_ok hash (opened (cb_store b') ix)" "ci_disk_size ix = cas_size b" "ci_parent ix = None" "ci_fallback ix = None"
    "length (ci_hashes ix) = length (ci_hashes (cb_index b))"
    by (simp_all add: is_disk_def cas_size_def)
  have "index_ok ix" using d assms(1) by (auto simp: index_ok_def cas_ok_def opened_def refs_held_def path_ok_def cas_size_def)
  then obtain p where p: "exact_for p (index_bytes ix) ix" "\<And>r. index_load r = fst (p r)"
    using index_load_exact by blast
  have "p \<lparr>rd_bytes = index_bytes ix @ [], rd_end = None\<rparr> = (Inr ix, \<lparr>rd_bytes = [], rd_end = None\<rparr>)"
    using p(1) unfolding exact_for_def by blast
  then have o: "index_open files' path = Inr ix" using assms(3) p(2) by (auto simp: index_save_def index_open_def)
  have new: "cas_new files' (cb_store b') ix None = Some (opened (cb_store b') ix)"
    by (simp add: cas_new_def d(3) load_parent_chain.simps opened_def)
  have bytes: "byte_at ls_files (opened (cb_store b') ix) k = byte_at ls_files b k \<and> byte_at ls_files b' k = byte_at ls_files b k"
    if "k < unat (cas_size b)" for k
    using s chunk_inside [OF assms(1) that] by (simp add: byte_at_def is_disk_def)
  have "cas_size (opened (cb_store b') ix) = cas_size b" by (simp add: cas_size_def opened_def d(2) [unfolded cas_size_def])
  then show ?thesis using o new d(1) bytes by blast
qed

text \<open>
  C40. Following the parents of an index ends when no index is its own ancestor, here by a rank that falls from an index
  to its parent, and never ends at an index that names itself.
\<close>

theorem parent_chain_ends:
  assumes "\<And>path ix p. index_open files path = Inr ix \<Longrightarrow> ci_parent ix = Some p \<Longrightarrow> rank p < (rank path :: nat)"
    and "index_open loop here = Inr own" "ci_parent own = Some here"
  shows "(\<exists>chain. load_parent_chain files parent = Some chain) \<and> load_parent_chain loop (Some here) = None"
proof
  have chain: "\<exists>chain. load_parent_chain files (Some path) = Some chain" for path
  proof (induction "rank path" arbitrary: path rule: less_induct)
    case less
    show ?case
    proof (cases "index_open files path")
      case (Inl e)
      then show ?thesis by (subst load_parent_chain.simps) simp
    next
      case (Inr ix)
      then have "\<exists>chain. load_parent_chain files (ci_parent ix) = Some chain"
        using assms(1) less by (cases "ci_parent ix") (auto simp: load_parent_chain.simps [of _ None])
      then show ?thesis using Inr by (subst load_parent_chain.simps) auto
    qed
  qed
  show "\<exists>chain. load_parent_chain files parent = Some chain"
    using chain by (cases parent) (simp_all add: load_parent_chain.simps [of _ None])
  have "load_parent_chain loop (Some here) \<noteq> Some chain" for chain
  proof (induction "length chain" arbitrary: chain rule: less_induct)
    case less
    show ?case
    proof
      assume "load_parent_chain loop (Some here) = Some chain"
      then obtain rest where "chain = own # rest" "load_parent_chain loop (Some here) = Some rest"
        using assms(2,3) by (subst (asm) load_parent_chain.simps) (auto simp: Option.bind_eq_Some_conv)
      then show False using less [of rest] by simp
    qed
  qed
  then show "load_parent_chain loop (Some here) = None" by (cases "load_parent_chain loop (Some here)") auto
qed

text \<open>No files at all, and an index that is its own parent.\<close>

definition own_parent :: chunk_index where
  "own_parent = (index_new 0)\<lparr>ci_parent := Some ''a''\<rparr>"

theorem parent_chain_ends_witness:
  "(\<exists>chain. load_parent_chain Map.empty (Some ''a'') = Some chain) \<and>
   load_parent_chain [''a'' \<mapsto> \<lparr>rd_bytes = index_bytes own_parent, rd_end = None\<rparr>] (Some ''a'') = None"
proof -
  have ok: "index_ok own_parent"
    by (simp add: own_parent_def index_ok_def index_new_def path_ok_def text_ok_def ascii_def div_ceil_def CHUNK_SIZE_def)
  obtain p where p: "exact_for p (index_bytes own_parent) own_parent" "\<And>r. index_load r = fst (p r)"
    using index_load_exact [OF ok] by blast
  have "p \<lparr>rd_bytes = index_bytes own_parent @ [], rd_end = None\<rparr> = (Inr own_parent, \<lparr>rd_bytes = [], rd_end = None\<rparr>)"
    using p(1) unfolding exact_for_def by blast
  then have o: "index_open [''a'' \<mapsto> \<lparr>rd_bytes = index_bytes own_parent, rd_end = None\<rparr>] ''a'' = Inr own_parent"
    by (simp add: index_open_def p(2))
  show ?thesis
    by (rule parent_chain_ends [where rank = length, OF _ o]) (simp_all add: index_open_def own_parent_def)
qed

text \<open>
  C38. Wherever a put of a chunk stops, by an error or by a crash, every file with the name of a chunk has the whole
  content of that chunk, and no chunk that was there is lost.
\<close>

theorem put_leaves_whole_chunks:
  assumes "files_ok hash files" "length d \<le> CHUNK_SIZE" "files partial = None" "files (hash d) = None"
    "partial = partial_name pid seq"
  shows "files_ok hash (put_files step partial (hash d) d files) \<and>
    (\<forall>h e. files h = Some e \<longrightarrow> put_files step partial (hash d) d files h = Some e)"
  using put_files_ok(1) [OF assms(1-3)] put_files_keeps [OF _ assms(3,4)] partial_not_hex assms(5) by blast

text \<open>A chunk of one byte into the sample store, stopped before its rename.\<close>

theorem put_leaves_whole_chunks_witness:
  "files_ok sample_hash (ls_files sample_store) \<and>
   files_ok sample_hash (put_files (Some RenameChunk) (partial_name 1 0) (sample_hash [7]) [7] (ls_files sample_store)) \<and>
   put_files (Some RenameChunk) (partial_name 1 0) (sample_hash [7]) [7] (ls_files sample_store) ''010203'' = Some [1, 2, 3]"
proof -
  have f: "files_ok sample_hash (ls_files sample_store)" using sample_disk_ok by (simp add: cas_ok_def sample_disk_def opened_def)
  have p: "ls_files sample_store (partial_name 1 0) = None" by (simp add: sample_store_def partial_name_def)
  have h: "ls_files sample_store (sample_hash [7]) = None"
    by (simp add: sample_store_def sample_hash_def hex_byte_def CHUNK_SIZE_def)
  have "ls_files sample_store ''010203'' = Some [1, 2, 3]" by (simp add: sample_store_def)
  then show ?thesis using put_leaves_whole_chunks [OF f _ p h refl, of "Some RenameChunk"] f by (simp add: CHUNK_SIZE_def)
qed

end
