(* ===== verification/Store_Nbd.thy ===== *)
theory Store_Nbd
  imports Store_Disk
begin

text \<open>
  The NBD server in front of a disk, \<^verbatim>\<open>crates/shuru-store/src/nbd.rs\<close>, and how \<^verbatim>\<open>lib.rs\<close> opens the disk it serves:
  the option negotiation, the requests, and the contract of \<^verbatim>\<open>trait NbdBackend\<close> with its two implementations.
\<close>

section \<open>Constants\<close>

definition NBDMAGIC :: u64 where "NBDMAGIC = 0x4e42444d41474943"
definition IHAVEOPT :: u64 where "IHAVEOPT = 0x49484156454F5054"
definition REPLY_MAGIC :: u64 where "REPLY_MAGIC = 0x3e889045565a9"
definition NBD_FLAG_FIXED_NEWSTYLE :: u16 where "NBD_FLAG_FIXED_NEWSTYLE = 1"
definition NBD_FLAG_NO_ZEROES :: u16 where "NBD_FLAG_NO_ZEROES = 2"
definition NBD_FLAG_C_NO_ZEROES :: u32 where "NBD_FLAG_C_NO_ZEROES = 2"
definition NBD_FLAG_HAS_FLAGS :: u16 where "NBD_FLAG_HAS_FLAGS = 1"
definition NBD_FLAG_SEND_FLUSH :: u16 where "NBD_FLAG_SEND_FLUSH = 4"
definition NBD_OPT_EXPORT_NAME :: u32 where "NBD_OPT_EXPORT_NAME = 1"
definition NBD_OPT_ABORT :: u32 where "NBD_OPT_ABORT = 2"
definition NBD_OPT_INFO :: u32 where "NBD_OPT_INFO = 6"
definition NBD_OPT_GO :: u32 where "NBD_OPT_GO = 7"
definition NBD_REP_ACK :: u32 where "NBD_REP_ACK = 1"
definition NBD_REP_INFO :: u32 where "NBD_REP_INFO = 3"
definition NBD_REP_ERR_UNSUP :: u32 where "NBD_REP_ERR_UNSUP = 0x80000001"
definition NBD_INFO_EXPORT :: u16 where "NBD_INFO_EXPORT = 0"
definition NBD_CMD_READ :: u16 where "NBD_CMD_READ = 0"
definition NBD_CMD_WRITE :: u16 where "NBD_CMD_WRITE = 1"
definition NBD_CMD_DISC :: u16 where "NBD_CMD_DISC = 2"
definition NBD_CMD_FLUSH :: u16 where "NBD_CMD_FLUSH = 3"
definition REQUEST_MAGIC :: u32 where "REQUEST_MAGIC = 0x25609513"
definition NBD_SIMPLE_REPLY_MAGIC :: u32 where "NBD_SIMPLE_REPLY_MAGIC = 0x67446698"
definition NBD_OK :: u32 where "NBD_OK = 0"
definition NBD_EIO :: u32 where "NBD_EIO = 5"
definition NBD_EINVAL :: u32 where "NBD_EINVAL = 22"

lemmas nbd_constants =
  NBD_OPT_EXPORT_NAME_def NBD_OPT_ABORT_def NBD_OPT_INFO_def NBD_OPT_GO_def
  NBD_CMD_READ_def NBD_CMD_WRITE_def NBD_CMD_DISC_def NBD_CMD_FLUSH_def

section \<open>A session\<close>

text \<open>
  The operations of a backend, as the server sees them: a read gives the bytes it filled in, a write how many it
  took. A session is the socket and the backend.
\<close>

record 'd backend_ops =
  bo_size :: "'d \<Rightarrow> u64"
  bo_read :: "nat \<Rightarrow> nat \<Rightarrow> 'd \<Rightarrow> (io_error + bytes) \<times> 'd"
  bo_write :: "nat \<Rightarrow> bytes \<Rightarrow> 'd \<Rightarrow> (io_error + nat) \<times> 'd"
  bo_flush :: "'d \<Rightarrow> (io_error + unit) \<times> 'd"

record 'd session =
  se_in :: reader
  se_out :: writer
  se_disk :: 'd

datatype nbd_error = NbdIo io_error | BadOptionMagic | BadRequestMagic | ClientAborted

definition se_read :: "nat \<Rightarrow> 'd session \<Rightarrow> (nbd_error + bytes) \<times> 'd session" where
  "se_read n s =
     (case read_exact n (se_in s) of
        (r, i) \<Rightarrow> ((case r of Inl e \<Rightarrow> Inl (NbdIo e) | Inr bs \<Rightarrow> Inr bs), s\<lparr>se_in := i\<rparr>))"

definition se_write :: "bytes \<Rightarrow> 'd session \<Rightarrow> (nbd_error + unit) \<times> 'd session" where
  "se_write bs s =
     (case write_all bs (se_out s) of
        (r, w) \<Rightarrow> ((case r of Inl e \<Rightarrow> Inl (NbdIo e) | Inr _ \<Rightarrow> Inr ()), s\<lparr>se_out := w\<rparr>))"

fun se_writes :: "bytes list \<Rightarrow> 'd session \<Rightarrow> (nbd_error + unit) \<times> 'd session" where
  "se_writes [] s = (Inr (), s)"
| "se_writes (bs # bss) s = and_then (se_write bs s) (\<lambda>_ s. se_writes bss s)"

section \<open>The handshake\<close>

definition send_option_reply :: "u32 \<Rightarrow> u32 \<Rightarrow> bytes \<Rightarrow> 'd session \<Rightarrow> (nbd_error + unit) \<times> 'd session" where
  "send_option_reply opt reply_type data s =
     se_writes ([to_be_bytes REPLY_MAGIC, to_be_bytes opt, to_be_bytes reply_type,
                 to_be_bytes (word_of_nat (length data) :: u32)] @ (if data = [] then [] else [data])) s"

definition trans_flags :: u16 where
  "trans_flags = NBD_FLAG_HAS_FLAGS OR NBD_FLAG_SEND_FLUSH"

definition send_export_info :: "'d backend_ops \<Rightarrow> u32 \<Rightarrow> 'd session \<Rightarrow> (nbd_error + unit) \<times> 'd session" where
  "send_export_info ops opt s =
     (let info = to_be_bytes NBD_INFO_EXPORT @ to_be_bytes (bo_size ops (se_disk s)) @ to_be_bytes trans_flags
      in and_then (send_option_reply opt NBD_REP_INFO info s) (\<lambda>_ s. send_option_reply opt NBD_REP_ACK [] s))"

text \<open>One option; the answer is whether the negotiation is over.\<close>

definition handle_option :: "'d backend_ops \<Rightarrow> bool \<Rightarrow> u32 \<Rightarrow> 'd session \<Rightarrow> (nbd_error + bool) \<times> 'd session" where
  "handle_option ops no_zeroes opt s =
     (if opt = NBD_OPT_EXPORT_NAME then
        and_then (se_writes ([to_be_bytes (bo_size ops (se_disk s)), to_be_bytes trans_flags] @
          (if no_zeroes then [] else [replicate 124 0])) s) (\<lambda>_ s. (Inr True, s))
      else if opt = NBD_OPT_INFO \<or> opt = NBD_OPT_GO then
        and_then (send_export_info ops opt s) (\<lambda>_ s. (Inr (opt = NBD_OPT_GO), s))
      else if opt = NBD_OPT_ABORT then
        and_then (send_option_reply opt NBD_REP_ACK [] s) (\<lambda>_ s. (Inl ClientAborted, s))
      else
        and_then (send_option_reply opt NBD_REP_ERR_UNSUP [] s) (\<lambda>_ s. (Inr False, s)))"

definition read_option :: "'d session \<Rightarrow> (nbd_error + u32 \<times> bytes) \<times> 'd session" where
  "read_option s =
     and_then (se_read 16 s) (\<lambda>h s.
       if (from_be_bytes (take 8 h) :: u64) \<noteq> IHAVEOPT then (Inl BadOptionMagic, s)
       else
         and_then (se_read (unat (from_be_bytes (drop 12 h) :: u32)) s) (\<lambda>data s.
           (Inr (from_be_bytes (take 4 (drop 8 h)), data), s)))"

lemma and_then_cong [fundef_cong]:
  "m = m' \<Longrightarrow> (\<And>x s. m' = (Inr x, s) \<Longrightarrow> k x s = k' x s) \<Longrightarrow> and_then m k = and_then m' k'"
  by (cases m') (auto simp: and_then_def split: sum.split)

abbreviation unread :: "'d session \<Rightarrow> nat" where
  "unread s \<equiv> length (rd_bytes (se_in s))"

lemma se_read_unread: "se_read n s = (Inr bs, s') \<Longrightarrow> unread s' + n = unread s \<and> length bs = n"
  by (auto simp: se_read_def read_exact_def split: if_splits)

lemma se_writes_in: "se_writes bss s = (r, s') \<Longrightarrow> se_in s' = se_in s"
proof (induction bss arbitrary: s)
  case (Cons bs bss)
  obtain q s1 where q: "se_write bs s = (q, s1)" by fastforce
  then have "se_in s1 = se_in s" by (auto simp: se_write_def split: prod.splits)
  then show ?case using Cons q by (cases q) auto
qed simp

lemma send_option_reply_in: "send_option_reply opt t data s = (r, s') \<Longrightarrow> se_in s' = se_in s"
  unfolding send_option_reply_def by (rule se_writes_in)

lemma send_export_info_in: "send_export_info ops opt s = (r, s') \<Longrightarrow> se_in s' = se_in s"
  by (auto simp: send_export_info_def Let_def dest!: send_option_reply_in elim!: and_then_cases)

lemma handle_option_in: "handle_option ops z opt s = (r, s') \<Longrightarrow> se_in s' = se_in s"
  by (auto simp: handle_option_def split: if_splits simp del: se_writes.simps
      dest!: se_writes_in send_export_info_in send_option_reply_in elim!: and_then_cases)

lemma read_option_unread: "read_option s = (Inr x, s') \<Longrightarrow> unread s' < unread s"
  by (auto simp: read_option_def split: if_splits dest!: se_read_unread elim!: and_then_cases)

function negotiate :: "'d backend_ops \<Rightarrow> bool \<Rightarrow> 'd session \<Rightarrow> (nbd_error + unit) \<times> 'd session" where
  "negotiate ops no_zeroes s =
     and_then (read_option s) (\<lambda>x s.
     and_then (handle_option ops no_zeroes (fst x) s) (\<lambda>over s.
       if over then (Inr (), s) else negotiate ops no_zeroes s))"
  by pat_completeness auto
termination
proof (relation "measure (\<lambda>(ops, z, s). unread s)", goal_cases)
  case (2 ops z s x s1 over s2)
  then show ?case using read_option_unread [of s x s1] handle_option_in [of ops z "fst x" s1 "Inr over" s2] by simp
qed simp

declare negotiate.simps [simp del]

definition handshake :: "'d backend_ops \<Rightarrow> 'd session \<Rightarrow> (nbd_error + unit) \<times> 'd session" where
  "handshake ops s =
     and_then (se_writes [to_be_bytes NBDMAGIC, to_be_bytes IHAVEOPT,
                          to_be_bytes (NBD_FLAG_FIXED_NEWSTYLE OR NBD_FLAG_NO_ZEROES)] s) (\<lambda>_ s.
     and_then (se_read 4 s) (\<lambda>flags s.
       negotiate ops ((from_be_bytes flags :: u32) AND NBD_FLAG_C_NO_ZEROES \<noteq> 0) s))"

section \<open>The requests\<close>

definition send_reply :: "u32 \<Rightarrow> bytes \<Rightarrow> bytes option \<Rightarrow> 'd session \<Rightarrow> (nbd_error + unit) \<times> 'd session" where
  "send_reply err handle data s =
     se_writes ([to_be_bytes NBD_SIMPLE_REPLY_MAGIC, to_be_bytes err, handle] @
       (case data of Some d \<Rightarrow> [d] | None \<Rightarrow> [])) s"

text \<open>One request behind its header; the answer is whether another one follows.\<close>

definition serve_request :: "'d backend_ops \<Rightarrow> bytes \<Rightarrow> 'd session \<Rightarrow> (nbd_error + bool) \<times> 'd session" where
  "serve_request ops h s =
     (let cmd = from_be_bytes (take 2 (drop 6 h)) :: u16; handle = take 8 (drop 8 h);
          off = unat (from_be_bytes (take 8 (drop 16 h)) :: u64); len = unat (from_be_bytes (drop 24 h) :: u32)
      in if (from_be_bytes (take 4 h) :: u32) \<noteq> REQUEST_MAGIC then (Inl BadRequestMagic, s)
         else if cmd = NBD_CMD_READ then
           (case bo_read ops off len (se_disk s) of
              (r, d) \<Rightarrow>
                and_then (case r of
                    Inr bs \<Rightarrow> send_reply NBD_OK handle (Some (bs @ replicate (len - length bs) 0)) (s\<lparr>se_disk := d\<rparr>)
                  | Inl e \<Rightarrow> send_reply NBD_EIO handle None (s\<lparr>se_disk := d\<rparr>)) (\<lambda>_ s. (Inr True, s)))
         else if cmd = NBD_CMD_WRITE then
           and_then (se_read len s) (\<lambda>data s.
             case bo_write ops off data (se_disk s) of
               (r, d) \<Rightarrow>
                 and_then (send_reply (case r of Inr _ \<Rightarrow> NBD_OK | Inl e \<Rightarrow> NBD_EIO) handle None (s\<lparr>se_disk := d\<rparr>))
                   (\<lambda>_ s. (Inr True, s)))
         else if cmd = NBD_CMD_FLUSH then
           (case bo_flush ops (se_disk s) of
              (r, d) \<Rightarrow>
                and_then (send_reply (case r of Inr _ \<Rightarrow> NBD_OK | Inl e \<Rightarrow> NBD_EIO) handle None (s\<lparr>se_disk := d\<rparr>))
                  (\<lambda>_ s. (Inr True, s)))
         else if cmd = NBD_CMD_DISC then (Inr False, s)
         else and_then (send_reply NBD_EINVAL handle None s) (\<lambda>_ s. (Inr True, s)))"

lemma send_reply_in: "send_reply err handle data s = (r, s') \<Longrightarrow> se_in s' = se_in s"
  unfolding send_reply_def by (rule se_writes_in)

lemma serve_request_unread: "serve_request ops h s = (Inr go, s') \<Longrightarrow> unread s' \<le> unread s"
  by (auto simp: serve_request_def Let_def split: if_splits prod.splits sum.splits
      dest!: send_reply_in se_read_unread elim!: and_then_cases)

function transmission :: "'d backend_ops \<Rightarrow> 'd session \<Rightarrow> (nbd_error + unit) \<times> 'd session" where
  "transmission ops s =
     (case se_read 28 s of
        (r, s1) \<Rightarrow>
          (case r of
             Inl e \<Rightarrow> (Inr (), s1)
           | Inr h \<Rightarrow>
               and_then (serve_request ops h s1) (\<lambda>more s. if more then transmission ops s else (Inr (), s))))"
  by pat_completeness auto
termination
proof (relation "measure (\<lambda>(ops, s). unread s)", goal_cases)
  case (2 ops s r s1 h go s2)
  then show ?case using se_read_unread [of 28 s h s1] serve_request_unread [of ops h s1 go s2] by simp
qed simp

declare transmission.simps [simp del]

definition handle_client :: "'d backend_ops \<Rightarrow> 'd session \<Rightarrow> (nbd_error + unit) \<times> 'd session" where
  "handle_client ops s = and_then (handshake ops s) (\<lambda>_ s. transmission ops s)"

section \<open>What a backend promises\<close>

text \<open>
  The contract of \<^verbatim>\<open>NbdBackend\<close> for requests inside the disk, in terms of the bytes it has: a read tells them, a write
  that succeeds replaces those of its range, a write that fails a prefix at most, a flush none. A backend is \<open>sure\<close>
  when none of its calls will fail.
\<close>

definition clip :: "nat \<Rightarrow> disk \<Rightarrow> disk" where
  "clip n D = (\<lambda>k. if k < n then D k else 0)"

locale nbd_backend =
  fixes ops :: "'d backend_ops"
    and ok :: "'d \<Rightarrow> bool"
    and sure :: "'d \<Rightarrow> bool"
    and contents :: "'d \<Rightarrow> disk"
  assumes read_law: "ok d \<Longrightarrow> off + n \<le> unat (bo_size ops d) \<Longrightarrow> bo_read ops off n d = (r, d') \<Longrightarrow>
      ok d' \<and> contents d' = contents d \<and> bo_size ops d' = bo_size ops d \<and>
      (\<forall>bs. r = Inr bs \<longrightarrow> bs @ replicate (n - length bs) 0 = disk_read off n (contents d)) \<and>
      (sure d \<longrightarrow> sure d' \<and> (\<exists>bs. r = Inr bs))"
    and write_law: "ok d \<Longrightarrow> off + length data \<le> unat (bo_size ops d) \<Longrightarrow> bo_write ops off data d = (w, d') \<Longrightarrow>
      ok d' \<and> bo_size ops d' = bo_size ops d \<and>
      (\<exists>m. (\<forall>k. w = Inr k \<longrightarrow> m = length data) \<and> contents d' = disk_write off (take m data) (contents d)) \<and>
      (sure d \<longrightarrow> sure d' \<and> (\<exists>k. w = Inr k))"
    and flush_law: "ok d \<Longrightarrow> bo_flush ops d = (f, d') \<Longrightarrow>
      ok d' \<and> contents d' = contents d \<and> bo_size ops d' = bo_size ops d \<and> (sure d \<longrightarrow> sure d' \<and> f = Inr ())"

text \<open>The requests a client sends inside a disk of some size, and the replies a disk gives to
  them, no error among them when it is sure.\<close>

datatype request = ReadReq bytes nat nat | WriteReq bytes nat bytes | FlushReq bytes

definition request_header :: "u16 \<Rightarrow> bytes \<Rightarrow> nat \<Rightarrow> nat \<Rightarrow> bytes" where
  "request_header cmd handle off n =
     to_be_bytes REQUEST_MAGIC @ to_be_bytes (0 :: u16) @ to_be_bytes cmd @ handle @
     to_be_bytes (word_of_nat off :: u64) @ to_be_bytes (word_of_nat n :: u32)"

fun request_bytes :: "request \<Rightarrow> bytes" where
  "request_bytes (ReadReq handle off n) = request_header NBD_CMD_READ handle off n"
| "request_bytes (WriteReq handle off data) = request_header NBD_CMD_WRITE handle off (length data) @ data"
| "request_bytes (FlushReq handle) = request_header NBD_CMD_FLUSH handle 0 0"

fun request_ok :: "nat \<Rightarrow> request \<Rightarrow> bool" where
  "request_ok sz (ReadReq handle off n) \<longleftrightarrow> length handle = 8 \<and> off + n \<le> sz \<and> n < 2 ^ 32"
| "request_ok sz (WriteReq handle off data) \<longleftrightarrow> length handle = 8 \<and> off + length data \<le> sz \<and> length data < 2 ^ 32"
| "request_ok sz (FlushReq handle) \<longleftrightarrow> length handle = 8"

definition reply_bytes :: "u32 \<Rightarrow> bytes \<Rightarrow> bytes" where
  "reply_bytes err handle = to_be_bytes NBD_SIMPLE_REPLY_MAGIC @ to_be_bytes err @ handle"

inductive replies :: "bool \<Rightarrow> disk \<Rightarrow> request list \<Rightarrow> bytes \<Rightarrow> disk \<Rightarrow> bool" where
  replies_none: "replies sure D [] [] D"
| replies_read: "replies sure D reqs out D' \<Longrightarrow>
    replies sure D (ReadReq handle off n # reqs) (reply_bytes NBD_OK handle @ disk_read off n D @ out) D'"
| replies_read_error: "\<not> sure \<Longrightarrow> replies sure D reqs out D' \<Longrightarrow>
    replies sure D (ReadReq handle off n # reqs) (reply_bytes NBD_EIO handle @ out) D'"
| replies_write: "replies sure (disk_write off data D) reqs out D' \<Longrightarrow>
    replies sure D (WriteReq handle off data # reqs) (reply_bytes NBD_OK handle @ out) D'"
| replies_write_error: "\<not> sure \<Longrightarrow> replies sure (disk_write off (take m data) D) reqs out D' \<Longrightarrow>
    replies sure D (WriteReq handle off data # reqs) (reply_bytes NBD_EIO handle @ out) D'"
| replies_flush: "replies sure D reqs out D' \<Longrightarrow> err = NBD_OK \<or> \<not> sure \<and> err = NBD_EIO \<Longrightarrow>
    replies sure D (FlushReq handle # reqs) (reply_bytes err handle @ out) D'"

lemma header_fields:
  fixes cmd :: u16
  assumes "length handle = 8" "off < 2 ^ 64" "n < 2 ^ 32"
  defines "h \<equiv> request_header cmd handle off n"
  shows "length h = 28" "(from_be_bytes (take 4 h) :: u32) = REQUEST_MAGIC" "(from_be_bytes (take 2 (drop 6 h)) :: u16) = cmd"
    "take 8 (drop 8 h) = handle" "unat (from_be_bytes (take 8 (drop 16 h)) :: u64) = off"
    "unat (from_be_bytes (drop 24 h) :: u32) = n"
  using assms by (simp_all add: request_header_def codec_simps unat_of_nat)

definition with_out :: "bytes \<Rightarrow> 'd session \<Rightarrow> 'd session" where
  "with_out bs s = s\<lparr>se_out := (se_out s)\<lparr>wr_out := wr_out (se_out s) @ bs\<rparr>\<rparr>"

lemma with_out_fields [simp]:
  "se_in (with_out bs s) = se_in s" "se_disk (with_out bs s) = se_disk s"
  "wr_fail (se_out (with_out bs s)) = wr_fail (se_out s)" "wr_out (se_out (with_out bs s)) = wr_out (se_out s) @ bs"
  by (simp_all add: with_out_def)

lemma se_writes_ok: "wr_fail (se_out s) = None \<Longrightarrow> se_writes bss s = (Inr (), with_out (concat bss) s)"
  by (induction bss arbitrary: s) (simp_all add: se_write_def write_all_def with_out_def)

lemma send_reply_ok:
  "wr_fail (se_out s) = None \<Longrightarrow>
     send_reply err handle data s = (Inr (), with_out (reply_bytes err handle @ (case data of Some d \<Rightarrow> d | None \<Rightarrow> [])) s)"
  by (simp add: send_reply_def se_writes_ok reply_bytes_def del: se_writes.simps split: option.split)

lemma se_read_append:
  "length xs = n \<Longrightarrow> rd_bytes (se_in s) = xs @ ys \<Longrightarrow>
     se_read n s = (Inr xs, s\<lparr>se_in := (se_in s)\<lparr>rd_bytes := ys\<rparr>\<rparr>)"
  by (simp add: se_read_def read_exact_def)

context nbd_backend
begin

lemma serve_one:
  assumes "ok (se_disk s)" "request_ok (unat (bo_size ops (se_disk s))) req" "wr_fail (se_out s) = None"
    "rd_bytes (se_in s) = request_bytes req @ rest" "q \<longrightarrow> sure (se_disk s)"
  obtains h s1 s2 out where "se_read 28 s = (Inr h, s1)" "serve_request ops h s1 = (Inr True, s2)" "ok (se_disk s2)"
    "bo_size ops (se_disk s2) = bo_size ops (se_disk s)" "wr_fail (se_out s2) = None"
    "wr_out (se_out s2) = wr_out (se_out s) @ out" "rd_bytes (se_in s2) = rest" "q \<longrightarrow> sure (se_disk s2)"
    "\<forall>reqs tail D'. replies q (contents (se_disk s2)) reqs tail D' \<longrightarrow> replies q (contents (se_disk s)) (req # reqs) (out @ tail) D'"
proof -
  have sz: "unat (bo_size ops (se_disk s)) < 2 ^ 64" using unat_word_bound [of "bo_size ops (se_disk s)"] by simp
  show thesis
  proof (cases req)
    case (ReadReq handle off n)
    let ?h = "request_header NBD_CMD_READ handle off n" and ?s1 = "s\<lparr>se_in := (se_in s)\<lparr>rd_bytes := rest\<rparr>\<rparr>"
    have r: "length handle = 8" "off < 2 ^ 64" "n < 2 ^ 32" "off + n \<le> unat (bo_size ops (se_disk s))"
      using assms(2) sz ReadReq by auto
    note f = header_fields [OF r(1-3), of NBD_CMD_READ]
    have rd: "se_read 28 s = (Inr ?h, ?s1)" using f(1) assms(4) ReadReq by (intro se_read_append) simp_all
    obtain z d where z: "bo_read ops off n (se_disk s) = (z, d)" by fastforce
    note law = read_law [OF assms(1) r(4) z]
    let ?out = "case z of Inr bs \<Rightarrow> reply_bytes NBD_OK handle @ disk_read off n (contents (se_disk s)) | Inl e \<Rightarrow> reply_bytes NBD_EIO handle"
    have sr: "serve_request ops ?h ?s1 = (Inr True, with_out ?out (?s1\<lparr>se_disk := d\<rparr>))"
      using f z law assms(3) by (cases z) (simp_all add: serve_request_def Let_def send_reply_ok)
    show thesis using law assms(3,5) ReadReq
      by (intro that [OF rd sr]) (auto intro: replies_read replies_read_error split: sum.split)
  next
    case (WriteReq handle off data)
    let ?h = "request_header NBD_CMD_WRITE handle off (length data)"
    let ?s1 = "s\<lparr>se_in := (se_in s)\<lparr>rd_bytes := data @ rest\<rparr>\<rparr>" and ?s2 = "s\<lparr>se_in := (se_in s)\<lparr>rd_bytes := rest\<rparr>\<rparr>"
    have r: "length handle = 8" "off < 2 ^ 64" "length data < 2 ^ 32" "off + length data \<le> unat (bo_size ops (se_disk s))"
      using assms(2) sz WriteReq by auto
    note f = header_fields [OF r(1-3), of NBD_CMD_WRITE]
    have rd: "se_read 28 s = (Inr ?h, ?s1)" using f(1) assms(4) WriteReq by (intro se_read_append) simp_all
    have rd2: "se_read (length data) ?s1 = (Inr data, ?s2)" using se_read_append [of data "length data" ?s1 rest] by simp
    obtain z d where z: "bo_write ops off data (se_disk s) = (z, d)" by fastforce
    note law = write_law [OF assms(1) r(4) z]
    let ?out = "reply_bytes (case z of Inr _ \<Rightarrow> NBD_OK | Inl e \<Rightarrow> NBD_EIO) handle"
    have sr: "serve_request ops ?h ?s1 = (Inr True, with_out ?out (?s2\<lparr>se_disk := d\<rparr>))"
      using f z rd2 assms(3) by (cases z) (simp_all add: serve_request_def Let_def send_reply_ok nbd_constants)
    have "replies q (contents d) reqs tail D' \<Longrightarrow> replies q (contents (se_disk s)) (req # reqs) (?out @ tail) D'" for reqs tail D'
      using law assms(5) WriteReq by (cases z) (auto intro: replies_write replies_write_error)
    then show thesis using law assms(3,5) by (intro that [OF rd sr]) auto
  next
    case (FlushReq handle)
    let ?h = "request_header NBD_CMD_FLUSH handle 0 0" and ?s1 = "s\<lparr>se_in := (se_in s)\<lparr>rd_bytes := rest\<rparr>\<rparr>"
    have r: "length handle = 8" "(0 :: nat) < 2 ^ 64" "(0 :: nat) < 2 ^ 32" using assms(2) FlushReq by auto
    note f = header_fields [OF r, of NBD_CMD_FLUSH]
    have rd: "se_read 28 s = (Inr ?h, ?s1)" using f(1) assms(4) FlushReq by (intro se_read_append) simp_all
    obtain z d where z: "bo_flush ops (se_disk s) = (z, d)" by fastforce
    note law = flush_law [OF assms(1) z]
    let ?out = "reply_bytes (case z of Inr _ \<Rightarrow> NBD_OK | Inl e \<Rightarrow> NBD_EIO) handle"
    have sr: "serve_request ops ?h ?s1 = (Inr True, with_out ?out (?s1\<lparr>se_disk := d\<rparr>))"
      using f z assms(3) by (cases z) (simp_all add: serve_request_def Let_def send_reply_ok nbd_constants)
    show thesis using law assms(3,5) FlushReq
      by (intro that [OF rd sr]) (auto intro: replies_flush split: sum.split)
  qed
qed

lemma transmission_serves:
  assumes "ok (se_disk s)" "list_all (request_ok (unat (bo_size ops (se_disk s)))) reqs" "wr_fail (se_out s) = None"
    "rd_bytes (se_in s) = concat (map request_bytes reqs)" "q \<longrightarrow> sure (se_disk s)"
  shows "\<exists>s' out. transmission ops s = (Inr (), s') \<and> wr_out (se_out s') = wr_out (se_out s) @ out \<and> ok (se_disk s') \<and>
    replies q (contents (se_disk s)) reqs out (contents (se_disk s'))"
  using assms
proof (induction reqs arbitrary: s)
  case Nil
  then show ?case by (subst transmission.simps) (auto simp: se_read_def read_exact_def intro: replies_none)
next
  case (Cons req reqs)
  have a: "request_ok (unat (bo_size ops (se_disk s))) req" using Cons.prems(2) by simp
  have b: "rd_bytes (se_in s) = request_bytes req @ concat (map request_bytes reqs)" using Cons.prems(4) by simp
  obtain h s1 s2 out where one: "se_read 28 s = (Inr h, s1)" "serve_request ops h s1 = (Inr True, s2)" "ok (se_disk s2)"
    "bo_size ops (se_disk s2) = bo_size ops (se_disk s)" "wr_fail (se_out s2) = None"
    "wr_out (se_out s2) = wr_out (se_out s) @ out" "rd_bytes (se_in s2) = concat (map request_bytes reqs)" "q \<longrightarrow> sure (se_disk s2)"
    "\<forall>reqs tail D'. replies q (contents (se_disk s2)) reqs tail D' \<longrightarrow> replies q (contents (se_disk s)) (req # reqs) (out @ tail) D'"
    by (rule serve_one [OF Cons.prems(1) a Cons.prems(3) b Cons.prems(5)])
  obtain s' tail where ih: "transmission ops s2 = (Inr (), s')" "wr_out (se_out s') = wr_out (se_out s2) @ tail"
    "ok (se_disk s')" "replies q (contents (se_disk s2)) reqs tail (contents (se_disk s'))"
    using Cons.IH [OF one(3) _ one(5,7,8)] Cons.prems(2) one(4) by auto
  have "transmission ops s = transmission ops s2" by (subst transmission.simps) (simp add: one(1,2))
  then show ?case using ih one(6) one(9) ih(4) by auto
qed

end

section \<open>The negotiation\<close>

definition option_bytes :: "u32 \<Rightarrow> bytes \<Rightarrow> bytes" where
  "option_bytes opt data = to_be_bytes IHAVEOPT @ to_be_bytes opt @ to_be_bytes (word_of_nat (length data) :: u32) @ data"

definition option_reply :: "u32 \<Rightarrow> u32 \<Rightarrow> bytes \<Rightarrow> bytes" where
  "option_reply opt t data =
     to_be_bytes REPLY_MAGIC @ to_be_bytes opt @ to_be_bytes t @ to_be_bytes (word_of_nat (length data) :: u32) @ data"

definition greeting :: bytes where
  "greeting = to_be_bytes NBDMAGIC @ to_be_bytes IHAVEOPT @ to_be_bytes (NBD_FLAG_FIXED_NEWSTYLE OR NBD_FLAG_NO_ZEROES)"

definition unknown_option :: "u32 \<times> bytes \<Rightarrow> bool" where
  "unknown_option x \<longleftrightarrow>
     fst x \<notin> {NBD_OPT_EXPORT_NAME, NBD_OPT_ABORT, NBD_OPT_INFO, NBD_OPT_GO} \<and> length (snd x) < 2 ^ 32"

text \<open>The answer to the option that ends the negotiation.\<close>

definition export_reply :: "u32 \<Rightarrow> u64 \<Rightarrow> u32 \<Rightarrow> bytes" where
  "export_reply flags sz opt =
     (if opt = NBD_OPT_GO then
        option_reply opt NBD_REP_INFO (to_be_bytes NBD_INFO_EXPORT @ to_be_bytes sz @ to_be_bytes trans_flags) @
        option_reply opt NBD_REP_ACK []
      else to_be_bytes sz @ to_be_bytes trans_flags @ (if flags AND NBD_FLAG_C_NO_ZEROES \<noteq> 0 then [] else replicate 124 0))"

definition with_in :: "bytes \<Rightarrow> 'd session \<Rightarrow> 'd session" where
  "with_in bs s = s\<lparr>se_in := (se_in s)\<lparr>rd_bytes := bs\<rparr>\<rparr>"

lemma with_in_fields [simp]:
  "rd_bytes (se_in (with_in bs s)) = bs" "se_disk (with_in bs s) = se_disk s" "se_out (with_in bs s) = se_out s"
  "with_in bs (with_in cs s) = with_in bs s" "with_in bs (with_out out s) = with_out out (with_in bs s)"
  "with_out out (with_out out0 s) = with_out (out0 @ out) s"
  by (simp_all add: with_in_def with_out_def)

lemma se_read_with_in:
  "length xs = n \<Longrightarrow> rd_bytes (se_in s) = xs @ ys \<Longrightarrow> se_read n s = (Inr xs, with_in ys s)"
  by (simp add: se_read_append with_in_def)

lemma send_option_reply_ok:
  "wr_fail (se_out s) = None \<Longrightarrow> send_option_reply opt t data s = (Inr (), with_out (option_reply opt t data) s)"
  by (simp add: send_option_reply_def se_writes_ok option_reply_def del: se_writes.simps)

lemma read_option_ok:
  assumes "rd_bytes (se_in s) = option_bytes opt data @ rest" "length data < 2 ^ 32"
  shows "read_option s = (Inr (opt, data), with_in rest s)"
proof -
  let ?n = "to_be_bytes (word_of_nat (length data) :: u32)"
  let ?h = "to_be_bytes IHAVEOPT @ to_be_bytes opt @ ?n"
  have h: "se_read 16 s = (Inr ?h, with_in (data @ rest) s)"
    using assms(1) by (intro se_read_with_in) (simp_all add: option_bytes_def)
  have f: "(from_be_bytes (take 8 ?h) :: u64) = IHAVEOPT" "(from_be_bytes (take 4 (drop 8 ?h)) :: u32) = opt"
    "unat (from_be_bytes (drop 12 ?h) :: u32) = length data"
    using assms(2) by (simp_all add: codec_simps unat_of_nat)
  have d: "se_read (length data) (with_in (data @ rest) s) = (Inr data, with_in rest s)"
    using se_read_with_in [of data "length data" "with_in (data @ rest) s" rest] by simp
  show ?thesis by (simp add: read_option_def h f d del: take_append drop_append append_assoc)
qed

lemma unknown_option_reply:
  "unknown_option (opt, data) \<Longrightarrow> wr_fail (se_out s) = None \<Longrightarrow>
     handle_option ops z opt s = (Inr False, with_out (option_reply opt NBD_REP_ERR_UNSUP []) s)"
  by (simp add: handle_option_def unknown_option_def send_option_reply_ok)

lemma export_option_reply:
  assumes "opt \<in> {NBD_OPT_GO, NBD_OPT_EXPORT_NAME}" "wr_fail (se_out s) = None"
  shows "handle_option ops (flags AND NBD_FLAG_C_NO_ZEROES \<noteq> 0) opt s =
    (Inr True, with_out (export_reply flags (bo_size ops (se_disk s)) opt) s)"
  using assms
  by (auto simp: handle_option_def send_export_info_def send_option_reply_ok se_writes_ok export_reply_def nbd_constants Let_def
      simp del: se_writes.simps)

lemma negotiate_ok:
  assumes "list_all unknown_option opts" "opt \<in> {NBD_OPT_GO, NBD_OPT_EXPORT_NAME}" "length data < 2 ^ 32"
    "rd_bytes (se_in s) = concat (map (\<lambda>(opt, data). option_bytes opt data) opts) @ option_bytes opt data @ rest"
    "wr_fail (se_out s) = None"
  shows "negotiate ops (flags AND NBD_FLAG_C_NO_ZEROES \<noteq> 0) s =
    (Inr (), with_out (concat (map (\<lambda>(opt, data). option_reply opt NBD_REP_ERR_UNSUP []) opts) @
       export_reply flags (bo_size ops (se_disk s)) opt) (with_in rest s))"
  using assms
proof (induction opts arbitrary: s)
  case Nil
  then have "read_option s = (Inr (opt, data), with_in rest s)" by (intro read_option_ok) simp_all
  then show ?case using export_option_reply [OF Nil(2), of "with_in rest s" ops flags] Nil(5)
    by (subst negotiate.simps) simp
next
  case (Cons x opts)
  obtain opt1 data1 where x: "x = (opt1, data1)" by fastforce
  let ?tail = "concat (map (\<lambda>(opt, data). option_bytes opt data) opts) @ option_bytes opt data @ rest"
  have "read_option s = (Inr (opt1, data1), with_in ?tail s)"
    using Cons.prems x by (intro read_option_ok) (simp_all add: unknown_option_def)
  moreover have "handle_option ops z opt1 (with_in ?tail s) =
      (Inr False, with_out (option_reply opt1 NBD_REP_ERR_UNSUP []) (with_in ?tail s))" for z
    using Cons.prems x by (intro unknown_option_reply [of opt1 data1]) simp_all
  ultimately show ?case
    using Cons.IH [of "with_out (option_reply opt1 NBD_REP_ERR_UNSUP []) (with_in ?tail s)"] Cons.prems x
    by (subst negotiate.simps) simp
qed

lemma handshake_ok:
  assumes "list_all unknown_option opts" "opt \<in> {NBD_OPT_GO, NBD_OPT_EXPORT_NAME}" "length data < 2 ^ 32"
    "rd_bytes (se_in s) = to_be_bytes flags @ concat (map (\<lambda>(opt, data). option_bytes opt data) opts) @
       option_bytes opt data @ rest"
    "wr_fail (se_out s) = None"
  shows "handshake ops s =
    (Inr (), with_out (greeting @ concat (map (\<lambda>(opt, data). option_reply opt NBD_REP_ERR_UNSUP []) opts) @
       export_reply flags (bo_size ops (se_disk s)) opt) (with_in rest s))"
proof -
  let ?tail = "concat (map (\<lambda>(opt, data). option_bytes opt data) opts) @ option_bytes opt data @ rest"
  have "se_read 4 (with_out greeting s) = (Inr (to_be_bytes flags), with_in ?tail (with_out greeting s))"
    using assms(4) by (intro se_read_with_in) simp_all
  then show ?thesis
    using negotiate_ok [OF assms(1-3), of "with_out greeting (with_in ?tail s)" rest ops flags] assms(5)
    by (simp add: handshake_def se_writes_ok codec_simps flip: greeting_def del: se_writes.simps)
qed

section \<open>The two backends\<close>

definition cas_backend :: "'s store_ops \<Rightarrow> 's cas backend_ops" where
  "cas_backend ops =
     \<lparr>bo_size = cas_size, bo_read = cas_read ops,
      bo_write = (\<lambda>off data b. case cas_write ops off data b of (r, b) \<Rightarrow> (map_sum id (\<lambda>_. length data) r, b)),
      bo_flush = cas_flush ops\<rparr>"

definition flat_backend :: "flat_file backend_ops" where
  "flat_backend =
     \<lparr>bo_size = (\<lambda>f. word_of_nat (ff_size f)), bo_read = flat_read, bo_write = flat_write, bo_flush = flat_flush\<rparr>"

lemma disk_read_clip: "off + n \<le> sz \<Longrightarrow> disk_read off n (clip sz D) = disk_read off n D"
  by (simp add: disk_read_def clip_def)

lemma disk_write_clip: "off + length bs \<le> sz \<Longrightarrow> clip sz (disk_write off bs D) = disk_write off bs (clip sz D)"
  by (auto simp: disk_write_def clip_def)

lemma length_disk_read [simp]: "length (disk_read off n D) = n"
  by (simp add: disk_read_def)

definition cas_contents :: "local_store cas \<Rightarrow> disk" where
  "cas_contents b = clip (unat (cas_size b)) (byte_at ls_files b)"

text \<open>A disk on which no call fails: none is due to, and no partial file is in the way of the next one.\<close>

definition store_sure :: "local_store \<Rightarrow> bool" where
  "store_sure s \<longleftrightarrow> ls_put_faults s = [] \<and> ls_get_faults s = [] \<and> (\<forall>n. ls_files s (partial_name (ls_pid s) n) = None)"

definition flat_sure :: "flat_file \<Rightarrow> bool" where
  "flat_sure f \<longleftrightarrow> ff_size f = length (ff_data f) \<and> length (ff_data f) < 2 ^ 63 \<and> ff_answers f = []"

definition disk_sure :: "(bytes \<Rightarrow> string) \<Rightarrow> local_store cas \<Rightarrow> bool" where
  "disk_sure hash b \<longleftrightarrow>
     collision_free hash \<and> store_sure (cb_store b) \<and> (\<forall>f. cb_fallback b = Some f \<longrightarrow> flat_sure f)"

lemma sure_put:
  assumes "collision_free hash" "store_sure s"
  obtains h s' where "so_put (local_ops hash) d s = (Inr h, s')" "store_sure s'"
proof -
  have "partial_name pid n \<noteq> hash d" for pid n
    using assms(1) partial_not_hex [of pid n] unfolding collision_free_def by metis
  then show thesis using assms that
    by (cases "ls_files s (hash d)")
      (auto simp: local_ops_def local_put_def store_sure_def next_fault_def Let_def)
qed

lemma sure_get: "store_sure s \<Longrightarrow> so_get (local_ops hash) h s = (Inr (ls_files s h), s)"
  by (simp add: local_ops_def local_get_def store_sure_def next_fault_def)

lemma sure_flat_read:
  "flat_sure f \<Longrightarrow> off + n \<le> ff_size f \<Longrightarrow> flat_read off n f = (Inr (take n (drop off (ff_data f))), f)"
  by (simp add: flat_sure_def flat_read_def next_answer_def)

lemma sure_read_chunk:
  assumes "disk_sure hash b"
  obtains d b' where "read_chunk (local_ops hash) i b = (Inr d, b')" "disk_sure hash b'"
proof (cases "map_of (cb_dirty b) i \<noteq> None \<or> resolved b i \<noteq> ZERO_CHUNK_HASH \<or> cb_fallback b = None")
  case True
  have "so_get (local_ops hash) h (cb_store b) = (Inr (ls_files (cb_store b) h), cb_store b)" for h
    using assms by (intro sure_get) (simp add: disk_sure_def)
  then have "\<exists>d. read_chunk (local_ops hash) i b = (Inr d, b)"
    using True by (auto simp: read_chunk_def fetch_chunk_def read_fallback_def split: option.split)
  then show thesis using assms that by blast
next
  case False
  then obtain fb where fb: "cb_fallback b = Some fb" and sure: "flat_sure fb" "store_sure (cb_store b)" "collision_free hash"
    using assms by (auto simp: disk_sure_def)
  let ?n = "min CHUNK_SIZE (ff_size fb - i * CHUNK_SIZE)"
  obtain h s' where p: "so_put (local_ops hash) (take ?n (drop (i * CHUNK_SIZE) (ff_data fb))) (cb_store b) = (Inr h, s')" "store_sure s'"
    by (rule sure_put [OF sure(3,2)])
  have r: "flat_read (i * CHUNK_SIZE) ?n fb = (Inr (take ?n (drop (i * CHUNK_SIZE) (ff_data fb))), fb)"
    if "i * CHUNK_SIZE < ff_size fb" using sure(1) that by (intro sure_flat_read) simp_all
  have n: "length (take ?n (drop (i * CHUNK_SIZE) (ff_data fb))) = ?n" using sure(1) by (simp add: flat_sure_def)
  have b: "b\<lparr>cb_fallback := Some fb\<rparr> = b" using fb by simp
  show thesis using False fb that r p n assms
    by (cases "i * CHUNK_SIZE < ff_size fb"; cases "list_all (\<lambda>x. x = 0) (take ?n (drop (i * CHUNK_SIZE) (ff_data fb)))")
      (auto simp: read_chunk_def read_fallback_def b disk_sure_def Let_def simp del: length_take)
qed

lemma sure_cas_read:
  "disk_sure hash b \<Longrightarrow> \<exists>bs b'. cas_read (local_ops hash) off n b = (Inr bs, b') \<and> disk_sure hash b'"
proof (induction n arbitrary: off b rule: less_induct)
  case (less n)
  show ?case
  proof (cases "n = 0")
    case True
    then show ?thesis using less.prems by (simp add: cas_read.simps)
  next
    case False
    let ?m = "min (CHUNK_SIZE - off mod CHUNK_SIZE) n"
    obtain d b1 where c: "read_chunk (local_ops hash) (off div CHUNK_SIZE) b = (Inr d, b1)" "disk_sure hash b1"
      by (rule sure_read_chunk [OF less.prems])
    have "n - ?m < n" by (rule chunk_step_less [OF False refl refl])
    from less.IH [OF this c(2), of "(off + ?m) mod 2 ^ 64"] obtain bs b2 where
      "cas_read (local_ops hash) ((off + ?m) mod 2 ^ 64) (n - ?m) b1 = (Inr bs, b2)" "disk_sure hash b2" by blast
    then show ?thesis using False c by (subst cas_read.simps) (simp add: Let_def)
  qed
qed

lemma sure_cas_write:
  "disk_sure hash b \<Longrightarrow> \<exists>b'. cas_write (local_ops hash) off data b = (Inr (), b') \<and> disk_sure hash b'"
proof (induction "length data" arbitrary: off data b rule: less_induct)
  case less
  show ?case
  proof (cases "data = []")
    case True
    then show ?thesis using less.prems by (simp add: cas_write.simps)
  next
    case False
    let ?m = "min (CHUNK_SIZE - off mod CHUNK_SIZE) (length data)"
    obtain d b1 where c: "read_chunk (local_ops hash) (off div CHUNK_SIZE) b = (Inr d, b1)" "disk_sure hash b1"
      by (rule sure_read_chunk [OF less.prems])
    let ?b2 = "put_dirty_chunk (off div CHUNK_SIZE) (overlay (off mod CHUNK_SIZE) (take ?m data) d) b1"
    have "length data - ?m < length data" by (rule chunk_step_less [OF _ refl refl]) (use False in simp)
    then have "length (drop ?m data) < length data" by simp
    moreover have "disk_sure hash ?b2" using c(2) by (simp add: disk_sure_def put_dirty_chunk_def)
    ultimately have "\<exists>b'. cas_write (local_ops hash) ((off + ?m) mod 2 ^ 64) (drop ?m data) ?b2 = (Inr (), b') \<and> disk_sure hash b'"
      by (rule less.hyps)
    then show ?thesis using False c by (subst cas_write.simps) (simp add: Let_def)
  qed
qed

lemma sure_put_dirty:
  "disk_sure hash b \<Longrightarrow> \<exists>b'. put_dirty (local_ops hash) ds b = (Inr (), b') \<and> disk_sure hash b'"
proof (induction ds arbitrary: b)
  case (Cons x ds)
  obtain i d where x: "x = (i, d)" by fastforce
  obtain h s' where p: "so_put (local_ops hash) d (cb_store b) = (Inr h, s')" "store_sure s'"
    using Cons.prems sure_put [of hash "cb_store b" d] unfolding disk_sure_def by blast
  have "disk_sure hash (b\<lparr>cb_store := s', cb_index := set_hash i h (cb_index b)\<rparr>)"
    using Cons.prems p(2) by (simp add: disk_sure_def)
  from Cons.IH [OF this] show ?case by (simp add: x p(1))
qed simp

lemma sure_cas_flush: "disk_sure hash b \<Longrightarrow> \<exists>b'. cas_flush (local_ops hash) b = (Inr (), b') \<and> disk_sure hash b'"
  using sure_put_dirty [of hash b "cb_dirty b"] by (auto simp: cas_flush_def disk_sure_def)

interpretation cnb: nbd_backend "cas_backend (local_ops hash)" "disk_ok hash" "disk_sure hash" cas_contents for hash
proof
  fix b b' :: "local_store cas" and off n :: nat and r :: "io_error + bytes"
  assume ok: "disk_ok hash b" and n: "off + n \<le> unat (bo_size (cas_backend (local_ops hash)) b)"
    and "bo_read (cas_backend (local_ops hash)) off n b = (r, b')"
  then have r: "cas_read (local_ops hash) off n b = (r, b')" and n': "off + n \<le> unat (cas_size b)" by (simp_all add: cas_backend_def)
  have small: "off + n < 2 ^ 64" using n' unat_word_bound [of "cas_size b"] by simp
  then have "map (\<lambda>k. byte_at ls_files b ((off + k) mod 2 ^ 64)) [0..<n] = disk_read off n (byte_at ls_files b)"
    unfolding disk_read_def by (intro map_cong) auto
  then show "disk_ok hash b' \<and> cas_contents b' = cas_contents b \<and>
      bo_size (cas_backend (local_ops hash)) b' = bo_size (cas_backend (local_ops hash)) b \<and>
      (\<forall>bs. r = Inr bs \<longrightarrow> bs @ replicate (n - length bs) 0 = disk_read off n (cas_contents b)) \<and>
      (disk_sure hash b \<longrightarrow> disk_sure hash b' \<and> (\<exists>bs. r = Inr bs))"
    using sure_cas_read [of hash b off n] r lcs.cas_read_ok [OF ok _ r] small same_bytes [of ls_files b b'] disk_read_clip [OF n']
    by (auto simp: cas_backend_def cas_contents_def same_but_store_def cas_size_def disk_read_def)
next
  fix b b' :: "local_store cas" and off :: nat and data :: bytes and w :: "io_error + nat"
  assume ok: "disk_ok hash b" and n: "off + length data \<le> unat (bo_size (cas_backend (local_ops hash)) b)"
    and w: "bo_write (cas_backend (local_ops hash)) off data b = (w, b')"
  obtain r where r: "cas_write (local_ops hash) off data b = (r, b')" "w = map_sum id (\<lambda>_. length data) r"
    using w by (auto simp: cas_backend_def split: prod.splits)
  have n': "off + length data \<le> unat (cas_size b)" using n by (simp add: cas_backend_def)
  then have small: "off + length data \<le> 2 ^ 64" using unat_word_bound [of "cas_size b"] by simp
  note c = lcs.cas_write_ok [OF ok small r(1)]
  then obtain m where m: "r = Inr () \<longrightarrow> m = length data" "byte_at ls_files b' = disk_write off (take m data) (byte_at ls_files b)"
    by blast
  have sz: "cas_size b' = cas_size b" using c by (simp add: same_shape_def cas_size_def)
  have "cas_contents b' = disk_write off (take m data) (cas_contents b)"
    using n' by (simp add: cas_contents_def sz m(2) disk_write_clip)
  then show "disk_ok hash b' \<and> bo_size (cas_backend (local_ops hash)) b' = bo_size (cas_backend (local_ops hash)) b \<and>
      (\<exists>m. (\<forall>k. w = Inr k \<longrightarrow> m = length data) \<and> cas_contents b' = disk_write off (take m data) (cas_contents b)) \<and>
      (disk_sure hash b \<longrightarrow> disk_sure hash b' \<and> (\<exists>k. w = Inr k))"
    using sure_cas_write [of hash b off data] c m(1) sz r by (cases r) (auto simp: cas_backend_def)
next
  fix b b' :: "local_store cas" and f :: "io_error + unit"
  assume ok: "disk_ok hash b" and "bo_flush (cas_backend (local_ops hash)) b = (f, b')"
  then have f: "cas_flush (local_ops hash) b = (f, b')" by (simp add: cas_backend_def)
  note c = lcs.cas_flush_ok [OF ok f]
  have "byte_at ls_files b' k = byte_at ls_files b k" if "k < unat (cas_size b)" for k
    using c chunk_inside [OF ok that] by (simp add: byte_at_def)
  then show "disk_ok hash b' \<and> cas_contents b' = cas_contents b \<and>
      bo_size (cas_backend (local_ops hash)) b' = bo_size (cas_backend (local_ops hash)) b \<and>
      (disk_sure hash b \<longrightarrow> disk_sure hash b' \<and> f = Inr ())"
    using sure_cas_flush [of hash b] f c by (auto simp: cas_backend_def cas_contents_def clip_def cas_size_def)
qed

text \<open>
  A flat file keeps the contract as long as the calls on it that succeed are complete: \<^verbatim>\<open>nbd.rs\<close> does not look at how
  much of a write the backend took.
\<close>

definition flat_ok :: "flat_file \<Rightarrow> bool" where
  "flat_ok f \<longleftrightarrow> ff_size f = length (ff_data f) \<and> length (ff_data f) < 2 ^ 63 \<and> (\<forall>a \<in> set (ff_answers f). \<exists>e. a = Inl e)"

lemma next_answer_flat:
  assumes "flat_ok f" "next_answer n f = (r, f')"
  shows "flat_ok f' \<and> ff_data f' = ff_data f \<and> ff_size f' = ff_size f \<and> (\<forall>k. r = Inr k \<longrightarrow> k = n) \<and>
    (ff_answers f = [] \<longrightarrow> ff_answers f' = [] \<and> (\<exists>k. r = Inr k))"
  using assms by (auto simp: next_answer_def flat_ok_def split: list.splits sum.splits)

interpretation fnb: nbd_backend flat_backend flat_ok "\<lambda>f. ff_answers f = []" "\<lambda>f. pad_byte (ff_data f)"
proof
  fix f f' :: flat_file and off n :: nat and r :: "io_error + bytes"
  assume ok: "flat_ok f" and n: "off + n \<le> unat (bo_size flat_backend f)" and r: "bo_read flat_backend off n f = (r, f')"
  obtain q f1 where q: "next_answer n f = (q, f1)" by fastforce
  have n': "off + n \<le> length (ff_data f)" "length (ff_data f) < 2 ^ 63" using n ok by (simp_all add: flat_backend_def flat_ok_def unat_of_nat)
  have "take n (drop off (ff_data f)) = disk_read off n (pad_byte (ff_data f))"
    using n' by (intro nth_equalityI) (simp_all add: disk_read_def pad_byte_def)
  then show "flat_ok f' \<and> pad_byte (ff_data f') = pad_byte (ff_data f) \<and> bo_size flat_backend f' = bo_size flat_backend f \<and>
      (\<forall>bs. r = Inr bs \<longrightarrow> bs @ replicate (n - length bs) 0 = disk_read off n (pad_byte (ff_data f))) \<and>
      (ff_answers f = [] \<longrightarrow> ff_answers f' = [] \<and> (\<exists>bs. r = Inr bs))"
    using next_answer_flat [OF ok q] r q n' by (cases q) (auto simp: flat_backend_def flat_read_def)
next
  fix f f' :: flat_file and off :: nat and data :: bytes and w :: "io_error + nat"
  assume ok: "flat_ok f" and n: "off + length data \<le> unat (bo_size flat_backend f)" and w: "bo_write flat_backend off data f = (w, f')"
  obtain q f1 where q: "next_answer (length data) f = (q, f1)" by fastforce
  note a = next_answer_flat [OF ok q]
  have n': "off + length data \<le> length (ff_data f)" "length (ff_data f) < 2 ^ 63"
    using n ok by (simp_all add: flat_backend_def flat_ok_def unat_of_nat)
  have over: "pad_byte (overlay off data (ff_data f)) = disk_write off data (pad_byte (ff_data f))"
    "length (overlay off data (ff_data f)) = length (ff_data f)"
    using n' by (auto simp: pad_byte_overlay length_overlay disk_write_def)
  show "flat_ok f' \<and> bo_size flat_backend f' = bo_size flat_backend f \<and>
      (\<exists>m. (\<forall>k. w = Inr k \<longrightarrow> m = length data) \<and> pad_byte (ff_data f') = disk_write off (take m data) (pad_byte (ff_data f))) \<and>
      (ff_answers f = [] \<longrightarrow> ff_answers f' = [] \<and> (\<exists>k. w = Inr k))"
  proof (cases q)
    case (Inl e)
    then show ?thesis using w q a n' by (auto simp: flat_backend_def flat_write_def intro!: exI [of _ 0])
  next
    case (Inr k)
    then show ?thesis using w q a n' over
      by (cases "data = []") (auto simp: flat_backend_def flat_write_def flat_ok_def intro!: exI [of _ "length data"])
  qed
next
  fix f f' :: flat_file and r :: "io_error + unit"
  assume ok: "flat_ok f" and r: "bo_flush flat_backend f = (r, f')"
  obtain q f1 where q: "next_answer 0 f = (q, f1)" by fastforce
  show "flat_ok f' \<and> pad_byte (ff_data f') = pad_byte (ff_data f) \<and> bo_size flat_backend f' = bo_size flat_backend f \<and>
      (ff_answers f = [] \<longrightarrow> ff_answers f' = [] \<and> r = Inr ())"
    using next_answer_flat [OF ok q] r q by (cases q) (auto simp: flat_backend_def flat_flush_def)
qed

section \<open>Opening a disk\<close>

text \<open>
  What \<^verbatim>\<open>start_cas_nbd_server\<close> opens before it listens: the index when there is one, with the image it names, and
  else a new index over the image of the root file system. \<open>images\<close> is what opening an image file gives.
\<close>

datatype open_error = OpenIndex index_error | OpenImage io_error | ImageTooBig | DiskTooSmall

definition open_source ::
  "index_files \<Rightarrow> (string \<Rightarrow> io_error + flat_file) \<Rightarrow> string \<Rightarrow> string \<Rightarrow> open_error + chunk_index \<times> flat_file option"
where
  "open_source files images rootfs_path index_path =
     (if files index_path \<noteq> None then
        case index_open files index_path of
          Inl e \<Rightarrow> Inl (OpenIndex e)
        | Inr ix \<Rightarrow>
            (case ci_fallback ix of
               None \<Rightarrow> Inr (ix, None)
             | Some p \<Rightarrow>
                 (case images p of
                    Inl e \<Rightarrow> Inl (OpenImage e)
                  | Inr fb \<Rightarrow> if unat (ci_disk_size ix) < ff_size fb then Inl ImageTooBig else Inr (ix, Some fb)))
      else
        case images rootfs_path of
          Inl e \<Rightarrow> Inl (OpenImage e)
        | Inr fb \<Rightarrow> Inr (index_new (word_of_nat (ff_size fb)), Some fb))"

definition start_cas_disk ::
  "index_files \<Rightarrow> (string \<Rightarrow> io_error + flat_file) \<Rightarrow> 's \<Rightarrow> string \<Rightarrow> string \<Rightarrow> u64 \<Rightarrow> (open_error + 's cas) option"
where
  "start_cas_disk files images store rootfs_path index_path disk_size =
     (case open_source files images rootfs_path index_path of
        Inl e \<Rightarrow> Some (Inl e)
      | Inr (ix, fb) \<Rightarrow>
          map_option (\<lambda>b. if disk_size < cas_size b then Inl DiskTooSmall
                          else Inr (if 0 < disk_size then set_disk_size disk_size b else b)) (cas_new files store ix fb))"

text \<open>
  A checkpoint of a running server, \<^verbatim>\<open>NbdHandle::save_checkpoint\<close>: only a disk on the chunk store has one. The index is
  written once every chunk it names is in the store. \<open>None\<close> is a panic in the save.
\<close>

datatype checkpoint_error = NotCas | ChunkFailed io_error | IndexFailed index_error

definition save_checkpoint ::
  "'s store_ops \<Rightarrow> (nat \<times> io_error) option \<Rightarrow> string \<Rightarrow> 's cas option \<times> index_files \<Rightarrow>
   (checkpoint_error + unit) option \<times> 's cas option \<times> index_files"
where
  "save_checkpoint ops fault index_path h =
     (case h of
        (None, files) \<Rightarrow> (Some (Inl NotCas), h)
      | (Some b, files) \<Rightarrow>
          (case save_index ops b of
             (None, b) \<Rightarrow> (None, Some b, files)
           | (Some (Inl e), b) \<Rightarrow> (Some (Inl (ChunkFailed e)), Some b, files)
           | (Some (Inr ix), b) \<Rightarrow>
               (case index_save fault index_path ix files of
                  (r, files) \<Rightarrow> (Some (case r of Inl e \<Rightarrow> Inl (IndexFailed e) | Inr _ \<Rightarrow> Inr ()), Some b, files))))"

lemma set_disk_size_chunks:
  "chunk_at holds (set_disk_size n b) i = chunk_at holds b i" "cb_store (set_disk_size n b) = cb_store b"
  "cb_fallback (set_disk_size n b) = cb_fallback b"
proof -
  have "hash_at (cb_index (set_disk_size n b)) i = hash_at (cb_index b) i"
    by (auto simp: set_disk_size_def hash_at_def get_hash_def Let_def nth_append)
  moreover have "cb_dirty (set_disk_size n b) = cb_dirty b" "cb_parents (set_disk_size n b) = cb_parents b"
    by (simp_all add: set_disk_size_def Let_def)
  moreover show "cb_store (set_disk_size n b) = cb_store b" "cb_fallback (set_disk_size n b) = cb_fallback b"
    by (simp_all add: set_disk_size_def Let_def)
  ultimately show "chunk_at holds (set_disk_size n b) i = chunk_at holds b i"
    by (simp add: chunk_at_def base_chunk_def resolved_def split: option.split)
qed

lemma div_ceil_mono: "m \<le> n \<Longrightarrow> div_ceil m CHUNK_SIZE \<le> div_ceil n CHUNK_SIZE"
  unfolding div_ceil_def by (intro div_le_mono) simp

lemma set_disk_size_ok:
  assumes "cas_ok valid holds b" "cas_size b \<le> n"
  shows "cas_ok valid holds (set_disk_size n b) \<and> cas_size (set_disk_size n b) = n \<and>
    byte_at holds (set_disk_size n b) = byte_at holds b"
proof (cases "cas_size b = n")
  case True
  then show ?thesis using assms by (simp add: set_disk_size_def cas_size_def)
next
  case False
  then have less: "ci_disk_size (cb_index b) < n" using assms(2) by (simp add: cas_size_def)
  then have "div_ceil (unat (ci_disk_size (cb_index b))) CHUNK_SIZE \<le> div_ceil (unat n) CHUNK_SIZE"
    by (intro div_ceil_mono) (simp add: word_less_nat_alt)
  then have "cas_ok valid holds (set_disk_size n b)"
    using assms(1) less by (auto simp: cas_ok_def set_disk_size_def Let_def refs_held_def text_ok_def ZERO_CHUNK_HASH_def ascii_def)
  then show ?thesis using less by (simp add: set_disk_size_chunks byte_at_def fun_eq_iff) (simp add: set_disk_size_def cas_size_def Let_def)
qed

lemma image_bytes:
  assumes "cb_dirty b = []" "\<And>i. resolved b i = ZERO_CHUNK_HASH" "cb_fallback b = Some fb" "ff_size fb = length (ff_data fb)"
  shows "byte_at holds b = pad_byte (ff_data fb)"
proof
  fix k
  have k: "k div CHUNK_SIZE * CHUNK_SIZE + k mod CHUNK_SIZE = k" by simp
  have "k mod CHUNK_SIZE < CHUNK_SIZE" using CHUNK_SIZE_pos by simp
  moreover have "k mod CHUNK_SIZE < length (ff_data fb) - k div CHUNK_SIZE * CHUNK_SIZE \<longleftrightarrow> k < length (ff_data fb)"
    using k by linarith
  ultimately show "byte_at holds b k = pad_byte (ff_data fb) k"
    using assms by (auto simp: byte_at_def chunk_at_def base_chunk_def fallback_chunk_def pad_byte_def)
qed

text \<open>
  C33. The server is a disk to its client: after any options it does not know, each answered as unsupported, it tells the
  size of the disk, and then answers every request inside the disk, in order and each once, with the bytes the writes
  before it left; it answers with an error only when the store or the image can fail, and such a write leaves a prefix.
\<close>

theorem nbd_serves_disk:
  assumes "disk_ok hash b" "q \<longrightarrow> disk_sure hash b"
    "list_all unknown_option opts" "opt \<in> {NBD_OPT_GO, NBD_OPT_EXPORT_NAME}" "length data < 2 ^ 32"
    "list_all (request_ok (unat (cas_size b))) reqs"
    "bs = to_be_bytes (flags :: u32) @ concat (map (\<lambda>(opt, data). option_bytes opt data) opts) @ option_bytes opt data @
       concat (map request_bytes reqs)"
  shows "\<exists>s' out. handle_client (cas_backend (local_ops hash))
      \<lparr>se_in = \<lparr>rd_bytes = bs, rd_end = e\<rparr>, se_out = \<lparr>wr_out = [], wr_fail = None\<rparr>, se_disk = b\<rparr> = (Inr (), s') \<and>
    wr_out (se_out s') = greeting @ concat (map (\<lambda>(opt, data). option_reply opt NBD_REP_ERR_UNSUP []) opts) @
      export_reply flags (cas_size b) opt @ out \<and>
    disk_ok hash (se_disk s') \<and> replies q (cas_contents b) reqs out (cas_contents (se_disk s'))"
proof -
  let ?s = "\<lparr>se_in = \<lparr>rd_bytes = bs, rd_end = e\<rparr>, se_out = \<lparr>wr_out = [], wr_fail = None\<rparr>, se_disk = b\<rparr>"
  let ?hello = "greeting @ concat (map (\<lambda>(opt, data). option_reply opt NBD_REP_ERR_UNSUP []) opts) @ export_reply flags (cas_size b) opt"
  let ?s1 = "with_out ?hello (with_in (concat (map request_bytes reqs)) ?s)"
  have sz: "bo_size (cas_backend (local_ops hash)) b = cas_size b" by (simp add: cas_backend_def)
  have "handshake (cas_backend (local_ops hash)) ?s = (Inr (), ?s1)"
    using handshake_ok [OF assms(3-5), of ?s flags "concat (map request_bytes reqs)" "cas_backend (local_ops hash)"] assms(7) sz
    by simp
  moreover have "\<exists>s' out. transmission (cas_backend (local_ops hash)) ?s1 = (Inr (), s') \<and>
      wr_out (se_out s') = wr_out (se_out ?s1) @ out \<and> disk_ok hash (se_disk s') \<and>
      replies q (cas_contents (se_disk ?s1)) reqs out (cas_contents (se_disk s'))"
    using assms(1,2,6) sz by (intro cnb.transmission_serves) simp_all
  ultimately show ?thesis by (auto simp: handle_client_def)
qed

text \<open>A client that asks for an option of its own, then for the export, and reads two bytes of the sample disk.\<close>

theorem nbd_serves_disk_witness:
  "disk_ok sample_hash sample_disk \<and> disk_sure sample_hash sample_disk \<and> unknown_option (8, []) \<and>
   request_ok (unat (cas_size sample_disk)) (ReadReq (replicate 8 7) 1 2) \<and>
   (\<exists>s'. handle_client (cas_backend (local_ops sample_hash))
      \<lparr>se_in = \<lparr>rd_bytes = to_be_bytes (3 :: u32) @ option_bytes 8 [] @ option_bytes NBD_OPT_GO [] @
          request_bytes (ReadReq (replicate 8 7) 1 2), rd_end = None\<rparr>,
       se_out = \<lparr>wr_out = [], wr_fail = None\<rparr>, se_disk = sample_disk\<rparr> = (Inr (), s') \<and>
    wr_out (se_out s') = greeting @ option_reply 8 NBD_REP_ERR_UNSUP [] @ export_reply 3 0x10000 NBD_OPT_GO @
      reply_bytes NBD_OK (replicate 8 7) @ [2, 3])"
proof -
  have sure: "disk_sure sample_hash sample_disk"
    using sample_hash_ok by (simp add: disk_sure_def store_sure_def sample_disk_def opened_def sample_store_def partial_name_def)
  have sz: "cas_size sample_disk = 0x10000" by (simp add: cas_size_def sample_disk_def opened_def index_new_def)
  have o: "unknown_option (8, [])" by (simp add: unknown_option_def nbd_constants)
  have r: "request_ok (unat (cas_size sample_disk)) (ReadReq (replicate 8 7) 1 2)" by (simp add: sz)
  have "chunk_at ls_files sample_disk 0 = [1, 2, 3]"
    by (simp add: chunk_at_def base_chunk_def sample_disk_def opened_def resolved_def hash_at_def get_hash_def sample_store_def
        ZERO_CHUNK_HASH_def)
  then have bytes: "disk_read 1 2 (cas_contents sample_disk) = [2, 3]"
    by (simp add: disk_read_def cas_contents_def clip_def sz upt_rec byte_at_def CHUNK_SIZE_def pad_byte_def)
  have one: "out = reply_bytes NBD_OK (replicate 8 7) @ [2, 3]"
    if "replies True (cas_contents sample_disk) [ReadReq (replicate 8 7) 1 2] out D" for out D
    using that bytes by (auto elim!: replies.cases)
  show ?thesis
    using nbd_serves_disk [OF sample_disk_ok, of True "[(8, [])]" NBD_OPT_GO "[]" "[ReadReq (replicate 8 7) 1 2]" _ 3 None]
      sample_disk_ok sure o r sz one by auto
qed

text \<open>
  C37. A disk started without an index has the bytes of the root file system's image, zeros after them up to the size asked
  for, and takes nothing into the store yet; a size smaller than the image is refused.
\<close>

theorem new_disk_is_rootfs:
  assumes "files index_path = None" "images rootfs_path = Inr (flat_open data answers)" "length data < 2 ^ 63"
    "collision_free hash" "files_ok hash (ls_files store)"
  shows "(length data \<le> unat disk_size \<longrightarrow>
      (\<exists>d. start_cas_disk files images store rootfs_path index_path disk_size = Some (Inr d) \<and> disk_ok hash d \<and>
         cas_size d = disk_size \<and> byte_at ls_files d = pad_byte data \<and> cb_store d = store)) \<and>
    (unat disk_size < length data \<longrightarrow>
      start_cas_disk files images store rootfs_path index_path disk_size = Some (Inl DiskTooSmall))"
proof -
  let ?ix = "index_new (word_of_nat (length data))"
  let ?b = "\<lparr>cb_store = store, cb_index = ?ix, cb_dirty = [], cb_parents = [], cb_fallback = Some (flat_open data answers)\<rparr>"
  have n: "unat (word_of_nat (length data) :: u64) = length data" using assms(3) by (simp add: unat_of_nat)
  have sz: "cas_size ?b = word_of_nat (length data)" by (simp add: cas_size_def index_new_def)
  have start: "start_cas_disk files images store rootfs_path index_path disk_size =
      Some (if disk_size < cas_size ?b then Inl DiskTooSmall else Inr (if 0 < disk_size then set_disk_size disk_size ?b else ?b))"
    using assms(1,2) by (simp add: start_cas_disk_def open_source_def cas_new_def load_parent_chain.simps index_new_def flat_open_def)
  have ok: "disk_ok hash ?b"
    using assms(4,5) n by (simp add: cas_ok_def index_new_def refs_held_def text_ok_def ZERO_CHUNK_HASH_def ascii_def)
  have bytes: "byte_at ls_files ?b = pad_byte data"
    using image_bytes [of ?b "flat_open data answers" ls_files]
    by (simp add: flat_open_def resolved_def hash_at_def get_hash_def index_new_def)
  have "unat disk_size < length data \<longrightarrow>
      start_cas_disk files images store rootfs_path index_path disk_size = Some (Inl DiskTooSmall)"
    using start sz n by (simp add: word_less_nat_alt)
  moreover have "length data \<le> unat disk_size \<longrightarrow>
      (\<exists>d. start_cas_disk files images store rootfs_path index_path disk_size = Some (Inr d) \<and> disk_ok hash d \<and>
         cas_size d = disk_size \<and> byte_at ls_files d = pad_byte data \<and> cb_store d = store)"
  proof
    assume "length data \<le> unat disk_size"
    then have le: "cas_size ?b \<le> disk_size" using sz n by (simp add: word_le_nat_alt)
    have "\<not> 0 < disk_size \<longrightarrow> set_disk_size disk_size ?b = ?b"
      by (cases "disk_size = 0") (simp_all add: set_disk_size_def word_gt_0)
    then have "start_cas_disk files images store rootfs_path index_path disk_size = Some (Inr (set_disk_size disk_size ?b))"
      using start le by auto
    then show "\<exists>d. start_cas_disk files images store rootfs_path index_path disk_size = Some (Inr d) \<and> disk_ok hash d \<and>
         cas_size d = disk_size \<and> byte_at ls_files d = pad_byte data \<and> cb_store d = store"
      using set_disk_size_ok [OF ok le] set_disk_size_chunks(2) [of disk_size ?b] bytes by auto
  qed
  ultimately show ?thesis by blast
qed

text \<open>An image of three bytes as a disk of one chunk.\<close>

theorem new_disk_is_rootfs_witness:
  "(\<exists>d. start_cas_disk Map.empty (\<lambda>p. Inr (flat_open [1, 2, 3] [])) sample_store ''rootfs'' ''disk.idx'' 0x10000 = Some (Inr d) \<and>
      disk_ok sample_hash d \<and> byte_at ls_files d 1 = 2 \<and> byte_at ls_files d 3 = 0) \<and>
   start_cas_disk Map.empty (\<lambda>p. Inr (flat_open [1, 2, 3] [])) sample_store ''rootfs'' ''disk.idx'' 2 = Some (Inl DiskTooSmall)"
proof -
  have f: "files_ok sample_hash (ls_files sample_store)" using sample_disk_ok by (simp add: cas_ok_def sample_disk_def opened_def)
  have p: "pad_byte [1, 2, 3] 1 = 2" "pad_byte [1, 2, 3] 3 = 0" by (simp_all add: pad_byte_def)
  note t = new_disk_is_rootfs [of Map.empty "''disk.idx''" "\<lambda>p. Inr (flat_open [1, 2, 3] [])" "''rootfs''" "[1, 2, 3]" "[]"
      sample_hash sample_store]
  show ?thesis using t [of "0x10000"] t [of 2] f sample_hash_ok p by auto
qed

text \<open>
  C34. A checkpoint restarts the disk: no save panics, and a server started on the index file of one that succeeded, with any
  size that is not smaller, has every byte the disk had, with no base image and no parent. The running disk keeps its bytes
  whether the save succeeds or not.
\<close>

theorem checkpoint_restarts_disk:
  assumes "disk_ok hash b" "save_checkpoint (local_ops hash) fault path (Some b, files) = (r, Some b', files')"
  shows "r \<noteq> None \<and> disk_ok hash b' \<and>
    (\<forall>k < unat (cas_size b). byte_at ls_files b' k = byte_at ls_files b k) \<and>
    (r = Some (Inr ()) \<and> cas_size b \<le> n \<longrightarrow>
       (\<exists>d. start_cas_disk files' images (cb_store b') rootfs_path path n = Some (Inr d) \<and> disk_ok hash d \<and>
          cas_size d = n \<and> cb_fallback d = None \<and> cb_parents d = [] \<and>
          (\<forall>k < unat (cas_size b). byte_at ls_files d k = byte_at ls_files b k)))"
proof -
  obtain q b1 where q: "save_index (local_ops hash) b = (q, b1)" by fastforce
  note s = lcs.save_index_ok [OF assms(1) q]
  have b': "b' = b1" using assms(2) q by (auto simp: save_checkpoint_def split: option.splits sum.splits prod.splits)
  have "r \<noteq> None" using assms(2) q s by (auto simp: save_checkpoint_def split: option.splits sum.splits prod.splits)
  moreover have "byte_at ls_files b' k = byte_at ls_files b k" if "k < unat (cas_size b)" for k
    using s chunk_inside [OF assms(1) that] by (simp add: byte_at_def b')
  moreover have "\<exists>d. start_cas_disk files' images (cb_store b') rootfs_path path n = Some (Inr d) \<and> disk_ok hash d \<and>
      cas_size d = n \<and> cb_fallback d = None \<and> cb_parents d = [] \<and>
      (\<forall>k < unat (cas_size b). byte_at ls_files d k = byte_at ls_files b k)"
    if r: "r = Some (Inr ())" and n: "cas_size b \<le> n"
  proof -
    obtain ix where ix: "q = Some (Inr ix)" "index_save fault path ix files = (Inr (), files')"
      using assms(2) q r by (auto simp: save_checkpoint_def split: option.splits sum.splits prod.splits)
    then have fault: "fault = None" by (auto simp: index_save_def split: option.splits)
    obtain d where d: "index_open files' path = Inr ix" "cas_new files' (cb_store b1) ix None = Some d" "disk_ok hash d"
      "cas_size d = cas_size b" "\<forall>k < unat (cas_size b). byte_at ls_files d k = byte_at ls_files b k"
      using saved_index_opens [OF assms(1) q [unfolded ix(1)] ix(2) [unfolded fault]] by blast
    have alone: "ci_fallback ix = None" "ci_parent ix = None" using s ix(1) by (simp_all add: is_disk_def)
    have there: "files' path \<noteq> None" using d(1) by (auto simp: index_open_def split: option.splits)
    have "\<not> 0 < n \<longrightarrow> set_disk_size n d = d" by (cases "n = 0") (simp_all add: set_disk_size_def word_gt_0)
    then have start: "start_cas_disk files' images (cb_store b') rootfs_path path n = Some (Inr (set_disk_size n d))"
      using d(1,2,4) alone(1) there n by (auto simp: start_cas_disk_def open_source_def b' not_less)
    have "cb_fallback (set_disk_size n d) = None \<and> cb_parents (set_disk_size n d) = []"
      using d(2) alone(2) by (auto simp: cas_new_def load_parent_chain.simps set_disk_size_def Let_def)
    then show ?thesis using start set_disk_size_ok [OF d(3), of n] d(4,5) n by auto
  qed
  ultimately show ?thesis using s b' by blast
qed

text \<open>The sample disk saved and started again with two chunks.\<close>

theorem checkpoint_restarts_disk_witness:
  "disk_ok sample_hash sample_disk \<and>
   (\<exists>files'. save_checkpoint (local_ops sample_hash) None ''disk.idx'' (Some sample_disk, Map.empty) =
      (Some (Inr ()), Some sample_disk, files') \<and>
      (\<exists>d. start_cas_disk files' (\<lambda>p. Inl OtherError) (cb_store sample_disk) ''rootfs'' ''disk.idx'' 0x20000 = Some (Inr d) \<and>
         disk_ok sample_hash d \<and> cas_size d = 0x20000))"
proof -
  have s: "save_index (local_ops sample_hash) sample_disk = (Some (Inr (cb_index sample_disk)), sample_disk)"
    by (simp add: save_index_def cas_flush_def sample_disk_def opened_def Let_def index_new_def div_ceil_def CHUNK_SIZE_def
        resolved_def hash_at_def get_hash_def ZERO_CHUNK_HASH_def)
  obtain files' where c: "save_checkpoint (local_ops sample_hash) None ''disk.idx'' (Some sample_disk, Map.empty) =
      (Some (Inr ()), Some sample_disk, files')"
    by (simp add: save_checkpoint_def s index_save_def)
  have sz: "cas_size sample_disk = 0x10000" by (simp add: cas_size_def sample_disk_def opened_def index_new_def)
  show ?thesis
    using checkpoint_restarts_disk [OF sample_disk_ok c, of "0x20000" "\<lambda>p. Inl OtherError" "''rootfs''"] sample_disk_ok c sz by auto
qed

end
