(* ===== verification/Spec2Isabelle.thy ===== *)
theory Spec2Isabelle
  imports Session_Ring Proto_Hello Vsock_System Proxy_Egress Proxy_Engine Store_Nbd
begin

text \<open>
  A verification development of shuru, a runner of microVM sandboxes.
\<close>

end
